theory Spec2Isabelle
  imports Main
begin

section \<open>Strings as the analyzer sees them\<close>

text \<open>
  Command text is modelled as \<^typ>\<open>string\<close>, one \<^typ>\<open>char\<close> per code unit, for
  strings whose code units are below 256. The JavaScript library functions the
  analyzer calls (\<open>trim\<close>, the regular expression class \<open>\s\<close>, \<open>toLowerCase\<close>,
  \<open>indexOf\<close>, \<open>startsWith\<close>, \<open>join\<close>) are written out for that range: the white
  space of \<open>trim\<close> and of \<open>\s\<close> is tab, line feed, vertical tab, form feed, carriage
  return, space and the no-break space U+00A0; \<open>toLowerCase\<close> maps \<open>A\<close> to \<open>Z\<close> and the
  capital letters U+00C0 to U+00DE (without the multiplication sign U+00D7) to the
  letter 32 places further.
\<close>

abbreviation (input) sq :: char where "sq \<equiv> CHR 0x27"

abbreviation (input) dq :: char where "dq \<equiv> CHR 0x22"

abbreviation (input) bsl :: char where "bsl \<equiv> CHR 0x5C"

abbreviation (input) btick :: char where "btick \<equiv> CHR 0x60"

abbreviation (input) nl :: char where "nl \<equiv> CHR 0x0A"

abbreviation (input) cr :: char where "cr \<equiv> CHR 0x0D"

abbreviation (input) tab :: char where "tab \<equiv> CHR 0x09"

abbreviation (input) nbsp :: char where "nbsp \<equiv> CHR 0xA0"

definition is_space :: "char \<Rightarrow> bool" where
  "is_space c \<longleftrightarrow> c \<in> set [CHR '' '', tab, nl, CHR 0x0B, CHR 0x0C, cr, nbsp]"

definition trim :: "string \<Rightarrow> string" where
  "trim s = rev (dropWhile is_space (rev (dropWhile is_space s)))"

definition upperLetters :: "char list" where
  "upperLetters =
     ''ABCDEFGHIJKLMNOPQRSTUVWXYZ'' @
     [CHR 0xC0, CHR 0xC1, CHR 0xC2, CHR 0xC3, CHR 0xC4, CHR 0xC5, CHR 0xC6, CHR 0xC7,
      CHR 0xC8, CHR 0xC9, CHR 0xCA, CHR 0xCB, CHR 0xCC, CHR 0xCD, CHR 0xCE, CHR 0xCF,
      CHR 0xD0, CHR 0xD1, CHR 0xD2, CHR 0xD3, CHR 0xD4, CHR 0xD5, CHR 0xD6, CHR 0xD8,
      CHR 0xD9, CHR 0xDA, CHR 0xDB, CHR 0xDC, CHR 0xDD, CHR 0xDE]"

definition lowerLetters :: "char list" where
  "lowerLetters =
     ''abcdefghijklmnopqrstuvwxyz'' @
     [CHR 0xE0, CHR 0xE1, CHR 0xE2, CHR 0xE3, CHR 0xE4, CHR 0xE5, CHR 0xE6, CHR 0xE7,
      CHR 0xE8, CHR 0xE9, CHR 0xEA, CHR 0xEB, CHR 0xEC, CHR 0xED, CHR 0xEE, CHR 0xEF,
      CHR 0xF0, CHR 0xF1, CHR 0xF2, CHR 0xF3, CHR 0xF4, CHR 0xF5, CHR 0xF6, CHR 0xF8,
      CHR 0xF9, CHR 0xFA, CHR 0xFB, CHR 0xFC, CHR 0xFD, CHR 0xFE]"

definition lower_char :: "char \<Rightarrow> char" where
  "lower_char c = (case map_of (zip upperLetters lowerLetters) c of Some l \<Rightarrow> l | None \<Rightarrow> c)"

definition toLowerCase :: "string \<Rightarrow> string" where
  "toLowerCase s = map lower_char s"

fun startsWith :: "string \<Rightarrow> string \<Rightarrow> bool" where
  "startsWith s [] = True"
| "startsWith [] (p # ps) = False"
| "startsWith (c # cs) (p # ps) = (c = p \<and> startsWith cs ps)"

text \<open>\<open>indexOf\<close> of a single character: the first index, or \<open>-1\<close>.\<close>

fun indexOf :: "string \<Rightarrow> char \<Rightarrow> int" where
  "indexOf [] c = -1"
| "indexOf (x # xs) c =
     (if x = c then 0 else (let r = indexOf xs c in if r < 0 then -1 else r + 1))"

text \<open>\<open>Array.prototype.join\<close>.\<close>

fun join :: "string \<Rightarrow> string list \<Rightarrow> string" where
  "join sep [] = []"
| "join sep [x] = x"
| "join sep (x # y # ys) = x @ sep @ join sep (y # ys)"

section \<open>Argv tokenizer\<close>

datatype ExecArgvToken =
    Empty string
  | Terminator string
  | Stdin string
  | Positional string
  | LongOption string string "string option"
  | ShortCluster string string "string list"

text \<open>
  The constructors carry the fields of the source's tagged objects in order:
  \<open>raw\<close>; for a long option \<open>raw\<close>, \<open>flag\<close>, \<open>inlineValue\<close>; for a short cluster
  \<open>raw\<close>, \<open>cluster\<close>, \<open>flags\<close>.
\<close>

definition parseExecArgvToken :: "string \<Rightarrow> ExecArgvToken" where
  "parseExecArgvToken raw =
     (if raw = [] then Empty raw
      else if raw = ''--'' then Terminator raw
      else if raw = ''-'' then Stdin raw
      else if \<not> startsWith raw ''-'' then Positional raw
      else if startsWith raw ''--'' then
        (let eqIndex = indexOf raw CHR ''='' in
         if eqIndex > 0
         then LongOption raw (take (nat eqIndex) raw) (Some (drop (nat (eqIndex + 1)) raw))
         else LongOption raw raw None)
      else
        (let cluster = drop 1 raw in
         ShortCluster raw cluster (map (\<lambda>entry. CHR ''-'' # [entry]) cluster)))"

section \<open>Dispatch wrappers\<close>

text \<open>
  Node's \<open>path.posix.basename\<close> and \<open>path.win32.basename\<close> (called without a
  suffix): trailing separators are dropped and the last component is returned; the
  Windows variant accepts both separators and skips a drive prefix such as \<open>C:\<close>.
\<close>

definition lastComponent :: "(char \<Rightarrow> bool) \<Rightarrow> string \<Rightarrow> string" where
  "lastComponent isSep p =
     rev (takeWhile (\<lambda>c. \<not> isSep c) (dropWhile isSep (rev p)))"

definition posix_basename :: "string \<Rightarrow> string" where
  "posix_basename p = lastComponent (\<lambda>c. c = CHR ''/'') p"

definition isWindowsDeviceRoot :: "char \<Rightarrow> bool" where
  "isWindowsDeviceRoot c \<longleftrightarrow>
     c \<in> set ''ABCDEFGHIJKLMNOPQRSTUVWXYZ'' \<or> c \<in> set ''abcdefghijklmnopqrstuvwxyz''"

definition win32_basename :: "string \<Rightarrow> string" where
  "win32_basename p =
     lastComponent (\<lambda>c. c = CHR ''/'' \<or> c = bsl)
       (case p of
          d # c # body \<Rightarrow> if isWindowsDeviceRoot d \<and> c = CHR '':'' then body else p
        | _ \<Rightarrow> p)"

definition MAX_DISPATCH_WRAPPER_DEPTH :: nat where
  "MAX_DISPATCH_WRAPPER_DEPTH = 4"

definition POSIX_SHELL_WRAPPERS :: "string list" where
  "POSIX_SHELL_WRAPPERS = [''ash'', ''bash'', ''dash'', ''fish'', ''ksh'', ''sh'', ''zsh'']"

definition WINDOWS_CMD_WRAPPERS :: "string list" where
  "WINDOWS_CMD_WRAPPERS = [''cmd.exe'', ''cmd'']"

definition POWERSHELL_WRAPPERS :: "string list" where
  "POWERSHELL_WRAPPERS = [''powershell'', ''powershell.exe'', ''pwsh'', ''pwsh.exe'']"

definition POSIX_INLINE_COMMAND_FLAGS :: "string list" where
  "POSIX_INLINE_COMMAND_FLAGS = [''-lc'', ''-c'', ''--command'']"

definition POWERSHELL_INLINE_COMMAND_FLAGS :: "string list" where
  "POWERSHELL_INLINE_COMMAND_FLAGS = [''-c'', ''-command'', ''--command'']"

definition ENV_OPTIONS_WITH_VALUE :: "string list" where
  "ENV_OPTIONS_WITH_VALUE =
     [''-u'', ''--unset'', ''-c'', ''--chdir'', ''-s'', ''--split-string'',
      ''--default-signal'', ''--ignore-signal'', ''--block-signal'']"

definition ENV_FLAG_OPTIONS :: "string list" where
  "ENV_FLAG_OPTIONS = [''-i'', ''--ignore-environment'', ''-0'', ''--null'']"

datatype ShellWrapperKind = Posix | Cmd | Powershell

record ShellWrapperSpec =
  kind :: ShellWrapperKind
  names :: "string list"

definition SHELL_WRAPPER_SPECS :: "ShellWrapperSpec list" where
  "SHELL_WRAPPER_SPECS =
     [\<lparr>kind = Posix, names = POSIX_SHELL_WRAPPERS\<rparr>,
      \<lparr>kind = Cmd, names = WINDOWS_CMD_WRAPPERS\<rparr>,
      \<lparr>kind = Powershell, names = POWERSHELL_WRAPPERS\<rparr>]"

record ShellWrapperCommand =
  isWrapper :: bool
  command :: "string option"

definition basenameLower :: "string \<Rightarrow> string" where
  "basenameLower token =
     (let win = win32_basename token;
          posix = posix_basename token;
          base = (if length win < length posix then win else posix)
      in toLowerCase (trim base))"

definition normalizeRawCommand :: "string option \<Rightarrow> string option" where
  "normalizeRawCommand rawCommand =
     (let trimmed = (case rawCommand of Some r \<Rightarrow> trim r | None \<Rightarrow> [])
      in if length trimmed > 0 then Some trimmed else None)"

definition findShellWrapperSpec :: "string \<Rightarrow> ShellWrapperSpec option" where
  "findShellWrapperSpec baseExecutable =
     find (\<lambda>spec. baseExecutable \<in> set (names spec)) SHELL_WRAPPER_SPECS"

text \<open>The regular expression \<open>^[A-Za-z_][A-Za-z0-9_]*=.*\<close>, tested against a token.\<close>

definition isNameStart :: "char \<Rightarrow> bool" where
  "isNameStart c \<longleftrightarrow> isWindowsDeviceRoot c \<or> c = CHR ''_''"

definition isNameChar :: "char \<Rightarrow> bool" where
  "isNameChar c \<longleftrightarrow> isNameStart c \<or> c \<in> set ''0123456789''"

definition isEnvAssignment :: "string \<Rightarrow> bool" where
  "isEnvAssignment token =
     (case token of
        [] \<Rightarrow> False
      | c # cs \<Rightarrow>
          isNameStart c \<and>
          (case dropWhile isNameChar cs of [] \<Rightarrow> False | d # _ \<Rightarrow> d = CHR ''=''))"

text \<open>
  The loop of \<open>unwrapEnvInvocation\<close> over the tokens from index 1 on, with the flag
  \<open>expectsOptionValue\<close>. \<open>None\<close> is the early \<open>return null\<close> on an unknown option;
  \<open>Some rest\<close> is the part of argv from \<open>idx\<close> on when the loop ends.
\<close>

fun unwrapEnvLoop :: "bool \<Rightarrow> string list \<Rightarrow> string list option" where
  "unwrapEnvLoop expectsOptionValue [] = Some []"
| "unwrapEnvLoop expectsOptionValue (a # rest) =
     (let token = trim a in
      if token = [] then unwrapEnvLoop expectsOptionValue rest
      else if expectsOptionValue then unwrapEnvLoop False rest
      else if token = ''--'' \<or> token = ''-'' then Some rest
      else if isEnvAssignment token then unwrapEnvLoop expectsOptionValue rest
      else if startsWith token ''-'' \<and> token \<noteq> ''-'' then
        (let lower = toLowerCase token;
             flag = takeWhile (\<lambda>c. c \<noteq> CHR ''='') lower
         in if flag \<in> set ENV_FLAG_OPTIONS then unwrapEnvLoop expectsOptionValue rest
            else if flag \<in> set ENV_OPTIONS_WITH_VALUE then
              unwrapEnvLoop (if CHR ''='' \<notin> set lower then True else expectsOptionValue) rest
            else if startsWith lower ''-u'' \<or> startsWith lower ''-c''
                    \<or> startsWith lower ''-s'' \<or> startsWith lower ''--unset=''
                    \<or> startsWith lower ''--chdir='' \<or> startsWith lower ''--split-string=''
                    \<or> startsWith lower ''--default-signal=''
                    \<or> startsWith lower ''--ignore-signal=''
                    \<or> startsWith lower ''--block-signal=''
            then unwrapEnvLoop expectsOptionValue rest
            else None)
      else Some (a # rest))"

definition unwrapEnvInvocation :: "string list \<Rightarrow> string list option" where
  "unwrapEnvInvocation argv =
     (case unwrapEnvLoop False (drop 1 argv) of
        None \<Rightarrow> None
      | Some rest \<Rightarrow> if rest \<noteq> [] then Some rest else None)"

text \<open>
  \<open>unwrapDispatchWrappersForResolution\<close> runs its loop body at most \<open>maxDepth\<close>
  times; after one unwrapping the remaining iterations are the same loop with one
  iteration less, written here as the recursive call.
\<close>

fun unwrapDispatchWrappersForResolution :: "string list \<Rightarrow> nat \<Rightarrow> string list" where
  "unwrapDispatchWrappersForResolution current 0 = current"
| "unwrapDispatchWrappersForResolution current (Suc maxDepth) =
     (case current of
        [] \<Rightarrow> current
      | a # _ \<Rightarrow>
          (let token0 = trim a in
           if token0 = [] then current
           else if basenameLower token0 \<noteq> ''env'' then current
           else (case unwrapEnvInvocation current of
                   None \<Rightarrow> current
                 | Some unwrapped \<Rightarrow>
                     if length unwrapped = 0 then current
                     else unwrapDispatchWrappersForResolution unwrapped maxDepth)))"

text \<open>\<open>argv[i]?.trim()\<close> followed by a truthiness test: a missing or blank entry gives \<open>None\<close>.\<close>

definition trimmedAt :: "string list \<Rightarrow> nat \<Rightarrow> string option" where
  "trimmedAt argv i =
     (if i < length argv \<and> trim (argv ! i) \<noteq> [] then Some (trim (argv ! i)) else None)"

definition extractPosixShellInlineCommand :: "string list \<Rightarrow> string option" where
  "extractPosixShellInlineCommand argv =
     (case trimmedAt argv 1 of
        None \<Rightarrow> None
      | Some flag \<Rightarrow>
          if toLowerCase flag \<notin> set POSIX_INLINE_COMMAND_FLAGS then None
          else trimmedAt argv 2)"

definition extractCmdInlineCommand :: "string list \<Rightarrow> string option" where
  "extractCmdInlineCommand argv =
     (case dropWhile (\<lambda>item. toLowerCase (trim item) \<noteq> ''/c'') argv of
        [] \<Rightarrow> None
      | _ # tail \<Rightarrow>
          if length tail = 0 then None
          else (let cmd = trim (join '' '' tail) in
                if length cmd > 0 then Some cmd else None))"

fun extractPowerShellLoop :: "string list \<Rightarrow> string option" where
  "extractPowerShellLoop [] = None"
| "extractPowerShellLoop (a # rest) =
     (let token = trim a in
      if token = [] then extractPowerShellLoop rest
      else (let lower = toLowerCase token in
            if lower = ''--'' then None
            else if lower \<in> set POWERSHELL_INLINE_COMMAND_FLAGS then trimmedAt rest 0
            else extractPowerShellLoop rest))"

definition extractPowerShellInlineCommand :: "string list \<Rightarrow> string option" where
  "extractPowerShellInlineCommand argv = extractPowerShellLoop (drop 1 argv)"

definition extractShellWrapperPayload :: "string list \<Rightarrow> ShellWrapperSpec \<Rightarrow> string option" where
  "extractShellWrapperPayload argv spec =
     (case kind spec of
        Posix \<Rightarrow> extractPosixShellInlineCommand argv
      | Cmd \<Rightarrow> extractCmdInlineCommand argv
      | Powershell \<Rightarrow> extractPowerShellInlineCommand argv)"

function extractShellWrapperCommandInternal ::
  "string list \<Rightarrow> string option \<Rightarrow> nat \<Rightarrow> ShellWrapperCommand" where
  "extractShellWrapperCommandInternal argv rawCommand depth =
     (if depth \<ge> MAX_DISPATCH_WRAPPER_DEPTH then \<lparr>isWrapper = False, command = None\<rparr>
      else case trimmedAt argv 0 of
        None \<Rightarrow> \<lparr>isWrapper = False, command = None\<rparr>
      | Some token0 \<Rightarrow>
          (let base0 = basenameLower token0 in
           if base0 = ''env'' then
             (case unwrapEnvInvocation argv of
                None \<Rightarrow> \<lparr>isWrapper = False, command = None\<rparr>
              | Some unwrapped \<Rightarrow>
                  extractShellWrapperCommandInternal unwrapped rawCommand (depth + 1))
           else case findShellWrapperSpec base0 of
             None \<Rightarrow> \<lparr>isWrapper = False, command = None\<rparr>
           | Some wrapper \<Rightarrow>
               (case extractShellWrapperPayload argv wrapper of
                  None \<Rightarrow> \<lparr>isWrapper = False, command = None\<rparr>
                | Some payload \<Rightarrow>
                    if payload = [] then \<lparr>isWrapper = False, command = None\<rparr>
                    else \<lparr>isWrapper = True,
                          command = Some (case rawCommand of Some r \<Rightarrow> r | None \<Rightarrow> payload)\<rparr>)))"
  by pat_completeness auto

termination
  by (relation "measure (\<lambda>(argv, rawCommand, depth). MAX_DISPATCH_WRAPPER_DEPTH - depth)") auto

definition extractShellWrapperCommand :: "string list \<Rightarrow> string option \<Rightarrow> ShellWrapperCommand" where
  "extractShellWrapperCommand argv rawCommand =
     extractShellWrapperCommandInternal argv (normalizeRawCommand rawCommand) 0"

section \<open>Command consistency\<close>

text \<open>
  \<open>formatExecCommand\<close>: a blank argument is rendered as two double quotes, an argument
  with whitespace or a double quote is wrapped in double quotes with every double
  quote preceded by a backslash, anything else is its trimmed text.
\<close>

definition formatExecArg :: "string \<Rightarrow> string" where
  "formatExecArg arg =
     (let trimmed = trim arg in
      if trimmed = [] then [dq, dq]
      else if \<not> (\<exists>c \<in> set trimmed. is_space c \<or> c = dq) then trimmed
      else [dq] @ concat (map (\<lambda>c. if c = dq then [bsl, dq] else [c]) trimmed) @ [dq])"

definition formatExecCommand :: "string list \<Rightarrow> string" where
  "formatExecCommand argv = join '' '' (map formatExecArg argv)"

datatype SystemRunCommandValidation =
    ValidationOk "string option" string
  | ValidationError string string string string

text \<open>
  \<open>ValidationOk shellCommand cmdText\<close> is the \<open>ok: true\<close> result;
  \<open>ValidationError message code rawCommand inferred\<close> is the \<open>ok: false\<close> result with
  the three entries of \<open>details\<close>.
\<close>

definition validateSystemRunCommandConsistency ::
  "string list \<Rightarrow> string option \<Rightarrow> SystemRunCommandValidation" where
  "validateSystemRunCommandConsistency argv rawCommand =
     (let raw = (case rawCommand of
                   Some r \<Rightarrow> if length (trim r) > 0 then Some (trim r) else None
                 | None \<Rightarrow> None);
          shellCommand = command (extractShellWrapperCommand argv None);
          inferred = (case shellCommand of
                        Some c \<Rightarrow> trim c
                      | None \<Rightarrow> formatExecCommand argv)
      in case raw of
           Some r \<Rightarrow>
             if r \<noteq> inferred
             then ValidationError ''INVALID_REQUEST: rawCommand does not match command''
                    ''RAW_COMMAND_MISMATCH'' r inferred
             else ValidationOk (case shellCommand of Some c \<Rightarrow> Some r | None \<Rightarrow> None) r
         | None \<Rightarrow>
             ValidationOk shellCommand
               (case shellCommand of Some c \<Rightarrow> c | None \<Rightarrow> inferred))"

section \<open>Executable resolution and analysis results\<close>

record CommandResolution =
  rawExecutable :: string
  resolvedPath :: "string option"
  executableName :: string

text \<open>
  \<open>resolveExecutablePath\<close> consults the file system, the working directory and the
  \<open>PATH\<close> of the environment. For a fixed working directory, environment and file
  system it is a function from the raw executable to the path found, if any; the
  analysis takes that function as its first argument. \<open>path.basename\<close> is the POSIX
  one.
\<close>

type_synonym resolveExecutablePath = "string \<Rightarrow> string option"

definition resolveCommandResolutionFromArgv ::
  "resolveExecutablePath \<Rightarrow> string list \<Rightarrow> CommandResolution option" where
  "resolveCommandResolutionFromArgv resolvePath argv =
     (let effectiveArgv = unwrapDispatchWrappersForResolution argv MAX_DISPATCH_WRAPPER_DEPTH in
      case trimmedAt effectiveArgv 0 of
        None \<Rightarrow> None
      | Some rawExe \<Rightarrow>
          (let found = resolvePath rawExe;
               name = (case found of
                         Some p \<Rightarrow> if p \<noteq> [] then posix_basename p else rawExe
                       | None \<Rightarrow> rawExe)
           in Some \<lparr>rawExecutable = rawExe, resolvedPath = found, executableName = name\<rparr>))"

record ExecCommandSegment =
  raw :: string
  argv :: "string list"
  resolution :: "CommandResolution option"

record ExecCommandAnalysis =
  ok :: bool
  reason :: "string option"
  segments :: "ExecCommandSegment list"
  chains :: "ExecCommandSegment list list option"

definition analyzeArgvCommand :: "resolveExecutablePath \<Rightarrow> string list \<Rightarrow> ExecCommandAnalysis" where
  "analyzeArgvCommand resolvePath args =
     (let kept = filter (\<lambda>entry. length (trim entry) > 0) args in
      if length kept = 0
      then \<lparr>ok = False, reason = Some ''empty argv'', segments = [], chains = None\<rparr>
      else \<lparr>ok = True, reason = None,
            segments = [\<lparr>raw = join '' '' kept, argv = kept,
                         resolution = resolveCommandResolutionFromArgv resolvePath kept\<rparr>],
            chains = None\<rparr>)"

section \<open>Shell grammar segmenter\<close>

definition DISALLOWED_PIPELINE_TOKENS :: "char list" where
  "DISALLOWED_PIPELINE_TOKENS =
     [CHR ''>'', CHR ''<'', btick, nl, cr, CHR ''('', CHR '')'']"

definition DOUBLE_QUOTE_ESCAPES :: "char list" where
  "DOUBLE_QUOTE_ESCAPES = [bsl, dq, CHR ''$'', btick, nl, cr]"

definition WINDOWS_UNSUPPORTED_TOKENS :: "char list" where
  "WINDOWS_UNSUPPORTED_TOKENS =
     [CHR ''&'', CHR ''|'', CHR ''<'', CHR ''>'', CHR ''^'', CHR ''('', CHR '')'',
      CHR ''%'', CHR ''!'', nl, cr]"

text \<open>\<open>next\<close> is \<open>command[i + 1]\<close>: \<open>None\<close> past the end of the string.\<close>

definition isDoubleQuoteEscape :: "char option \<Rightarrow> bool" where
  "isDoubleQuoteEscape next =
     (case next of None \<Rightarrow> False | Some n \<Rightarrow> n \<in> set DOUBLE_QUOTE_ESCAPES)"

record HeredocSpec =
  delimiter :: string
  stripTabs :: bool
  quoted :: bool

text \<open>
  \<open>parseHeredocDelimiter\<close>, on the characters from \<open>start\<close> on. The result holds the
  delimiter, the number of characters read from \<open>start\<close> (so that \<open>end\<close> is \<open>start\<close>
  plus that number) and the \<open>quoted\<close> flag. The first function is the loop over a
  quoted delimiter, with the delimiter and the count read so far.
\<close>

fun quotedDelimiter :: "char \<Rightarrow> string \<Rightarrow> string \<Rightarrow> nat \<Rightarrow> (string \<times> nat) option" where
  "quotedDelimiter quote [] acc n = None"
| "quotedDelimiter quote (ch # rest) acc n =
     (if ch = nl \<or> ch = cr then None
      else if quote = dq \<and> ch = bsl \<and> rest \<noteq> [] then
        (case rest of
           [] \<Rightarrow> None
         | e # rest' \<Rightarrow> quotedDelimiter quote rest' (acc @ [e]) (n + 2))
      else if ch = quote then Some (acc, n + 1)
      else quotedDelimiter quote rest (acc @ [ch]) (n + 1))"

definition bareDelimiterStop :: "char \<Rightarrow> bool" where
  "bareDelimiterStop ch \<longleftrightarrow>
     is_space ch \<or> ch = CHR ''|'' \<or> ch = CHR ''&'' \<or> ch = CHR '';''
     \<or> ch = CHR ''<'' \<or> ch = CHR ''>''"

definition parseHeredocDelimiter :: "string \<Rightarrow> (string \<times> nat \<times> bool) option" where
  "parseHeredocDelimiter source =
     (let blanks = length (takeWhile (\<lambda>c. c = CHR '' '' \<or> c = tab) source) in
      case drop blanks source of
        [] \<Rightarrow> None
      | first # after \<Rightarrow>
          if first = sq \<or> first = dq then
            (case quotedDelimiter first after [] (blanks + 1) of
               None \<Rightarrow> None
             | Some (d, e) \<Rightarrow> Some (d, e, True))
          else
            (let d = takeWhile (\<lambda>ch. \<not> bareDelimiterStop ch) (first # after) in
             if d = [] then None else Some (d, blanks + length d, False)))"

text \<open>
  The local variables of \<open>splitShellPipeline\<close>. The list \<open>segments\<close> of the source is
  the field \<open>segmentsSoFar\<close> here, since the analysis result has a field \<open>segments\<close>
  of its own.
\<close>

record SplitState =
  segmentsSoFar :: "string list"
  buf :: string
  inSingle :: bool
  inDouble :: bool
  escaped :: bool
  emptySegment :: bool
  pendingHeredocs :: "HeredocSpec list"
  inHeredocBody :: bool
  heredocLine :: string

definition initialSplitState :: SplitState where
  "initialSplitState =
     \<lparr>segmentsSoFar = [], buf = [], inSingle = False, inDouble = False, escaped = False,
      emptySegment = False, pendingHeredocs = [], inHeredocBody = False, heredocLine = []\<rparr>"

definition pushPart :: "SplitState \<Rightarrow> SplitState" where
  "pushPart st =
     (let trimmed = trim (buf st) in
      (if trimmed \<noteq> [] then st\<lparr>segmentsSoFar := segmentsSoFar st @ [trimmed]\<rparr> else st)
        \<lparr>buf := []\<rparr>)"

definition isEscapedInHeredocLine :: "string \<Rightarrow> nat \<Rightarrow> bool" where
  "isEscapedInHeredocLine line index =
     odd (length (takeWhile (\<lambda>c. c = bsl) (rev (take index line))))"

definition hasUnquotedHeredocExpansionToken :: "string \<Rightarrow> bool" where
  "hasUnquotedHeredocExpansionToken line =
     list_ex (\<lambda>i.
        (line ! i = btick \<and> \<not> isEscapedInHeredocLine line i)
        \<or> (line ! i = CHR ''$'' \<and> \<not> isEscapedInHeredocLine line i
            \<and> i + 1 < length line
            \<and> (line ! (i + 1) = CHR ''('' \<or> line ! (i + 1) = CHR ''{'')))
       [0..<length line]"

text \<open>
  One iteration of the loop of \<open>splitShellPipeline\<close>, at character \<open>ch\<close> with the
  characters \<open>rest\<close> after it. An iteration either returns a rejection or goes on
  with a new state; the number says how many characters after \<open>ch\<close> the iteration
  has consumed itself (the source advances \<open>i\<close>).
\<close>

datatype StepResult = Reject string | Continue SplitState nat

definition crlfSkip :: "char \<Rightarrow> char option \<Rightarrow> nat" where
  "crlfSkip ch next = (if ch = cr \<and> next = Some nl then 1 else 0)"

definition heredocBodyStep :: "SplitState \<Rightarrow> char \<Rightarrow> char option \<Rightarrow> StepResult" where
  "heredocBodyStep st ch next =
     (if ch = nl \<or> ch = cr then
        (let endLine = (\<lambda>st'. Continue
               (st'\<lparr>heredocLine := [],
                    inHeredocBody := (if length (pendingHeredocs st') = 0 then False
                                      else inHeredocBody st')\<rparr>)
               (crlfSkip ch next))
         in case pendingHeredocs st of
              [] \<Rightarrow> endLine st
            | current # others \<Rightarrow>
                (let line = (if stripTabs current
                             then dropWhile (\<lambda>c. c = tab) (heredocLine st)
                             else heredocLine st)
                 in if line = delimiter current then endLine (st\<lparr>pendingHeredocs := others\<rparr>)
                    else if \<not> quoted current \<and> hasUnquotedHeredocExpansionToken (heredocLine st)
                    then Reject ''command substitution in unquoted heredoc''
                    else endLine st))
      else Continue (st\<lparr>heredocLine := heredocLine st @ [ch]\<rparr>) 0)"

definition doubleQuoteStep :: "SplitState \<Rightarrow> char \<Rightarrow> char option \<Rightarrow> StepResult" where
  "doubleQuoteStep st ch next =
     (if ch = bsl \<and> isDoubleQuoteEscape next then
        Continue (st\<lparr>buf := buf st @ [ch] @ (case next of Some n \<Rightarrow> [n] | None \<Rightarrow> []),
                    emptySegment := False\<rparr>) 1
      else if ch = CHR ''$'' \<and> next = Some CHR ''('' then Reject ''unsupported shell token: $()''
      else if ch = btick then Reject (''unsupported shell token: '' @ [btick])
      else if ch = nl \<or> ch = cr then Reject ''unsupported shell token: newline''
      else Continue (st\<lparr>inDouble := (if ch = dq then False else inDouble st),
                       buf := buf st @ [ch], emptySegment := False\<rparr>) 0)"

text \<open>The branch for \<open><<\<close>; \<open>after\<close> holds the characters that follow the operator.\<close>

definition heredocOperatorStep :: "SplitState \<Rightarrow> string \<Rightarrow> StepResult" where
  "heredocOperatorStep st after =
     (let strip = (case after of [] \<Rightarrow> False | c # _ \<Rightarrow> c = CHR ''-'');
          st1 = st\<lparr>buf := buf st @ ''<<'' @ (if strip then ''-'' else []),
                   emptySegment := False\<rparr>;
          source = (if strip then drop 1 after else after)
      in case parseHeredocDelimiter source of
           Some (d, e, q) \<Rightarrow>
             Continue
               (st1\<lparr>pendingHeredocs :=
                       pendingHeredocs st1 @ [\<lparr>delimiter = d, stripTabs = strip, quoted = q\<rparr>],
                     buf := buf st1 @ take e source\<rparr>)
               (1 + (if strip then 1 else 0) + e)
         | None \<Rightarrow> Continue st1 1)"

definition normalStep :: "SplitState \<Rightarrow> char \<Rightarrow> string \<Rightarrow> StepResult" where
  "normalStep st ch rest =
     (let next = (case rest of [] \<Rightarrow> None | n # _ \<Rightarrow> Some n) in
      if ch = sq then
        Continue (st\<lparr>inSingle := True, buf := buf st @ [ch], emptySegment := False\<rparr>) 0
      else if ch = dq then
        Continue (st\<lparr>inDouble := True, buf := buf st @ [ch], emptySegment := False\<rparr>) 0
      else if (ch = nl \<or> ch = cr) \<and> length (pendingHeredocs st) > 0 then
        Continue (st\<lparr>inHeredocBody := True, heredocLine := []\<rparr>) (crlfSkip ch next)
      else if ch = CHR ''|'' \<and> next = Some CHR ''|'' then Reject ''unsupported shell token: ||''
      else if ch = CHR ''|'' \<and> next = Some CHR ''&'' then Reject ''unsupported shell token: |&''
      else if ch = CHR ''|'' then Continue (pushPart (st\<lparr>emptySegment := True\<rparr>)) 0
      else if ch = CHR ''&'' \<or> ch = CHR '';'' then Reject (''unsupported shell token: '' @ [ch])
      else if ch = CHR ''<'' \<and> next = Some CHR ''<'' then heredocOperatorStep st (drop 1 rest)
      else if ch \<in> set DISALLOWED_PIPELINE_TOKENS then Reject (''unsupported shell token: '' @ [ch])
      else if ch = CHR ''$'' \<and> next = Some CHR ''('' then Reject ''unsupported shell token: $()''
      else Continue (st\<lparr>buf := buf st @ [ch], emptySegment := False\<rparr>) 0)"

definition splitStep :: "SplitState \<Rightarrow> char \<Rightarrow> string \<Rightarrow> StepResult" where
  "splitStep st ch rest =
     (let next = (case rest of [] \<Rightarrow> None | n # _ \<Rightarrow> Some n) in
      if inHeredocBody st then heredocBodyStep st ch next
      else if escaped st then
        Continue (st\<lparr>buf := buf st @ [ch], escaped := False, emptySegment := False\<rparr>) 0
      else if \<not> inSingle st \<and> \<not> inDouble st \<and> ch = bsl then
        Continue (st\<lparr>escaped := True, buf := buf st @ [ch], emptySegment := False\<rparr>) 0
      else if inSingle st then
        Continue (st\<lparr>inSingle := (if ch = sq then False else inSingle st),
                    buf := buf st @ [ch], emptySegment := False\<rparr>) 0
      else if inDouble st then doubleQuoteStep st ch next
      else normalStep st ch rest)"

fun splitLoop :: "SplitState \<Rightarrow> string \<Rightarrow> string + SplitState" where
  "splitLoop st [] = Inr st"
| "splitLoop st (ch # rest) =
     (case splitStep st ch rest of
        Reject r \<Rightarrow> Inl r
      | Continue st' k \<Rightarrow> splitLoop st' (drop k rest))"

text \<open>
  The result of \<open>splitShellPipeline\<close>, with fields \<open>ok\<close>, \<open>reason\<close> and \<open>segments\<close>;
  every rejecting \<open>return\<close> of the source gives a reason and no segments.
\<close>

record PipelineSplit =
  splitOk :: bool
  splitReason :: "string option"
  splitSegments :: "string list"

definition rejected :: "string \<Rightarrow> PipelineSplit" where
  "rejected r = \<lparr>splitOk = False, splitReason = Some r, splitSegments = []\<rparr>"

text \<open>The code after the loop of \<open>splitShellPipeline\<close>.\<close>

definition splitFinish :: "SplitState \<Rightarrow> PipelineSplit" where
  "splitFinish st =
     (let st1 =
        (if inHeredocBody st \<and> length (pendingHeredocs st) > 0 then
           (case pendingHeredocs st of
              [] \<Rightarrow> st
            | current # others \<Rightarrow>
                (let line = (if stripTabs current
                             then dropWhile (\<lambda>c. c = tab) (heredocLine st)
                             else heredocLine st)
                 in if line = delimiter current
                    then st\<lparr>pendingHeredocs := others,
                            inHeredocBody := (if length others = 0 then False
                                              else inHeredocBody st)\<rparr>
                    else st))
         else st)
      in if length (pendingHeredocs st1) > 0 \<or> inHeredocBody st1
         then rejected ''unterminated heredoc''
         else if escaped st1 \<or> inSingle st1 \<or> inDouble st1
         then rejected ''unterminated shell quote/escape''
         else (let st2 = pushPart st1 in
               if emptySegment st2 \<or> length (segmentsSoFar st2) = 0
               then rejected (if length (segmentsSoFar st2) = 0 then ''empty command''
                              else ''empty pipeline segment'')
               else \<lparr>splitOk = True, splitReason = None,
                     splitSegments = segmentsSoFar st2\<rparr>))"

definition splitShellPipeline :: "string \<Rightarrow> PipelineSplit" where
  "splitShellPipeline cmd =
     (case splitLoop initialSplitState cmd of
        Inl r \<Rightarrow> rejected r
      | Inr st \<Rightarrow> splitFinish st)"

subsection \<open>Chain splitting\<close>

datatype ShellChainOperator = AndAnd | OrOr | Semi

definition operatorText :: "ShellChainOperator \<Rightarrow> string" where
  "operatorText op = (case op of AndAnd \<Rightarrow> ''&&'' | OrOr \<Rightarrow> ''||'' | Semi \<Rightarrow> '';'')"

record ShellChainPart =
  part :: string
  opToNext :: "ShellChainOperator option"

text \<open>
  The local variables of \<open>splitCommandChainWithOperators\<close>: \<open>parts\<close>, \<open>buf\<close>,
  \<open>inSingle\<close>, \<open>inDouble\<close>, \<open>escaped\<close>, \<open>foundChain\<close> and \<open>invalidChain\<close>.
\<close>

record ChainState =
  chainParts :: "ShellChainPart list"
  chainBuf :: string
  chainInSingle :: bool
  chainInDouble :: bool
  chainEscaped :: bool
  foundChain :: bool
  invalidChain :: bool

definition initialChainState :: ChainState where
  "initialChainState =
     \<lparr>chainParts = [], chainBuf = [], chainInSingle = False, chainInDouble = False,
      chainEscaped = False, foundChain = False, invalidChain = False\<rparr>"

text \<open>
  The inner \<open>pushPart\<close> of \<open>splitCommandChainWithOperators\<close> together with what the
  three operator branches do with its result: an empty part marks the chain invalid.
\<close>

definition pushChainPart :: "ChainState \<Rightarrow> ShellChainOperator \<Rightarrow> ChainState" where
  "pushChainPart st op =
     (let trimmed = trim (chainBuf st) in
      (if trimmed = [] then st\<lparr>invalidChain := True\<rparr>
       else st\<lparr>chainParts := chainParts st @ [\<lparr>part = trimmed, opToNext = Some op\<rparr>]\<rparr>)
        \<lparr>chainBuf := [], foundChain := True\<rparr>)"

definition chainStep :: "ChainState \<Rightarrow> char \<Rightarrow> string \<Rightarrow> ChainState \<times> nat" where
  "chainStep st ch rest =
     (let next = (case rest of [] \<Rightarrow> None | n # _ \<Rightarrow> Some n) in
      if chainEscaped st then
        (st\<lparr>chainBuf := chainBuf st @ [ch], chainEscaped := False\<rparr>, 0)
      else if \<not> chainInSingle st \<and> \<not> chainInDouble st \<and> ch = bsl then
        (st\<lparr>chainEscaped := True, chainBuf := chainBuf st @ [ch]\<rparr>, 0)
      else if chainInSingle st then
        (st\<lparr>chainInSingle := (if ch = sq then False else chainInSingle st),
            chainBuf := chainBuf st @ [ch]\<rparr>, 0)
      else if chainInDouble st then
        (if ch = bsl \<and> isDoubleQuoteEscape next then
           (st\<lparr>chainBuf := chainBuf st @ [ch] @ (case next of Some n \<Rightarrow> [n] | None \<Rightarrow> [])\<rparr>, 1)
         else (st\<lparr>chainInDouble := (if ch = dq then False else chainInDouble st),
                  chainBuf := chainBuf st @ [ch]\<rparr>, 0))
      else if ch = sq then (st\<lparr>chainInSingle := True, chainBuf := chainBuf st @ [ch]\<rparr>, 0)
      else if ch = dq then (st\<lparr>chainInDouble := True, chainBuf := chainBuf st @ [ch]\<rparr>, 0)
      else if ch = CHR ''&'' \<and> next = Some CHR ''&'' then (pushChainPart st AndAnd, 1)
      else if ch = CHR ''|'' \<and> next = Some CHR ''|'' then (pushChainPart st OrOr, 1)
      else if ch = CHR '';'' then (pushChainPart st Semi, 0)
      else (st\<lparr>chainBuf := chainBuf st @ [ch]\<rparr>, 0))"

fun chainLoop :: "ChainState \<Rightarrow> string \<Rightarrow> ChainState" where
  "chainLoop st [] = st"
| "chainLoop st (ch # rest) =
     (case chainStep st ch rest of (st', k) \<Rightarrow> chainLoop st' (drop k rest))"

definition splitCommandChainWithOperators :: "string \<Rightarrow> ShellChainPart list option" where
  "splitCommandChainWithOperators cmd =
     (let st = chainLoop initialChainState cmd in
      if \<not> foundChain st then None
      else (let trimmed = trim (chainBuf st) in
            if trimmed = [] then None
            else (let ps = chainParts st @ [\<lparr>part = trimmed, opToNext = None\<rparr>] in
                  if invalidChain st \<or> length ps = 0 then None else Some ps)))"

definition splitCommandChain :: "string \<Rightarrow> string list option" where
  "splitCommandChain cmd = map_option (map part) (splitCommandChainWithOperators cmd)"

subsection \<open>Windows mode\<close>

definition findWindowsUnsupportedToken :: "string \<Rightarrow> string option" where
  "findWindowsUnsupportedToken cmd =
     (case find (\<lambda>ch. ch \<in> set WINDOWS_UNSUPPORTED_TOKENS) cmd of
        None \<Rightarrow> None
      | Some ch \<Rightarrow> if ch = nl \<or> ch = cr then Some ''newline'' else Some [ch])"

text \<open>The loop of \<open>tokenizeWindowsSegment\<close> over \<open>tokens\<close>, \<open>buf\<close> and \<open>inDouble\<close>.\<close>

fun tokenizeWindowsLoop :: "string list \<Rightarrow> string \<Rightarrow> bool \<Rightarrow> string \<Rightarrow> string list option" where
  "tokenizeWindowsLoop tokens b inD [] =
     (if inD then None
      else (let tokens' = (if length b > 0 then tokens @ [b] else tokens) in
            if length tokens' > 0 then Some tokens' else None))"
| "tokenizeWindowsLoop tokens b inD (ch # rest) =
     (if ch = dq then tokenizeWindowsLoop tokens b (\<not> inD) rest
      else if \<not> inD \<and> is_space ch then
        tokenizeWindowsLoop (if length b > 0 then tokens @ [b] else tokens) [] inD rest
      else tokenizeWindowsLoop tokens (b @ [ch]) inD rest)"

definition tokenizeWindowsSegment :: "string \<Rightarrow> string list option" where
  "tokenizeWindowsSegment segment = tokenizeWindowsLoop [] [] False segment"

definition isWindowsPlatform :: "string option \<Rightarrow> bool" where
  "isWindowsPlatform platform =
     startsWith (toLowerCase (trim (case platform of Some pl \<Rightarrow> pl | None \<Rightarrow> []))) ''win''"

definition analyzeWindowsShellCommand ::
  "resolveExecutablePath \<Rightarrow> string \<Rightarrow> ExecCommandAnalysis" where
  "analyzeWindowsShellCommand resolvePath cmd =
     (case findWindowsUnsupportedToken cmd of
        Some unsupported \<Rightarrow>
          \<lparr>ok = False, reason = Some (''unsupported windows shell token: '' @ unsupported),
           segments = [], chains = None\<rparr>
      | None \<Rightarrow>
          (case tokenizeWindowsSegment cmd of
             None \<Rightarrow>
               \<lparr>ok = False, reason = Some ''unable to parse windows command'',
                segments = [], chains = None\<rparr>
           | Some args \<Rightarrow>
               if length args = 0
               then \<lparr>ok = False, reason = Some ''unable to parse windows command'',
                     segments = [], chains = None\<rparr>
               else \<lparr>ok = True, reason = None,
                     segments = [\<lparr>raw = cmd, argv = args,
                                  resolution = resolveCommandResolutionFromArgv resolvePath args\<rparr>],
                     chains = None\<rparr>))"

subsection \<open>Analysis of a shell command\<close>

text \<open>
  \<open>splitShellArgs\<close> (\<open>utils/shell-argv.js\<close>) is not among the sources. The analysis
  takes it as an argument: a function from the raw text of a segment to its argv, or
  \<open>None\<close> for the \<open>null\<close> it returns on text it cannot split.
\<close>

type_synonym splitShellArgs = "string \<Rightarrow> string list option"

fun parseSegmentsFromParts ::
  "splitShellArgs \<Rightarrow> resolveExecutablePath \<Rightarrow> string list \<Rightarrow> ExecCommandSegment list option" where
  "parseSegmentsFromParts splitArgs resolvePath [] = Some []"
| "parseSegmentsFromParts splitArgs resolvePath (r # rs) =
     (case splitArgs r of
        None \<Rightarrow> None
      | Some args \<Rightarrow>
          if length args = 0 then None
          else (case parseSegmentsFromParts splitArgs resolvePath rs of
                  None \<Rightarrow> None
                | Some segs \<Rightarrow>
                    Some (\<lparr>raw = r, argv = args,
                           resolution = resolveCommandResolutionFromArgv resolvePath args\<rparr> # segs)))"

text \<open>
  The loop of \<open>analyzeShellCommand\<close> over the chain parts, with the \<open>chains\<close> and
  \<open>allSegments\<close> collected so far.
\<close>

fun analyzeChainParts ::
  "splitShellArgs \<Rightarrow> resolveExecutablePath \<Rightarrow> string list \<Rightarrow>
   ExecCommandSegment list list \<Rightarrow> ExecCommandSegment list \<Rightarrow> ExecCommandAnalysis" where
  "analyzeChainParts splitArgs resolvePath [] chainsAcc allSegments =
     \<lparr>ok = True, reason = None, segments = allSegments, chains = Some chainsAcc\<rparr>"
| "analyzeChainParts splitArgs resolvePath (p # ps) chainsAcc allSegments =
     (let pipelineSplit = splitShellPipeline p in
      if \<not> splitOk pipelineSplit
      then \<lparr>ok = False, reason = splitReason pipelineSplit, segments = [], chains = None\<rparr>
      else (case parseSegmentsFromParts splitArgs resolvePath (splitSegments pipelineSplit) of
              None \<Rightarrow>
                \<lparr>ok = False, reason = Some ''unable to parse shell segment'',
                 segments = [], chains = None\<rparr>
            | Some segs \<Rightarrow>
                analyzeChainParts splitArgs resolvePath ps (chainsAcc @ [segs])
                  (allSegments @ segs)))"

definition analyzeShellCommand ::
  "splitShellArgs \<Rightarrow> resolveExecutablePath \<Rightarrow> string \<Rightarrow> string option \<Rightarrow> ExecCommandAnalysis" where
  "analyzeShellCommand splitArgs resolvePath cmd platform =
     (if isWindowsPlatform platform then analyzeWindowsShellCommand resolvePath cmd
      else case splitCommandChain cmd of
        Some ps \<Rightarrow> analyzeChainParts splitArgs resolvePath ps [] []
      | None \<Rightarrow>
          (let split = splitShellPipeline cmd in
           if \<not> splitOk split
           then \<lparr>ok = False, reason = splitReason split, segments = [], chains = None\<rparr>
           else (case parseSegmentsFromParts splitArgs resolvePath (splitSegments split) of
                   None \<Rightarrow>
                     \<lparr>ok = False, reason = Some ''unable to parse shell segment'',
                      segments = [], chains = None\<rparr>
                 | Some segs \<Rightarrow>
                     \<lparr>ok = True, reason = None, segments = segs, chains = None\<rparr>)))"

subsection \<open>A splitter for the examples\<close>

text \<open>
  Modelled from the spec: \<open>splitShellArgs\<close> of \<open>utils/shell-argv.js\<close>, which is not
  among the sources. The spec says only that every pipeline segment is argv-tokenized
  and that a segment that cannot be split fails the analysis. This splitter cuts at
  whitespace outside quotes, removes the quote characters and the backslash of an
  escape, and fails on an unterminated quote or escape. It is used for the concrete
  examples only; the general statements hold for every splitter.
\<close>

fun shellWordsLoop :: "string list \<Rightarrow> string \<Rightarrow> bool \<Rightarrow> bool \<Rightarrow> bool \<Rightarrow> string \<Rightarrow> string list option" where
  "shellWordsLoop tokens b inS inD esc [] =
     (if esc \<or> inS \<or> inD then None
      else Some (if length b > 0 then tokens @ [b] else tokens))"
| "shellWordsLoop tokens b inS inD esc (ch # rest) =
     (if esc then shellWordsLoop tokens (b @ [ch]) inS inD False rest
      else if \<not> inS \<and> \<not> inD \<and> ch = bsl then shellWordsLoop tokens b inS inD True rest
      else if inS then
        (if ch = sq then shellWordsLoop tokens b False inD esc rest
         else shellWordsLoop tokens (b @ [ch]) inS inD esc rest)
      else if inD then
        (if ch = dq then shellWordsLoop tokens b inS False esc rest
         else shellWordsLoop tokens (b @ [ch]) inS inD esc rest)
      else if ch = sq then shellWordsLoop tokens b True inD esc rest
      else if ch = dq then shellWordsLoop tokens b inS True esc rest
      else if is_space ch then
        shellWordsLoop (if length b > 0 then tokens @ [b] else tokens) [] inS inD esc rest
      else shellWordsLoop tokens (b @ [ch]) inS inD esc rest)"

definition shellWords :: splitShellArgs where
  "shellWords r = shellWordsLoop [] [] False False False r"

section \<open>Safe-command rewriting\<close>

definition shellEscapeSingleArg :: "string \<Rightarrow> string" where
  "shellEscapeSingleArg v =
     [sq] @ concat (map (\<lambda>c. if c = sq then [sq, dq, sq, dq, sq] else [c]) v) @ [sq]"

definition renderQuotedArgv :: "string list \<Rightarrow> string" where
  "renderQuotedArgv args = join '' '' (map shellEscapeSingleArg args)"

datatype SatisfiedBy = Allowlist | SafeBins | Skills

text \<open>The result of the builders, with fields \<open>ok\<close>, \<open>command\<close> and \<open>reason\<close>.\<close>

record SafeCommandResult =
  builtOk :: bool
  builtCommand :: "string option"
  builtReason :: "string option"

definition refused :: "string \<Rightarrow> SafeCommandResult" where
  "refused r = \<lparr>builtOk = False, builtCommand = None, builtReason = Some r\<rparr>"

text \<open>
  The inner loop of \<open>buildSafeBinsShellCommand\<close> over the raw segments of one
  pipeline, from \<open>segIndex\<close> on. An entry of \<open>segmentSatisfiedBy\<close> is \<open>None\<close> for
  \<open>null\<close>; an index past the end of either array is the source's \<open>undefined\<close> and
  gives \<open>None\<close> here (\<open>segment mapping failed\<close>). The result is \<open>rendered\<close> and the
  new \<open>segIndex\<close>.
\<close>

fun renderPipelineSegments ::
  "ExecCommandSegment list \<Rightarrow> SatisfiedBy option list \<Rightarrow> nat \<Rightarrow> string list \<Rightarrow>
   (string list \<times> nat) option" where
  "renderPipelineSegments segs satisfiedBy segIndex [] = Some ([], segIndex)"
| "renderPipelineSegments segs satisfiedBy segIndex (r # rs) =
     (if \<not> segIndex < length segs \<or> \<not> segIndex < length satisfiedBy then None
      else (let needsLiteral = (satisfiedBy ! segIndex = Some SafeBins);
                piece = (if needsLiteral then renderQuotedArgv (argv (segs ! segIndex))
                         else trim r)
            in case renderPipelineSegments segs satisfiedBy (segIndex + 1) rs of
                 None \<Rightarrow> None
               | Some (rendered, k) \<Rightarrow> Some (piece # rendered, k)))"

definition operatorSuffix :: "ShellChainPart \<Rightarrow> string" where
  "operatorSuffix p =
     (case opToNext p of Some op \<Rightarrow> '' '' @ operatorText op @ '' '' | None \<Rightarrow> [])"

text \<open>The outer loop over the chain parts, with \<open>segIndex\<close> and \<open>out\<close>, and the code after it.\<close>

fun buildChainParts ::
  "ExecCommandSegment list \<Rightarrow> SatisfiedBy option list \<Rightarrow> ShellChainPart list \<Rightarrow> nat \<Rightarrow>
   string \<Rightarrow> SafeCommandResult" where
  "buildChainParts segs satisfiedBy [] segIndex out =
     (if segIndex \<noteq> length segs then refused ''segment count mismatch''
      else \<lparr>builtOk = True, builtCommand = Some out, builtReason = None\<rparr>)"
| "buildChainParts segs satisfiedBy (p # ps) segIndex out =
     (let pipelineSplit = splitShellPipeline (part p) in
      if \<not> splitOk pipelineSplit then
        refused (case splitReason pipelineSplit of
                   Some r \<Rightarrow> r
                 | None \<Rightarrow> ''unable to parse pipeline'')
      else (case renderPipelineSegments segs satisfiedBy segIndex (splitSegments pipelineSplit) of
              None \<Rightarrow> refused ''segment mapping failed''
            | Some (rendered, k) \<Rightarrow>
                buildChainParts segs satisfiedBy ps k
                  (out @ join '' | '' rendered @ operatorSuffix p)))"

definition commandChainParts :: "string \<Rightarrow> ShellChainPart list" where
  "commandChainParts cmd =
     (case splitCommandChainWithOperators (trim cmd) of
        Some ps \<Rightarrow> ps
      | None \<Rightarrow> [\<lparr>part = trim cmd, opToNext = None\<rparr>])"

definition buildSafeBinsShellCommand ::
  "string \<Rightarrow> ExecCommandSegment list \<Rightarrow> SatisfiedBy option list \<Rightarrow> string option \<Rightarrow>
   SafeCommandResult" where
  "buildSafeBinsShellCommand cmd segs satisfiedBy platform =
     (if isWindowsPlatform platform then refused ''unsupported platform''
      else if length segs \<noteq> length satisfiedBy then refused ''segment metadata mismatch''
      else buildChainParts segs satisfiedBy (commandChainParts cmd) 0 [])"

section \<open>Notions used in the statements\<close>

text \<open>
  The inline command of a POSIX shell invocation as the specification words it: the
  argument that follows the first \<open>-c\<close>, \<open>-lc\<close> or \<open>--command\<close> among the arguments
  of the shell, wherever that flag stands.
\<close>

fun argumentFollowing :: "string list \<Rightarrow> string list \<Rightarrow> string option" where
  "argumentFollowing flags (t # v # ts) =
     (if t \<in> set flags then Some v else argumentFollowing flags (v # ts))"
| "argumentFollowing flags _ = None"

definition inlineCommandPerSpec :: "string list \<Rightarrow> string option" where
  "inlineCommandPerSpec args = argumentFollowing [''-c'', ''-lc'', ''--command''] (drop 1 args)"

text \<open>
  The canonical re-quoting of an argv, written on lists. Every entry is trimmed; a
  blank entry becomes \<open>""\<close>; an entry with white space or a double quote is put
  between double quotes, each double quote inside it preceded by a backslash; any
  other entry stands as it is. The entries are joined by single spaces.
\<close>

fun escapeDoubleQuotes :: "string \<Rightarrow> string" where
  "escapeDoubleQuotes [] = []"
| "escapeDoubleQuotes (c # cs) = (if c = dq then [bsl, dq] else [c]) @ escapeDoubleQuotes cs"

definition requotedArg :: "string \<Rightarrow> string" where
  "requotedArg a =
     (if trim a = [] then [dq, dq]
      else if list_ex (\<lambda>c. is_space c \<or> c = dq) (trim a)
      then [dq] @ escapeDoubleQuotes (trim a) @ [dq]
      else trim a)"

fun requotedArgv :: "string list \<Rightarrow> string" where
  "requotedArgv [] = []"
| "requotedArgv [a] = requotedArg a"
| "requotedArgv (a # b # bs) = requotedArg a @ '' '' @ requotedArgv (b # bs)"

text \<open>
  The executable names the wrapper detection reacts to: \<open>env\<close> and the shells of the
  three wrapper families.
\<close>

definition wrapperNames :: "string list" where
  "wrapperNames =
     [''env'', ''sh'', ''bash'', ''zsh'', ''dash'', ''ksh'', ''ash'', ''fish'', ''cmd'', ''cmd.exe'',
      ''powershell'', ''powershell.exe'', ''pwsh'', ''pwsh.exe'']"

text \<open>The answer to a raw command that does not match.\<close>

abbreviation (input) mismatch :: "string \<Rightarrow> string \<Rightarrow> SystemRunCommandValidation" where
  "mismatch r inferred \<equiv>
     ValidationError ''INVALID_REQUEST: rawCommand does not match command''
       ''RAW_COMMAND_MISMATCH'' r inferred"

text \<open>
  The first token of an inner command: not blank, not an option and not an
  assignment.
\<close>

definition commandToken :: "string \<Rightarrow> bool" where
  "commandToken c \<longleftrightarrow> trim c \<noteq> [] \<and> \<not> startsWith (trim c) ''-'' \<and> \<not> isEnvAssignment (trim c)"

text \<open>
  The arguments of one \<open>env\<close> invocation before its inner command: blank tokens,
  \<open>VAR=value\<close> assignments, flags without a value, options with the value attached
  by \<open>=\<close> or given in the next non-blank token, and the short options \<open>-u\<close>,
  \<open>-C\<close> and \<open>-S\<close> with the value attached directly (\<open>-uFOO\<close>). An \<open>env\<close> prefix
  is such a run followed by a command token, or such a run closed by the terminator
  \<open>--\<close> or \<open>-\<close>.
\<close>

fun envArguments :: "string list \<Rightarrow> bool"
  and envValueThenArguments :: "string list \<Rightarrow> bool" where
  "envArguments [] = True"
| "envArguments (t # ts) =
     (let token = trim t;
          lower = toLowerCase token;
          flag = takeWhile (\<lambda>c. c \<noteq> CHR ''='') lower
      in if token = [] then envArguments ts
         else if isEnvAssignment token then envArguments ts
         else if flag \<in> set ENV_FLAG_OPTIONS then envArguments ts
         else if flag \<in> set ENV_OPTIONS_WITH_VALUE then
           (if CHR ''='' \<in> set lower then envArguments ts else envValueThenArguments ts)
         else if startsWith lower ''-u'' \<or> startsWith lower ''-c'' \<or> startsWith lower ''-s''
         then envArguments ts
         else False)"
| "envValueThenArguments [] = False"
| "envValueThenArguments (v # ts) =
     (if trim v = [] then envValueThenArguments ts else envArguments ts)"

definition envPrefix :: "string list \<Rightarrow> string \<Rightarrow> bool" where
  "envPrefix pre c \<longleftrightarrow>
     (envArguments pre \<and> commandToken c)
     \<or> (pre \<noteq> [] \<and> envArguments (butlast pre) \<and> trim (last pre) \<in> set [''--'', ''-''])"

text \<open>
  A nest of \<open>env\<close> invocations around an inner argv: each layer is the token that
  names \<open>env\<close> and its arguments. The nest is well formed when every layer names
  \<open>env\<close>, its arguments are an \<open>env\<close> prefix for the token that follows, and the
  command \<open>c\<close> in the middle is not blank and is not \<open>env\<close> again.
\<close>

fun envWrap :: "(string \<times> string list) list \<Rightarrow> string list \<Rightarrow> string list" where
  "envWrap [] inner = inner"
| "envWrap ((e, pre) # layers) inner = e # pre @ envWrap layers inner"

fun envNest :: "(string \<times> string list) list \<Rightarrow> string \<Rightarrow> bool" where
  "envNest [] c \<longleftrightarrow> trim c \<noteq> [] \<and> basenameLower (trim c) \<noteq> ''env''"
| "envNest ((e, pre) # layers) c \<longleftrightarrow>
     basenameLower (trim e) = ''env''
     \<and> envPrefix pre (case layers of [] \<Rightarrow> c | (e', _) # _ \<Rightarrow> e')
     \<and> envNest layers c"

text \<open>A file system in which \<open>rg\<close> and \<open>env\<close> are found in \<open>/usr/bin\<close> and nothing else is.\<close>

definition usrBin :: resolveExecutablePath where
  "usrBin exe =
     (if exe = ''rg'' then Some ''/usr/bin/rg''
      else if exe = ''env'' then Some ''/usr/bin/env''
      else None)"

text \<open>
  Characters that mean nothing to the segmenter outside quotes, and the state of the
  segmenter outside quotes, escapes and heredoc bodies.
\<close>

definition plainChar :: "char \<Rightarrow> bool" where
  "plainChar c \<longleftrightarrow>
     c \<notin> set [bsl, sq, dq, nl, cr, CHR ''|'', CHR ''&'', CHR '';'', CHR ''<'', CHR ''>'',
                btick, CHR ''('', CHR '')'', CHR ''$'']"

definition normalState :: "SplitState \<Rightarrow> bool" where
  "normalState st \<longleftrightarrow> \<not> inHeredocBody st \<and> \<not> escaped st \<and> \<not> inSingle st \<and> \<not> inDouble st"

text \<open>A character that may occur in a heredoc delimiter written bare or in quotes.\<close>

definition delimiterChar :: "char \<Rightarrow> bool" where
  "delimiterChar c \<longleftrightarrow> \<not> bareDelimiterStop c \<and> c \<noteq> sq \<and> c \<noteq> dq \<and> c \<noteq> bsl"

definition heredocBody :: "string list \<Rightarrow> string" where
  "heredocBody ls = concat (map (\<lambda>l. l @ [nl]) ls)"

text \<open>The line that is compared with the delimiter: for \<open><<-\<close> without its leading tabs.\<close>

definition tabStripped :: "HeredocSpec \<Rightarrow> string \<Rightarrow> string" where
  "tabStripped cur line = (if stripTabs cur then dropWhile (\<lambda>c. c = tab) line else line)"

text \<open>
  A line contains an unescaped backtick, \<open>$(\<close> or \<open>${\<close>: the character is preceded
  by an even number of backslashes.
\<close>

definition unescapedAt :: "string \<Rightarrow> nat \<Rightarrow> bool" where
  "unescapedAt line i \<longleftrightarrow> even (length (takeWhile (\<lambda>c. c = bsl) (rev (take i line))))"

definition containsUnescapedExpansion :: "string \<Rightarrow> bool" where
  "containsUnescapedExpansion line \<longleftrightarrow>
     (\<exists>i < length line. unescapedAt line i \<and>
        (line ! i = btick
         \<or> (line ! i = CHR ''$'' \<and> Suc i < length line
             \<and> (line ! Suc i = CHR ''('' \<or> line ! Suc i = CHR ''{''))))"

text \<open>
  An unescaped backtick or \<open>$(\<close> outside single quotes, by the quoting rules alone.
  Outside quotes a backslash protects the next character; inside single quotes
  everything is literal; inside double quotes a backslash protects one of the
  double-quote escapes. An unprotected backtick or \<open>$(\<close> outside single quotes is
  exposed. Heredocs play no part in this reading.
\<close>

datatype QuoteMode = Unquoted | SingleQuoted | DoubleQuoted

fun exposedSubstitution :: "QuoteMode \<Rightarrow> string \<Rightarrow> bool" where
  "exposedSubstitution m [] = False"
| "exposedSubstitution SingleQuoted (c # cs) =
     exposedSubstitution (if c = sq then Unquoted else SingleQuoted) cs"
| "exposedSubstitution Unquoted (c # cs) =
     (if c = bsl then exposedSubstitution Unquoted (drop 1 cs)
      else if c = btick \<or> (c = CHR ''$'' \<and> take 1 cs = ''('') then True
      else exposedSubstitution
             (if c = sq then SingleQuoted else if c = dq then DoubleQuoted else Unquoted) cs)"
| "exposedSubstitution DoubleQuoted (c # cs) =
     (if c = bsl \<and> cs \<noteq> [] \<and> hd cs \<in> set DOUBLE_QUOTE_ESCAPES
      then exposedSubstitution DoubleQuoted (drop 1 cs)
      else if c = btick \<or> (c = CHR ''$'' \<and> take 1 cs = ''('') then True
      else exposedSubstitution (if c = dq then Unquoted else DoubleQuoted) cs)"

text \<open>
  The same scan, stopped at the first heredoc operator \<open><<\<close> outside quotes: the
  substitution stands before any heredoc of the command.
\<close>

fun exposedBeforeHeredoc :: "QuoteMode \<Rightarrow> string \<Rightarrow> bool" where
  "exposedBeforeHeredoc m [] = False"
| "exposedBeforeHeredoc SingleQuoted (c # cs) =
     exposedBeforeHeredoc (if c = sq then Unquoted else SingleQuoted) cs"
| "exposedBeforeHeredoc DoubleQuoted (c # cs) =
     (if c = bsl \<and> cs \<noteq> [] \<and> hd cs \<in> set DOUBLE_QUOTE_ESCAPES
      then exposedBeforeHeredoc DoubleQuoted (drop 1 cs)
      else if c = btick \<or> (c = CHR ''$'' \<and> take 1 cs = ''('') then True
      else exposedBeforeHeredoc (if c = dq then Unquoted else DoubleQuoted) cs)"
| "exposedBeforeHeredoc Unquoted (c # cs) =
     (if c = bsl then exposedBeforeHeredoc Unquoted (drop 1 cs)
      else if c = btick \<or> (c = CHR ''$'' \<and> take 1 cs = ''('') then True
      else if c = CHR ''<'' \<and> take 1 cs = ''<'' then False
      else exposedBeforeHeredoc
             (if c = sq then SingleQuoted else if c = dq then DoubleQuoted else Unquoted) cs)"

text \<open>
  The word after a heredoc operator, as a shell reads it: blanks and tabs are
  skipped; a word that opens with a quote runs to the matching quote on the same
  line (inside double quotes a backslash takes the next character) and makes the
  heredoc quoted; a bare word runs up to white space or one of \<open>|&;<>\<close>. The
  result is the delimiter, the number of characters read and whether it was quoted.
\<close>

fun quotedWord :: "char \<Rightarrow> string \<Rightarrow> (string \<times> nat) option" where
  "quotedWord q [] = None"
| "quotedWord q (c # cs) =
     (if c = nl \<or> c = cr then None
      else if c = q then Some ([], 1)
      else if q = dq \<and> c = bsl then
        (case cs of
           [] \<Rightarrow> None
         | e # cs' \<Rightarrow>
             (case quotedWord q cs' of None \<Rightarrow> None | Some (d, n) \<Rightarrow> Some (e # d, n + 2)))
      else (case quotedWord q cs of None \<Rightarrow> None | Some (d, n) \<Rightarrow> Some (c # d, n + 1)))"

definition wordEnd :: "char \<Rightarrow> bool" where
  "wordEnd c \<longleftrightarrow> is_space c \<or> c \<in> set ''|&;<>''"

definition heredocWord :: "string \<Rightarrow> (string \<times> nat \<times> bool) option" where
  "heredocWord s =
     (let k = length (takeWhile (\<lambda>c. c = CHR '' '' \<or> c = tab) s) in
      case drop k s of
        [] \<Rightarrow> None
      | c # cs \<Rightarrow>
          if c = sq \<or> c = dq then
            (case quotedWord c cs of None \<Rightarrow> None | Some (d, n) \<Rightarrow> Some (d, k + 1 + n, True))
          else (let d = takeWhile (\<lambda>x. \<not> wordEnd x) (c # cs) in
                if d = [] then None else Some (d, k + length d, False)))"

text \<open>
  A substitution that is live when heredocs are taken into account. The text is
  scanned with the quoting rules; a heredoc operator outside quotes registers its
  delimiter; after the next line break, lines are body lines until each pending
  delimiter has been met in turn. A body line is the line collected so far
  (\<open>Some line\<close>). The body of a heredoc with a quoted delimiter is literal; in the
  body of one with an unquoted delimiter an unescaped backtick or \<open>$(\<close> is live,
  as it is outside single quotes in the command text.
\<close>

definition substitutionInLine :: "string \<Rightarrow> bool" where
  "substitutionInLine line \<longleftrightarrow>
     (\<exists>i \<in> set [0..<length line]. unescapedAt line i \<and>
        (line ! i = btick
         \<or> (line ! i = CHR ''$'' \<and> Suc i < length line \<and> line ! Suc i = CHR ''('')))"

fun liveSubstitution :: "QuoteMode \<Rightarrow> HeredocSpec list \<Rightarrow> string option \<Rightarrow> string \<Rightarrow> bool" where
  "liveSubstitution m pend body [] = False"
| "liveSubstitution m pend (Some line) (c # cs) =
     (if c = nl \<or> c = cr then
        (case pend of
           [] \<Rightarrow> liveSubstitution m pend None (if c = cr \<and> take 1 cs = [nl] then drop 1 cs else cs)
         | cur # others \<Rightarrow>
             if tabStripped cur line = delimiter cur then
               liveSubstitution m others (if others = [] then None else Some [])
                 (if c = cr \<and> take 1 cs = [nl] then drop 1 cs else cs)
             else if \<not> quoted cur \<and> substitutionInLine line then True
             else liveSubstitution m pend (Some [])
                    (if c = cr \<and> take 1 cs = [nl] then drop 1 cs else cs))
      else liveSubstitution m pend (Some (line @ [c])) cs)"
| "liveSubstitution SingleQuoted pend None (c # cs) =
     liveSubstitution (if c = sq then Unquoted else SingleQuoted) pend None cs"
| "liveSubstitution DoubleQuoted pend None (c # cs) =
     (if c = bsl \<and> cs \<noteq> [] \<and> hd cs \<in> set DOUBLE_QUOTE_ESCAPES
      then liveSubstitution DoubleQuoted pend None (drop 1 cs)
      else if c = btick \<or> (c = CHR ''$'' \<and> take 1 cs = ''('') then True
      else liveSubstitution (if c = dq then Unquoted else DoubleQuoted) pend None cs)"
| "liveSubstitution Unquoted pend None (c # cs) =
     (if c = bsl then liveSubstitution Unquoted pend None (drop 1 cs)
      else if c = btick \<or> (c = CHR ''$'' \<and> take 1 cs = ''('') then True
      else if (c = nl \<or> c = cr) \<and> pend \<noteq> [] then
        liveSubstitution Unquoted pend (Some [])
          (if c = cr \<and> take 1 cs = [nl] then drop 1 cs else cs)
      else if c = CHR ''<'' \<and> take 1 cs = ''<'' then
        (let strip = (take 1 (drop 1 cs) = ''-'');
             word = drop (if strip then 2 else 1) cs
         in case heredocWord word of
              Some (d, n, q) \<Rightarrow>
                liveSubstitution Unquoted
                  (pend @ [\<lparr>delimiter = d, stripTabs = strip, quoted = q\<rparr>]) None (drop n word)
            | None \<Rightarrow> liveSubstitution Unquoted pend None (drop 1 cs))
      else liveSubstitution
             (if c = sq then SingleQuoted else if c = dq then DoubleQuoted else Unquoted)
             pend None cs)"

text \<open>One of the chain operators \<open>;\<close>, \<open>&&\<close> and \<open>||\<close> stands outside quotes.\<close>

fun chainOperatorExposed :: "QuoteMode \<Rightarrow> string \<Rightarrow> bool" where
  "chainOperatorExposed m [] = False"
| "chainOperatorExposed SingleQuoted (c # cs) =
     chainOperatorExposed (if c = sq then Unquoted else SingleQuoted) cs"
| "chainOperatorExposed DoubleQuoted (c # cs) =
     (if c = bsl \<and> cs \<noteq> [] \<and> hd cs \<in> set DOUBLE_QUOTE_ESCAPES
      then chainOperatorExposed DoubleQuoted (drop 1 cs)
      else chainOperatorExposed (if c = dq then Unquoted else DoubleQuoted) cs)"
| "chainOperatorExposed Unquoted (c # cs) =
     (if c = bsl then chainOperatorExposed Unquoted (drop 1 cs)
      else if c = CHR '';'' \<or> (c = CHR ''&'' \<and> take 1 cs = ''&'')
              \<or> (c = CHR ''|'' \<and> take 1 cs = ''|'') then True
      else chainOperatorExposed
             (if c = sq then SingleQuoted else if c = dq then DoubleQuoted else Unquoted) cs)"

text \<open>
  The texts that are segmented one by one: the parts the chain splitter returns, or
  the whole command when it finds no chain operator.
\<close>

definition chainPartTexts :: "string \<Rightarrow> string list" where
  "chainPartTexts cmd = (case splitCommandChain cmd of None \<Rightarrow> [cmd] | Some ps \<Rightarrow> ps)"

text \<open>
  The quoting mode a state of the segmenter, or of the chain splitter, is in when it
  is neither inside a heredoc nor right after a backslash; and the state of the
  segmenter that corresponds to a position of the heredoc-aware scan.
\<close>

definition splitMode :: "SplitState \<Rightarrow> QuoteMode \<Rightarrow> bool" where
  "splitMode st m \<longleftrightarrow>
     \<not> inHeredocBody st \<and> \<not> escaped st \<and> pendingHeredocs st = []
     \<and> (inSingle st \<longleftrightarrow> m = SingleQuoted)
     \<and> (inDouble st \<longleftrightarrow> m = DoubleQuoted)"

definition chainMode :: "ChainState \<Rightarrow> QuoteMode \<Rightarrow> bool" where
  "chainMode st m \<longleftrightarrow>
     \<not> chainEscaped st
     \<and> (chainInSingle st \<longleftrightarrow> m = SingleQuoted)
     \<and> (chainInDouble st \<longleftrightarrow> m = DoubleQuoted)"

definition liveState :: "SplitState \<Rightarrow> QuoteMode \<Rightarrow> HeredocSpec list \<Rightarrow> string option \<Rightarrow> bool" where
  "liveState st m pend body \<longleftrightarrow>
     \<not> escaped st \<and> pendingHeredocs st = pend
     \<and> (case body of
          None \<Rightarrow> \<not> inHeredocBody st \<and> (inSingle st \<longleftrightarrow> m = SingleQuoted)
                   \<and> (inDouble st \<longleftrightarrow> m = DoubleQuoted)
        | Some line \<Rightarrow> inHeredocBody st \<and> heredocLine st = line \<and> \<not> inSingle st
                       \<and> \<not> inDouble st \<and> m = Unquoted)"

text \<open>
  The quoting automaton as a left fold, with the two states in which a backslash
  has just been read.
\<close>

datatype LexState = LexPlain | LexSingle | LexDouble | LexEscape | LexDoubleEscape

fun lexStep :: "LexState \<Rightarrow> char \<Rightarrow> LexState" where
  "lexStep LexPlain c =
     (if c = bsl then LexEscape else if c = sq then LexSingle
      else if c = dq then LexDouble else LexPlain)"
| "lexStep LexSingle c = (if c = sq then LexPlain else LexSingle)"
| "lexStep LexDouble c =
     (if c = bsl then LexDoubleEscape else if c = dq then LexPlain else LexDouble)"
| "lexStep LexEscape c = LexPlain"
| "lexStep LexDoubleEscape c = LexDouble"

definition lexRun :: "LexState \<Rightarrow> string \<Rightarrow> LexState" where
  "lexRun s cs = foldl lexStep s cs"

fun lexOf :: "QuoteMode \<Rightarrow> LexState" where
  "lexOf Unquoted = LexPlain"
| "lexOf SingleQuoted = LexSingle"
| "lexOf DoubleQuoted = LexDouble"

text \<open>
  What the chain splitter keeps true while it reads a command with a substitution
  exposed before any heredoc, and what its final state then carries: the
  substitution ends up in one of the parts or in the last buffer.
\<close>

definition chainExposure :: "ChainState \<Rightarrow> QuoteMode \<Rightarrow> string \<Rightarrow> bool" where
  "chainExposure st m rest \<longleftrightarrow>
     chainMode st m \<and> lexRun LexPlain (chainBuf st) = lexOf m
     \<and> ((\<exists>p \<in> set (chainParts st). exposedBeforeHeredoc Unquoted (part p))
         \<or> exposedBeforeHeredoc Unquoted (chainBuf st @ rest))"

definition chainExposed :: "ChainState \<Rightarrow> bool" where
  "chainExposed st \<longleftrightarrow>
     (\<exists>p \<in> set (chainParts st). exposedBeforeHeredoc Unquoted (part p))
     \<or> exposedBeforeHeredoc Unquoted (chainBuf st)"

text \<open>
  Commands whose quoting is inert: a pipeline of stages, each stage a sequence of
  pieces, each piece an ordinary character, a single-quoted text, a
  backslash-escaped character or a double-quoted text made of ordinary characters
  and recognized escapes. Single-quoted text and escaped characters may hold
  anything, substitution syntax included.
\<close>

datatype DqItem = DqChar char | DqEscape char

datatype InertPiece =
    Plain char
  | SingleQuotedText string
  | EscapedChar char
  | DoubleQuotedText "DqItem list"

fun renderDq :: "DqItem \<Rightarrow> string" where
  "renderDq (DqChar c) = [c]"
| "renderDq (DqEscape c) = [bsl, c]"

fun renderPiece :: "InertPiece \<Rightarrow> string" where
  "renderPiece (Plain c) = [c]"
| "renderPiece (SingleQuotedText t) = sq # t @ [sq]"
| "renderPiece (EscapedChar c) = [bsl, c]"
| "renderPiece (DoubleQuotedText items) = dq # concat (map renderDq items) @ [dq]"

definition renderStage :: "InertPiece list \<Rightarrow> string" where
  "renderStage ps = concat (map renderPiece ps)"

definition renderPipeline :: "InertPiece list list \<Rightarrow> string" where
  "renderPipeline stages = join ''|'' (map renderStage stages)"

fun wellFormedDq :: "DqItem \<Rightarrow> bool" where
  "wellFormedDq (DqChar c) \<longleftrightarrow> c \<notin> set [bsl, dq, btick, nl, cr, CHR ''$'']"
| "wellFormedDq (DqEscape c) \<longleftrightarrow> c \<in> set DOUBLE_QUOTE_ESCAPES"

fun wellFormedPiece :: "InertPiece \<Rightarrow> bool" where
  "wellFormedPiece (Plain c) \<longleftrightarrow> plainChar c \<or> c = CHR ''$''"
| "wellFormedPiece (SingleQuotedText t) \<longleftrightarrow> sq \<notin> set t"
| "wellFormedPiece (EscapedChar c) \<longleftrightarrow> True"
| "wellFormedPiece (DoubleQuotedText items) \<longleftrightarrow> list_all wellFormedDq items"

definition inertStage :: "InertPiece list \<Rightarrow> bool" where
  "inertStage ps \<longleftrightarrow> list_all wellFormedPiece ps \<and> trim (renderStage ps) \<noteq> []"

text \<open>The raw texts of the stages of a pipeline, as the segmenter returns them.\<close>

type_synonym InertPipeline = "InertPiece list list"

definition stageTexts :: "InertPipeline \<Rightarrow> string list" where
  "stageTexts p = map (\<lambda>s. trim (renderStage s)) p"

text \<open>
  A chain of inert pipelines: a first pipeline and a list of links, each link the
  text before the operator, the operator, the text after it and the next pipeline.
  In a tight chain the texts around the operators are blank and no pipeline begins
  or ends with white space, so that the trimmed parts of the chain are the
  pipelines themselves.
\<close>

type_synonym ChainLink = "string \<times> ShellChainOperator \<times> string \<times> InertPipeline"

fun renderLinks :: "ChainLink list \<Rightarrow> string" where
  "renderLinks [] = []"
| "renderLinks ((before, op, after, p) # links) =
     before @ operatorText op @ after @ renderPipeline p @ renderLinks links"

definition renderInertChain :: "InertPipeline \<Rightarrow> ChainLink list \<Rightarrow> string" where
  "renderInertChain p links = renderPipeline p @ renderLinks links"

definition blankText :: "string \<Rightarrow> bool" where
  "blankText ws \<longleftrightarrow> list_all is_space ws"

definition tightPipeline :: "InertPipeline \<Rightarrow> bool" where
  "tightPipeline p \<longleftrightarrow>
     p \<noteq> [] \<and> list_all inertStage p
     \<and> \<not> is_space (hd (renderPipeline p)) \<and> \<not> is_space (last (renderPipeline p))"

fun tightLink :: "ChainLink \<Rightarrow> bool" where
  "tightLink (before, op, after, p) \<longleftrightarrow> blankText before \<and> blankText after \<and> tightPipeline p"

definition chainPipelines :: "InertPipeline \<Rightarrow> ChainLink list \<Rightarrow> InertPipeline list" where
  "chainPipelines p links = p # map (\<lambda>(before, op, after, q). q) links"

definition stageCount :: "InertPipeline \<Rightarrow> ChainLink list \<Rightarrow> nat" where
  "stageCount p links = sum_list (map length (chainPipelines p links))"

text \<open>
  The parts the chain splitter is expected to return for a chain, and the relation
  between two of its states when the text read in between only went to the buffer.
\<close>

fun linkParts :: "InertPipeline \<Rightarrow> ChainLink list \<Rightarrow> ShellChainPart list" where
  "linkParts p [] = [\<lparr>part = renderPipeline p, opToNext = None\<rparr>]"
| "linkParts p ((before, op, after, p') # links) =
     \<lparr>part = renderPipeline p, opToNext = Some op\<rparr> # linkParts p' links"

definition chainKeeps :: "ChainState \<Rightarrow> ChainState \<Rightarrow> string \<Rightarrow> bool" where
  "chainKeeps st st' text \<longleftrightarrow>
     chainBuf st' = chainBuf st @ text \<and> chainParts st' = chainParts st
     \<and> foundChain st' = foundChain st \<and> invalidChain st' = invalidChain st"

text \<open>
  Single-quote escaping as the specification words it: the value between single
  quotes, each single quote inside it replaced by \<open>'"'"'\<close>; the tokens of an argv
  are quoted one by one and joined by single spaces.
\<close>

fun escapeSingleQuotes :: "string \<Rightarrow> string" where
  "escapeSingleQuotes [] = []"
| "escapeSingleQuotes (c # cs) =
     (if c = sq then [sq, dq, sq, dq, sq] else [c]) @ escapeSingleQuotes cs"

definition singleQuoted :: "string \<Rightarrow> string" where
  "singleQuoted v = [sq] @ escapeSingleQuotes v @ [sq]"

fun quotedTokens :: "string list \<Rightarrow> string" where
  "quotedTokens [] = []"
| "quotedTokens [a] = singleQuoted a"
| "quotedTokens (a # b # bs) = singleQuoted a @ '' '' @ quotedTokens (b # bs)"

text \<open>
  The selective rewriting of a chain, written on its structure: a stage whose flag
  is \<open>safeBins\<close> becomes the quoted tokens of the argv of its segment, any other
  stage keeps its raw text; the stages of a pipeline are joined by \<open>|\<close> between
  spaces, the pipelines by their chain operators between spaces. Segments and flags
  are consumed from the front, one per stage.
\<close>

definition selectiveStage ::
  "InertPiece list \<Rightarrow> ExecCommandSegment \<Rightarrow> SatisfiedBy option \<Rightarrow> string" where
  "selectiveStage s seg by =
     (if by = Some SafeBins then quotedTokens (argv seg) else trim (renderStage s))"

fun selectivePipeline ::
  "InertPipeline \<Rightarrow> ExecCommandSegment list \<Rightarrow> SatisfiedBy option list \<Rightarrow> string" where
  "selectivePipeline [s] (seg # segs) (by # bys) = selectiveStage s seg by"
| "selectivePipeline (s # s' # ss) (seg # segs) (by # bys) =
     selectiveStage s seg by @ '' | '' @ selectivePipeline (s' # ss) segs bys"
| "selectivePipeline _ _ _ = []"

fun selectiveLinks ::
  "ChainLink list \<Rightarrow> ExecCommandSegment list \<Rightarrow> SatisfiedBy option list \<Rightarrow> string" where
  "selectiveLinks [] segs bys = []"
| "selectiveLinks ((before, op, after, p) # links) segs bys =
     '' '' @ operatorText op @ '' '' @ selectivePipeline p segs bys
     @ selectiveLinks links (drop (length p) segs) (drop (length p) bys)"

definition selectiveChain ::
  "InertPipeline \<Rightarrow> ChainLink list \<Rightarrow> ExecCommandSegment list \<Rightarrow> SatisfiedBy option list \<Rightarrow>
   string" where
  "selectiveChain p links segs bys =
     selectivePipeline p segs bys
     @ selectiveLinks links (drop (length p) segs) (drop (length p) bys)"

text \<open>
  The same rewriting for any command, on the parts and raw segments that the chain
  splitter and the segmenter return for it: each pipeline takes as many segments and
  flags from the front as it has raw segments, a segment flagged \<open>safeBins\<close> becomes
  the quoted tokens of its argv, any other its trimmed raw text; they are joined by
  \<open>|\<close> between spaces and followed by the chain operator between spaces.
\<close>

definition renderSegment :: "ExecCommandSegment \<Rightarrow> SatisfiedBy option \<Rightarrow> string \<Rightarrow> string" where
  "renderSegment seg by rawText =
     (if by = Some SafeBins then quotedTokens (argv seg) else trim rawText)"

fun renderChain ::
  "ExecCommandSegment list \<Rightarrow> SatisfiedBy option list \<Rightarrow> ShellChainPart list \<Rightarrow> string" where
  "renderChain segs satisfiedBy [] = []"
| "renderChain segs satisfiedBy (p # ps) =
     (let raws = splitSegments (splitShellPipeline (part p)); n = length raws in
      join '' | '' (map (\<lambda>(seg, by, rawText). renderSegment seg by rawText)
                      (zip segs (zip satisfiedBy raws)))
      @ (case opToNext p of Some op \<Rightarrow> '' '' @ operatorText op @ '' '' | None \<Rightarrow> [])
      @ renderChain (drop n segs) (drop n satisfiedBy) ps)"

definition pipelineSegmentCount :: "ShellChainPart list \<Rightarrow> nat" where
  "pipelineSegmentCount ps =
     sum_list (map (\<lambda>p. length (splitSegments (splitShellPipeline (part p)))) ps)"

section \<open>Properties\<close>

declare extractShellWrapperCommandInternal.simps [simp del]

lemma indexOf_absent: "c \<notin> set s \<Longrightarrow> indexOf s c = -1"
  by (induction s) (auto simp: Let_def)

lemma indexOf_present:
  "c \<in> set s \<Longrightarrow> indexOf s c = int (length (takeWhile (\<lambda>x. x \<noteq> c) s))"
  by (induction s) (auto simp: Let_def)

lemma take_first_index: "take (length (takeWhile P s)) s = takeWhile P s"
  by (induction s) auto

lemma drop_first_index: "drop (length (takeWhile P s)) s = dropWhile P s"
  by (induction s) auto

lemma parse_positional:
  "tok \<noteq> [] \<Longrightarrow> hd tok \<noteq> CHR ''-'' \<Longrightarrow> parseExecArgvToken tok = Positional tok"
  by (cases tok) (auto simp: parseExecArgvToken_def)

lemma parse_long_inline:
  assumes "rest \<noteq> []" "CHR ''='' \<in> set rest"
  shows "parseExecArgvToken (''--'' @ rest) =
       LongOption (''--'' @ rest)
         (takeWhile (\<lambda>c. c \<noteq> CHR ''='') (''--'' @ rest))
         (Some (tl (dropWhile (\<lambda>c. c \<noteq> CHR ''='') (''--'' @ rest))))"
proof -
  define tok where "tok = ''--'' @ rest"
  define k where "k = length (takeWhile (\<lambda>c. c \<noteq> CHR ''='') tok)"
  have mem: "CHR ''='' \<in> set tok" using assms by (simp add: tok_def)
  have idx: "indexOf tok CHR ''='' = int k"
    unfolding k_def using indexOf_present [OF mem] .
  have pos: "0 < k" by (simp add: k_def tok_def)
  have shape: "tok \<noteq> []" "tok \<noteq> ''--''" "tok \<noteq> ''-''"
    "startsWith tok ''-''" "startsWith tok ''--''"
    using assms(1) by (simp_all add: tok_def)
  have d: "drop (Suc k) tok = tl (dropWhile (\<lambda>c. c \<noteq> CHR ''='') tok)"
    unfolding k_def by (metis drop_Suc drop_first_index tl_drop)
  have t: "take k tok = takeWhile (\<lambda>c. c \<noteq> CHR ''='') tok"
    unfolding k_def by (rule take_first_index)
  have n1: "nat (int k + 1) = Suc k" "nat (int k) = k" by simp_all
  have "parseExecArgvToken tok = LongOption tok (take k tok) (Some (drop (Suc k) tok))"
    unfolding parseExecArgvToken_def Let_def idx n1 using shape pos by simp
  then show ?thesis
    unfolding d t unfolding tok_def .
qed

lemma parse_long_plain:
  assumes "rest \<noteq> []" "CHR ''='' \<notin> set rest"
  shows "parseExecArgvToken (''--'' @ rest) = LongOption (''--'' @ rest) (''--'' @ rest) None"
proof -
  have "CHR ''='' \<notin> set (''--'' @ rest)" using assms by simp
  then have "indexOf (''--'' @ rest) CHR ''='' = -1" by (rule indexOf_absent)
  then show ?thesis
    unfolding parseExecArgvToken_def Let_def using assms(1) by simp
qed

lemma parse_short_cluster:
  "rest \<noteq> [] \<Longrightarrow> hd rest \<noteq> CHR ''-'' \<Longrightarrow>
     parseExecArgvToken (CHR ''-'' # rest) =
       ShortCluster (CHR ''-'' # rest) rest (map (\<lambda>c. [CHR ''-'', c]) rest)"
  by (cases rest) (auto simp: parseExecArgvToken_def Let_def)

text \<open>
  C9. \<open>parseExecArgvToken\<close> classifies a string by its leading characters: the empty
  string is \<open>Empty\<close>, exactly \<open>--\<close> is \<open>Terminator\<close>, exactly \<open>-\<close> is \<open>Stdin\<close>, a
  string that does not start with \<open>-\<close> is \<open>Positional\<close>; a string starting with
  \<open>--\<close> that contains \<open>=\<close> is a long option whose flag is the text before the first
  \<open>=\<close> and whose inline value is the text after it, and without \<open>=\<close> the whole string
  is the flag with no inline value; any other string starting with \<open>-\<close> is a short
  cluster whose flags are \<open>-\<close> followed by each character of the remainder.
\<close>

theorem parseExecArgvToken_classification:
  "parseExecArgvToken [] = Empty []
   \<and> parseExecArgvToken ''--'' = Terminator ''--''
   \<and> parseExecArgvToken ''-'' = Stdin ''-''
   \<and> (tok \<noteq> [] \<and> hd tok \<noteq> CHR ''-'' \<longrightarrow> parseExecArgvToken tok = Positional tok)
   \<and> (rest \<noteq> [] \<and> CHR ''='' \<in> set rest \<longrightarrow>
        parseExecArgvToken (''--'' @ rest) =
          LongOption (''--'' @ rest)
            (takeWhile (\<lambda>c. c \<noteq> CHR ''='') (''--'' @ rest))
            (Some (tl (dropWhile (\<lambda>c. c \<noteq> CHR ''='') (''--'' @ rest)))))
   \<and> (rest \<noteq> [] \<and> CHR ''='' \<notin> set rest \<longrightarrow>
        parseExecArgvToken (''--'' @ rest) = LongOption (''--'' @ rest) (''--'' @ rest) None)
   \<and> (cluster \<noteq> [] \<and> hd cluster \<noteq> CHR ''-'' \<longrightarrow>
        parseExecArgvToken (CHR ''-'' # cluster) =
          ShortCluster (CHR ''-'' # cluster) cluster (map (\<lambda>c. [CHR ''-'', c]) cluster))"
  using parse_positional [of tok] parse_long_inline [of rest] parse_long_plain [of rest]
    parse_short_cluster [of cluster]
  by (simp add: parseExecArgvToken_def)

theorem parseExecArgvToken_classification_witness:
  "parseExecArgvToken ''file.txt'' = Positional ''file.txt''
   \<and> parseExecArgvToken ''--output=a=b'' = LongOption ''--output=a=b'' ''--output'' (Some ''a=b'')
   \<and> parseExecArgvToken ''--recursive'' = LongOption ''--recursive'' ''--recursive'' None
   \<and> parseExecArgvToken ''-oval'' = ShortCluster ''-oval'' ''oval'' [''-o'', ''-v'', ''-a'', ''-l'']"
  using parseExecArgvToken_classification [of "''file.txt''" "''output=a=b''" "''oval''"]
    parseExecArgvToken_classification [of "''file.txt''" "''recursive''" "''oval''"]
  by simp

text \<open>
  C10. \<open>analyzeArgvCommand\<close> applies no shell-grammar check to its entries: when
  every entry is empty or whitespace only the result is \<open>ok = False\<close> with reason
  \<open>empty argv\<close> and no segments; otherwise the result is \<open>ok = True\<close> with exactly
  one segment, whose argv is the input without its blank entries, whatever characters
  the entries contain.
\<close>

theorem analyzeArgvCommand_no_grammar_checks:
  "((\<forall>entry \<in> set args. trim entry = []) \<longrightarrow>
      analyzeArgvCommand resolvePath args =
        \<lparr>ok = False, reason = Some ''empty argv'', segments = [], chains = None\<rparr>)
   \<and> ((\<exists>entry \<in> set args. trim entry \<noteq> []) \<longrightarrow>
      ok (analyzeArgvCommand resolvePath args)
      \<and> length (segments (analyzeArgvCommand resolvePath args)) = 1
      \<and> argv (hd (segments (analyzeArgvCommand resolvePath args))) =
          filter (\<lambda>entry. trim entry \<noteq> []) args)"
proof (cases "\<forall>entry \<in> set args. trim entry = []")
  case True
  then have "filter (\<lambda>entry. length (trim entry) > 0) args = []"
    by (simp add: filter_empty_conv)
  with True show ?thesis by (simp add: analyzeArgvCommand_def)
next
  case False
  then have "filter (\<lambda>entry. length (trim entry) > 0) args \<noteq> []"
    by (simp add: filter_empty_conv)
  with False show ?thesis by (simp add: analyzeArgvCommand_def Let_def)
qed

theorem analyzeArgvCommand_no_grammar_checks_witness:
  "analyzeArgvCommand usrBin ['' '', [], [nbsp]] =
     \<lparr>ok = False, reason = Some ''empty argv'', segments = [], chains = None\<rparr>
   \<and> ok (analyzeArgvCommand usrBin [''echo'', '' '', ''$(id) | x; `y`''])
   \<and> argv (hd (segments (analyzeArgvCommand usrBin [''echo'', '' '', ''$(id) | x; `y`''])))
       = [''echo'', ''$(id) | x; `y`'']"
  using analyzeArgvCommand_no_grammar_checks [of "['' '', [], [nbsp]]" usrBin]
    analyzeArgvCommand_no_grammar_checks [of "[''echo'', '' '', ''$(id) | x; `y`'']" usrBin]
  by (simp add: trim_def is_space_def)

subsection \<open>Trimming\<close>

lemma rstrip_prefix: "\<exists>ws. xs = rev (dropWhile P (rev xs)) @ ws \<and> (\<forall>c \<in> set ws. P c)"
proof -
  have "rev xs = takeWhile P (rev xs) @ dropWhile P (rev xs)" by simp
  then have "xs = rev (dropWhile P (rev xs)) @ rev (takeWhile P (rev xs))"
    by (metis rev_append rev_rev_ident)
  moreover have "\<forall>c \<in> set (rev (takeWhile P (rev xs))). P c"
    by (auto dest: set_takeWhileD)
  ultimately show ?thesis by blast
qed

lemma trim_fixed:
  assumes "s \<noteq> [] \<Longrightarrow> \<not> is_space (hd s) \<and> \<not> is_space (last s)"
  shows "trim s = s"
proof (cases "s = []")
  case True
  then show ?thesis by (simp add: trim_def)
next
  case False
  with assms have h: "\<not> is_space (hd s)" and l: "\<not> is_space (last s)" by auto
  from False h have "dropWhile is_space s = s" by (cases s) auto
  moreover from False l have "dropWhile is_space (rev s) = rev s"
    by (cases "rev s") (auto simp: hd_rev [symmetric])
  ultimately show ?thesis by (simp add: trim_def)
qed

lemma trim_last: "trim s \<noteq> [] \<Longrightarrow> \<not> is_space (last (trim s))"
proof -
  assume ne: "trim s \<noteq> []"
  let ?d = "dropWhile is_space (rev (dropWhile is_space s))"
  have "?d \<noteq> []" using ne by (simp add: trim_def)
  then have "\<not> is_space (hd ?d)" by (rule hd_dropWhile)
  moreover have "last (trim s) = hd ?d"
    using \<open>?d \<noteq> []\<close> by (simp add: trim_def last_rev)
  ultimately show ?thesis by simp
qed

lemma trim_hd: "trim s \<noteq> [] \<Longrightarrow> \<not> is_space (hd (trim s))"
proof -
  assume ne: "trim s \<noteq> []"
  let ?l = "dropWhile is_space s"
  obtain ws where ws: "?l = trim s @ ws"
    using rstrip_prefix [of ?l is_space] by (auto simp: trim_def)
  with ne have "?l \<noteq> []" by auto
  then have "\<not> is_space (hd ?l)" by (rule hd_dropWhile)
  moreover have "hd ?l = hd (trim s)" using ws ne by (metis hd_append2)
  ultimately show ?thesis by simp
qed

lemma trim_idem: "trim (trim s) = trim s"
  by (rule trim_fixed) (simp add: trim_hd trim_last)

lemma trim_eq_Nil: "trim s = [] \<longleftrightarrow> (\<forall>c \<in> set s. is_space c)"
proof
  assume "trim s = []"
  then have all: "\<forall>c \<in> set (dropWhile is_space s). is_space c"
    by (simp add: trim_def)
  have "dropWhile is_space s = []"
  proof (rule ccontr)
    assume ne: "dropWhile is_space s \<noteq> []"
    then have "\<not> is_space (hd (dropWhile is_space s))" by (rule hd_dropWhile)
    moreover have "hd (dropWhile is_space s) \<in> set (dropWhile is_space s)" using ne by simp
    ultimately show False using all by blast
  qed
  then show "\<forall>c \<in> set s. is_space c" by simp
next
  assume "\<forall>c \<in> set s. is_space c"
  then have e: "dropWhile is_space s = []" by simp
  show "trim s = []" by (simp add: trim_def e)
qed

subsection \<open>Shell wrappers\<close>

lemma basenameLower_Nil: "basenameLower [] = []"
  by code_simp

lemma posix_shell_spec:
  assumes "b \<in> set POSIX_SHELL_WRAPPERS"
  shows "b \<noteq> ''env''" and "b \<noteq> []"
    and "findShellWrapperSpec b = Some \<lparr>kind = Posix, names = POSIX_SHELL_WRAPPERS\<rparr>"
  using assms by (auto simp: findShellWrapperSpec_def SHELL_WRAPPER_SPECS_def POSIX_SHELL_WRAPPERS_def)

lemma posix_inline_command:
  assumes "toLowerCase (trim a1) \<in> set POSIX_INLINE_COMMAND_FLAGS" and "trim a2 \<noteq> []"
  shows "extractPosixShellInlineCommand (a0 # a1 # a2 # others) = Some (trim a2)"
proof -
  have "trim a1 \<noteq> []"
    using assms(1) by (auto simp: POSIX_INLINE_COMMAND_FLAGS_def toLowerCase_def)
  then show ?thesis
    using assms by (simp add: extractPosixShellInlineCommand_def trimmedAt_def)
qed

text \<open>
  C5, as the code has it. When the basename of the first entry (case-insensitive) is
  a POSIX shell, the second entry, trimmed and lower-cased, is \<open>-c\<close>, \<open>-lc\<close> or
  \<open>--command\<close>, and the third entry is not blank, \<open>extractShellWrapperCommand\<close>
  called without a raw command reports \<open>isWrapper\<close> true, and its command is the third
  entry with surrounding whitespace removed.
\<close>

theorem extractShellWrapperCommand_posix_positional:
  assumes shell: "basenameLower (trim a0) \<in> set POSIX_SHELL_WRAPPERS"
    and flag: "toLowerCase (trim a1) \<in> set POSIX_INLINE_COMMAND_FLAGS"
    and arg: "trim a2 \<noteq> []"
  shows "extractShellWrapperCommand (a0 # a1 # a2 # others) None =
           \<lparr>isWrapper = True, command = Some (trim a2)\<rparr>"
proof -
  have t0: "trim a0 \<noteq> []"
    using posix_shell_spec(2) [OF shell] basenameLower_Nil by auto
  have at0: "trimmedAt (a0 # a1 # a2 # others) 0 = Some (trim a0)"
    using t0 by (simp add: trimmedAt_def)
  show ?thesis
    unfolding extractShellWrapperCommand_def
    by (subst extractShellWrapperCommandInternal.simps)
      (simp add: at0 posix_shell_spec [OF shell] posix_inline_command [OF flag arg] arg
        extractShellWrapperPayload_def normalizeRawCommand_def MAX_DISPATCH_WRAPPER_DEPTH_def)
qed

theorem extractShellWrapperCommand_posix_positional_witness:
  "extractShellWrapperCommand [''/bin/zsh'', ''-lc'', ''whoami && ls''] None =
     \<lparr>isWrapper = True, command = Some ''whoami && ls''\<rparr>
   \<and> extractShellWrapperCommand [''/bin/zsh'', ''-lc'', [nbsp] @ ''ls'' @ [nbsp]] None =
     \<lparr>isWrapper = True, command = Some ''ls''\<rparr>"
proof -
  have shell: "basenameLower (trim ''/bin/zsh'') \<in> set POSIX_SHELL_WRAPPERS" by code_simp
  have flag: "toLowerCase (trim ''-lc'') \<in> set POSIX_INLINE_COMMAND_FLAGS" by code_simp
  have arg: "trim ''whoami && ls'' \<noteq> []" "trim ([nbsp] @ ''ls'' @ [nbsp]) \<noteq> []" by code_simp+
  have t: "trim ''whoami && ls'' = ''whoami && ls''" "trim ([nbsp] @ ''ls'' @ [nbsp]) = ''ls''"
    by code_simp+
  show ?thesis
    using extractShellWrapperCommand_posix_positional [OF shell flag arg(1), of "[]"]
      extractShellWrapperCommand_posix_positional [OF shell flag arg(2), of "[]"]
    unfolding t by simp
qed

text \<open>
  C5 as stated fails: the inline-command flag is looked for in the second entry only.
  With \<open>--norc\<close> before \<open>-c\<close> the argv of a POSIX shell contains the flag \<open>-c\<close>
  followed by a non-empty argument, and is reported as no wrapper; and a payload with
  surrounding blanks is reported trimmed, not as the argument itself.
\<close>

theorem extractShellWrapperCommand_flag_anywhere_counterexample:
  "basenameLower ''/bin/bash'' \<in> set POSIX_SHELL_WRAPPERS
   \<and> ''-c'' \<in> set POSIX_INLINE_COMMAND_FLAGS
   \<and> extractShellWrapperCommand [''/bin/bash'', ''--norc'', ''-c'', ''echo hi''] None =
       \<lparr>isWrapper = False, command = None\<rparr>
   \<and> extractShellWrapperCommand [''/bin/bash'', ''-c'', '' echo hi''] None =
       \<lparr>isWrapper = True, command = Some ''echo hi''\<rparr>"
  by code_simp

subsection \<open>Command consistency\<close>

lemma trimmedAt_trimmed: "trimmedAt xs i = Some c \<Longrightarrow> trim c = c \<and> c \<noteq> []"
  by (auto simp: trimmedAt_def trim_idem split: if_splits)

lemma powershell_loop_trimmed: "extractPowerShellLoop xs = Some c \<Longrightarrow> trim c = c \<and> c \<noteq> []"
  by (induction xs) (auto simp: Let_def dest: trimmedAt_trimmed split: if_splits)

lemma payload_trimmed:
  "extractShellWrapperPayload xs spec = Some c \<Longrightarrow> trim c = c \<and> c \<noteq> []"
  by (auto simp: extractShellWrapperPayload_def extractPosixShellInlineCommand_def
      extractCmdInlineCommand_def extractPowerShellInlineCommand_def Let_def trim_idem
      dest: trimmedAt_trimmed powershell_loop_trimmed
      split: ShellWrapperKind.splits option.splits if_splits list.splits)

lemma wrapper_internal_shape:
  "rc = None \<Longrightarrow> extractShellWrapperCommandInternal xs rc d = w \<Longrightarrow>
     (isWrapper w \<and> (\<exists>c. command w = Some c \<and> trim c = c \<and> c \<noteq> []))
     \<or> (\<not> isWrapper w \<and> command w = None)"
proof (induction xs rc d arbitrary: w rule: extractShellWrapperCommandInternal.induct)
  case (1 xs rc d)
  from "1.prems"(2) show ?case
    apply (subst (asm) extractShellWrapperCommandInternal.simps)
    using "1.IH" "1.prems"(1)
    by (auto simp: Let_def dest: payload_trimmed split: if_splits option.splits)
qed

lemma wrapper_shape:
  "(isWrapper (extractShellWrapperCommand xs None)
      \<and> (\<exists>c. command (extractShellWrapperCommand xs None) = Some c \<and> trim c = c \<and> c \<noteq> []))
   \<or> (\<not> isWrapper (extractShellWrapperCommand xs None)
      \<and> command (extractShellWrapperCommand xs None) = None)"
  using wrapper_internal_shape [of None xs 0]
  by (simp add: extractShellWrapperCommand_def normalizeRawCommand_def)

lemma escapeDoubleQuotes_concat:
  "concat (map (\<lambda>c. if c = dq then [bsl, dq] else [c]) s) = escapeDoubleQuotes s"
  by (induction s) auto

lemma formatExecArg_requoted: "formatExecArg a = requotedArg a"
  by (auto simp: formatExecArg_def requotedArg_def Let_def escapeDoubleQuotes_concat list_ex_iff)

lemma formatExecCommand_requoted: "formatExecCommand args = requotedArgv args"
  unfolding formatExecCommand_def
  by (induction args rule: requotedArgv.induct) (simp_all add: formatExecArg_requoted)

lemma validate_general:
  assumes "trim r \<noteq> []"
  shows "validateSystemRunCommandConsistency args (Some r) =
          (case command (extractShellWrapperCommand args None) of
             Some payload \<Rightarrow>
               if trim r = payload then ValidationOk (Some (trim r)) (trim r)
               else mismatch (trim r) payload
           | None \<Rightarrow>
               if trim r = requotedArgv args then ValidationOk None (trim r)
               else mismatch (trim r) (requotedArgv args))"
  using wrapper_shape [of args] assms
  by (auto simp: validateSystemRunCommandConsistency_def Let_def formatExecCommand_requoted
      split: option.splits)

lemma not_wrapper_name:
  assumes "basenameLower (trim a0) \<notin> set wrapperNames"
  shows "extractShellWrapperCommand (a0 # others) None = \<lparr>isWrapper = False, command = None\<rparr>"
proof -
  have ne: "basenameLower (trim a0) \<noteq> ''env''"
    using assms by (auto simp: wrapperNames_def)
  have "findShellWrapperSpec (basenameLower (trim a0)) = None"
    using assms
    by (auto simp: findShellWrapperSpec_def SHELL_WRAPPER_SPECS_def POSIX_SHELL_WRAPPERS_def
        WINDOWS_CMD_WRAPPERS_def POWERSHELL_WRAPPERS_def wrapperNames_def)
  then show ?thesis
    unfolding extractShellWrapperCommand_def
    by (subst extractShellWrapperCommandInternal.simps)
      (simp add: ne trimmedAt_def normalizeRawCommand_def MAX_DISPATCH_WRAPPER_DEPTH_def
        split: option.splits)
qed

lemma posix_no_flag:
  assumes shell: "basenameLower (trim a0) \<in> set POSIX_SHELL_WRAPPERS"
    and nf: "case others of [] \<Rightarrow> True
             | a1 # tail \<Rightarrow> toLowerCase (trim a1) \<notin> set [''-c'', ''-lc'', ''--command'']
                            \<or> (case tail of [] \<Rightarrow> True | a2 # _ \<Rightarrow> trim a2 = [])"
  shows "extractShellWrapperCommand (a0 # others) None = \<lparr>isWrapper = False, command = None\<rparr>"
proof -
  have t0: "trim a0 \<noteq> []"
    using posix_shell_spec(2) [OF shell] basenameLower_Nil by auto
  have "extractPosixShellInlineCommand (a0 # others) = None"
    using nf
    by (auto simp: extractPosixShellInlineCommand_def trimmedAt_def POSIX_INLINE_COMMAND_FLAGS_def
        split: list.splits option.splits if_splits)
  then show ?thesis
    unfolding extractShellWrapperCommand_def
    by (subst extractShellWrapperCommandInternal.simps)
      (simp add: t0 trimmedAt_def posix_shell_spec [OF shell] extractShellWrapperPayload_def
        normalizeRawCommand_def MAX_DISPATCH_WRAPPER_DEPTH_def)
qed

lemma posix_wrapper:
  assumes shell: "basenameLower (trim a0) \<in> set POSIX_SHELL_WRAPPERS"
    and flag: "toLowerCase (trim a1) \<in> set [''-c'', ''-lc'', ''--command'']"
    and arg: "trim a2 \<noteq> []"
  shows "extractShellWrapperCommand (a0 # a1 # a2 # others) None =
           \<lparr>isWrapper = True, command = Some (trim a2)\<rparr>"
proof -
  have f: "toLowerCase (trim a1) \<in> set POSIX_INLINE_COMMAND_FLAGS"
    using flag by (auto simp: POSIX_INLINE_COMMAND_FLAGS_def)
  have t0: "trim a0 \<noteq> []"
    using posix_shell_spec(2) [OF shell] basenameLower_Nil by auto
  have at0: "trimmedAt (a0 # a1 # a2 # others) 0 = Some (trim a0)"
    using t0 by (simp add: trimmedAt_def)
  show ?thesis
    unfolding extractShellWrapperCommand_def
    by (subst extractShellWrapperCommandInternal.simps)
      (simp add: at0 posix_shell_spec [OF shell] posix_inline_command [OF f arg] arg
        extractShellWrapperPayload_def normalizeRawCommand_def MAX_DISPATCH_WRAPPER_DEPTH_def)
qed

text \<open>
  C7, as the code has it. A raw command that is blank after trimming counts as not
  declared, and without a declared raw command the answer is always ok. For a raw
  command that is not blank, the answer is \<open>RAW_COMMAND_MISMATCH\<close> exactly when
  its trimmed text differs from the reference text, and ok with the trimmed text
  otherwise. The reference text is the payload that \<open>extractShellWrapperCommand\<close>
  reports for the argv alone when it reports one, and the canonical re-quoting of
  the argv otherwise. In particular: for a POSIX shell whose second entry is
  \<open>-c\<close>, \<open>-lc\<close> or \<open>--command\<close> and whose third entry is not blank, the reference
  text is the trimmed third entry; for an argv whose first entry names no wrapper,
  and for a POSIX shell without such a flag and payload in these places, it is the
  re-quoted argv.
\<close>

theorem validateSystemRunCommandConsistency_mismatch:
  "(trim r = [] \<longrightarrow>
      validateSystemRunCommandConsistency args (Some r) =
        validateSystemRunCommandConsistency args None)
   \<and> (\<exists>shellCommand cmdText. validateSystemRunCommandConsistency args None =
         ValidationOk shellCommand cmdText)
   \<and> (trim r \<noteq> [] \<longrightarrow>
        validateSystemRunCommandConsistency args (Some r) =
          (case command (extractShellWrapperCommand args None) of
             Some payload \<Rightarrow>
               if trim r = payload then ValidationOk (Some (trim r)) (trim r)
               else mismatch (trim r) payload
           | None \<Rightarrow>
               if trim r = requotedArgv args then ValidationOk None (trim r)
               else mismatch (trim r) (requotedArgv args)))
   \<and> (trim r \<noteq> [] \<and> basenameLower (trim a0) \<in> set [''sh'', ''bash'', ''zsh'', ''dash'', ''ksh'', ''ash'', ''fish'']
        \<and> toLowerCase (trim a1) \<in> set [''-c'', ''-lc'', ''--command''] \<and> trim a2 \<noteq> [] \<longrightarrow>
        validateSystemRunCommandConsistency (a0 # a1 # a2 # others) (Some r) =
          (if trim r = trim a2 then ValidationOk (Some (trim r)) (trim r)
           else mismatch (trim r) (trim a2)))
   \<and> (trim r \<noteq> []
        \<and> (basenameLower (trim a0) \<notin> set wrapperNames
            \<or> basenameLower (trim a0) \<in> set [''sh'', ''bash'', ''zsh'', ''dash'', ''ksh'', ''ash'', ''fish'']
              \<and> (case others of [] \<Rightarrow> True
                  | a1 # tail \<Rightarrow> toLowerCase (trim a1) \<notin> set [''-c'', ''-lc'', ''--command'']
                              \<or> (case tail of [] \<Rightarrow> True | a2 # _ \<Rightarrow> trim a2 = []))) \<longrightarrow>
        validateSystemRunCommandConsistency (a0 # others) (Some r) =
          (if trim r = requotedArgv (a0 # others) then ValidationOk None (trim r)
           else mismatch (trim r) (requotedArgv (a0 # others))))"
proof -
  have shells: "set [''sh'', ''bash'', ''zsh'', ''dash'', ''ksh'', ''ash'', ''fish''] = set POSIX_SHELL_WRAPPERS"
    by (auto simp: POSIX_SHELL_WRAPPERS_def)
  have 1: "validateSystemRunCommandConsistency args (Some r) =
        validateSystemRunCommandConsistency args None" if "trim r = []"
    using that by (simp add: validateSystemRunCommandConsistency_def Let_def)
  have 2: "\<exists>shellCommand cmdText. validateSystemRunCommandConsistency args None =
         ValidationOk shellCommand cmdText"
    by (simp add: validateSystemRunCommandConsistency_def Let_def)
  have 4: "validateSystemRunCommandConsistency (a0 # a1 # a2 # others) (Some r) =
          (if trim r = trim a2 then ValidationOk (Some (trim r)) (trim r)
           else mismatch (trim r) (trim a2))"
    if "trim r \<noteq> []" "basenameLower (trim a0) \<in> set POSIX_SHELL_WRAPPERS"
      "toLowerCase (trim a1) \<in> set [''-c'', ''-lc'', ''--command'']" "trim a2 \<noteq> []"
    using validate_general [OF that(1), of "a0 # a1 # a2 # others"] posix_wrapper [OF that(2-4), of others]
    by simp
  have 5: "validateSystemRunCommandConsistency (a0 # others) (Some r) =
          (if trim r = requotedArgv (a0 # others) then ValidationOk None (trim r)
           else mismatch (trim r) (requotedArgv (a0 # others)))"
    if "trim r \<noteq> []" "extractShellWrapperCommand (a0 # others) None = \<lparr>isWrapper = False, command = None\<rparr>"
    using validate_general [OF that(1), of "a0 # others"] that(2) by simp
  show ?thesis
    unfolding shells
    using 1 2 validate_general [of r args] 4 5 not_wrapper_name [of a0 others]
      posix_no_flag [of a0 others]
    by blast
qed

theorem validateSystemRunCommandConsistency_mismatch_witness:
  "validateSystemRunCommandConsistency [''/bin/bash'', ''-c'', ''echo hi''] (Some ''rm -rf /'') =
      mismatch ''rm -rf /'' ''echo hi''
   \<and> validateSystemRunCommandConsistency [''/bin/bash'', ''-c'', ''echo hi''] (Some '' echo hi '') =
      ValidationOk (Some ''echo hi'') ''echo hi''
   \<and> validateSystemRunCommandConsistency [''ls'', ''-l a''] (Some ('' ls '' @ [dq] @ ''-l a'' @ [dq])) =
      ValidationOk None (''ls '' @ [dq] @ ''-l a'' @ [dq])
   \<and> validateSystemRunCommandConsistency [''ls'', ''-l a''] (Some ''ls -l a'') =
      mismatch ''ls -l a'' (''ls '' @ [dq] @ ''-l a'' @ [dq])
   \<and> validateSystemRunCommandConsistency [''ls''] (Some [nbsp]) =
      validateSystemRunCommandConsistency [''ls''] None"
proof -
  have t: "trim ''rm -rf /'' = ''rm -rf /''" "trim '' echo hi '' = ''echo hi''"
    "trim ''echo hi'' = ''echo hi''"
    "trim ('' ls '' @ [dq] @ ''-l a'' @ [dq]) = ''ls '' @ [dq] @ ''-l a'' @ [dq]"
    "trim ''ls -l a'' = ''ls -l a''" "trim [nbsp] = []"
    by code_simp+
  have s: "basenameLower (trim ''/bin/bash'') \<in> set [''sh'', ''bash'', ''zsh'', ''dash'', ''ksh'', ''ash'', ''fish'']"
    "toLowerCase (trim ''-c'') \<in> set [''-c'', ''-lc'', ''--command'']"
    "basenameLower (trim ''ls'') \<notin> set wrapperNames"
    by code_simp+
  have q: "requotedArgv [''ls'', ''-l a''] = ''ls '' @ [dq] @ ''-l a'' @ [dq]" by code_simp
  show ?thesis
    using validateSystemRunCommandConsistency_mismatch
        [of "''rm -rf /''" "[]" "''/bin/bash''" "''-c''" "''echo hi''" "[]"]
      validateSystemRunCommandConsistency_mismatch
        [of "'' echo hi ''" "[]" "''/bin/bash''" "''-c''" "''echo hi''" "[]"]
      validateSystemRunCommandConsistency_mismatch
        [of "'' ls '' @ [dq] @ ''-l a'' @ [dq]" "[]" "''ls''" "[]" "[]" "[''-l a'']"]
      validateSystemRunCommandConsistency_mismatch
        [of "''ls -l a''" "[]" "''ls''" "[]" "[]" "[''-l a'']"]
      validateSystemRunCommandConsistency_mismatch
        [of "[nbsp]" "[''ls'']" "[]" "[]" "[]" "[]"]
      s
    unfolding t q by simp
qed

text \<open>
  C7 as stated fails in two places. The inline command of the specification is the
  argument that follows \<open>-c\<close>; with \<open>--norc\<close> before \<open>-c\<close> the code sees no wrapper,
  compares the raw command \<open>echo hi\<close> with the re-quoted argv and answers
  \<open>RAW_COMMAND_MISMATCH\<close> although the raw command equals the inner command. And a
  declared raw command that is not empty but blank differs from the reference text
  and is answered with ok.
\<close>

theorem validateSystemRunCommandConsistency_wrapper_counterexample:
  "basenameLower ''/bin/bash'' \<in> set POSIX_SHELL_WRAPPERS
   \<and> inlineCommandPerSpec [''/bin/bash'', ''--norc'', ''-c'', ''echo hi''] = Some ''echo hi''
   \<and> validateSystemRunCommandConsistency [''/bin/bash'', ''--norc'', ''-c'', ''echo hi'']
        (Some ''echo hi'') =
      mismatch ''echo hi'' (''/bin/bash --norc -c '' @ [dq] @ ''echo hi'' @ [dq])
   \<and> '' '' \<noteq> [] \<and> trim '' '' \<noteq> ''ls''
   \<and> validateSystemRunCommandConsistency [''ls''] (Some '' '') = ValidationOk None ''ls''"
  by code_simp

subsection \<open>Resolution through \<open>env\<close>\<close>

lemma lower_char_dash: "lower_char c = CHR ''-'' \<Longrightarrow> c = CHR ''-''"
  by (auto simp: lower_char_def upperLetters_def lowerLetters_def split: option.splits if_splits)

lemma env_flag_shape:
  assumes "takeWhile (\<lambda>c. c \<noteq> CHR ''='') (toLowerCase token) \<in> set (ENV_FLAG_OPTIONS @ ENV_OPTIONS_WITH_VALUE)"
  shows "token \<noteq> []" "token \<noteq> ''--''" "token \<noteq> ''-''" "startsWith token ''-''"
proof -
  show "token \<noteq> []" "token \<noteq> ''--''" "token \<noteq> ''-''"
    using assms by (auto simp: ENV_FLAG_OPTIONS_def ENV_OPTIONS_WITH_VALUE_def toLowerCase_def lower_char_def
        upperLetters_def lowerLetters_def)
  then obtain c cs where tok: "token = c # cs" by (cases token) auto
  have "hd (takeWhile (\<lambda>c. c \<noteq> CHR ''='') (toLowerCase token)) = CHR ''-''"
    using assms by (auto simp: ENV_FLAG_OPTIONS_def ENV_OPTIONS_WITH_VALUE_def)
  moreover have "takeWhile (\<lambda>c. c \<noteq> CHR ''='') (toLowerCase token) \<noteq> []"
    using assms by (auto simp: ENV_FLAG_OPTIONS_def ENV_OPTIONS_WITH_VALUE_def)
  ultimately have "lower_char c = CHR ''-''"
    using tok by (auto simp: toLowerCase_def split: if_splits)
  then show "startsWith token ''-''"
    using tok lower_char_dash by simp
qed

lemma assignment_shape:
  assumes "isEnvAssignment token"
  shows "token \<noteq> []" "token \<noteq> ''--''" "token \<noteq> ''-''"
  using assms by (auto simp: isEnvAssignment_def isNameStart_def isWindowsDeviceRoot_def)

lemma unwrapDispatch_not_env:
  assumes "trim c \<noteq> []" "basenameLower (trim c) \<noteq> ''env''"
  shows "unwrapDispatchWrappersForResolution (c # args) n = c # args"
  using assms by (cases n) (simp_all add: Let_def)

lemma env_option_shape:
  assumes "startsWith (toLowerCase token) ''-u'' \<or> startsWith (toLowerCase token) ''-c''
           \<or> startsWith (toLowerCase token) ''-s''"
  shows "token \<noteq> []" "token \<noteq> ''--''" "token \<noteq> ''-''" "startsWith token ''-''"
proof -
  obtain c d cs where tok: "token = c # d # cs"
    using assms by (cases token; cases "tl token") (auto simp: toLowerCase_def)
  have "lower_char c = CHR ''-''"
    using assms tok by (auto simp: toLowerCase_def)
  then have c: "c = CHR ''-''" by (rule lower_char_dash)
  have "lower_char d \<noteq> CHR ''-''"
    using assms tok by (auto simp: toLowerCase_def)
  then have d: "d \<noteq> CHR ''-''" by (auto simp: lower_char_def upperLetters_def lowerLetters_def)
  show "token \<noteq> []" "token \<noteq> ''--''" "token \<noteq> ''-''" "startsWith token ''-''"
    using tok c d by simp_all
qed

lemma unwrapEnvLoop_arguments:
  "(envArguments pre \<longrightarrow> unwrapEnvLoop False (pre @ rest) = unwrapEnvLoop False rest)
   \<and> (envValueThenArguments pre \<longrightarrow> unwrapEnvLoop True (pre @ rest) = unwrapEnvLoop False rest)"
proof (induction pre)
  case Nil
  then show ?case by simp
next
  case (Cons t ts)
  define token where "token = trim t"
  define lower where "lower = toLowerCase token"
  define flag where "flag = takeWhile (\<lambda>c. c \<noteq> CHR ''='') lower"
  note defs = token_def lower_def flag_def
  have val: "unwrapEnvLoop True ((t # ts) @ rest) = unwrapEnvLoop False rest"
    if "envValueThenArguments (t # ts)"
    using that Cons.IH by (simp add: Let_def split: if_splits)
  have arg: "unwrapEnvLoop False ((t # ts) @ rest) = unwrapEnvLoop False rest"
    if a: "envArguments (t # ts)"
  proof -
    consider (blank) "token = []"
      | (asg) "token \<noteq> []" "isEnvAssignment token"
      | (flg) "token \<noteq> []" "\<not> isEnvAssignment token" "flag \<in> set ENV_FLAG_OPTIONS"
      | (inl) "token \<noteq> []" "\<not> isEnvAssignment token" "flag \<notin> set ENV_FLAG_OPTIONS"
          "flag \<in> set ENV_OPTIONS_WITH_VALUE" "CHR ''='' \<in> set lower"
      | (sep) "token \<noteq> []" "\<not> isEnvAssignment token" "flag \<notin> set ENV_FLAG_OPTIONS"
          "flag \<in> set ENV_OPTIONS_WITH_VALUE" "CHR ''='' \<notin> set lower"
      | (att) "token \<noteq> []" "\<not> isEnvAssignment token" "flag \<notin> set ENV_FLAG_OPTIONS"
          "flag \<notin> set ENV_OPTIONS_WITH_VALUE"
          "startsWith lower ''-u'' \<or> startsWith lower ''-c'' \<or> startsWith lower ''-s''"
      using a by (auto simp: Let_def defs split: if_splits)
    then show ?thesis
    proof cases
      case blank
      then show ?thesis
        using a Cons.IH by (simp add: Let_def defs [symmetric])
    next
      case asg
      then show ?thesis
        using a Cons.IH assignment_shape [OF asg(2)] by (simp add: Let_def defs [symmetric])
    next
      case flg
      have sh: "token \<noteq> ''--''" "token \<noteq> ''-''" "startsWith token ''-''"
        using env_flag_shape [of token] flg(3) by (simp_all add: defs)
      show ?thesis
        using a Cons.IH flg sh by (simp add: Let_def defs [symmetric])
    next
      case inl
      have sh: "token \<noteq> ''--''" "token \<noteq> ''-''" "startsWith token ''-''"
        using env_flag_shape [of token] inl(4) by (simp_all add: defs)
      show ?thesis
        using a Cons.IH inl sh by (simp add: Let_def defs [symmetric])
    next
      case sep
      have sh: "token \<noteq> ''--''" "token \<noteq> ''-''" "startsWith token ''-''"
        using env_flag_shape [of token] sep(4) by (simp_all add: defs)
      show ?thesis
        using a Cons.IH sep sh by (simp add: Let_def defs [symmetric])
    next
      case att
      have sh: "token \<noteq> ''--''" "token \<noteq> ''-''" "startsWith token ''-''"
        using env_option_shape [of token] att(5) by (simp_all add: defs)
      have "unwrapEnvLoop False ((t # ts) @ rest) = unwrapEnvLoop False (ts @ rest)"
        using att sh by (auto simp add: Let_def defs [symmetric])
      moreover have "envArguments ts"
        using a att by (auto simp add: Let_def defs [symmetric])
      ultimately show ?thesis using Cons.IH by simp
    qed
  qed
  show ?case using val arg by blast
qed

lemma unwrapEnvLoop_command:
  "commandToken c \<Longrightarrow> unwrapEnvLoop False (c # rest) = Some (c # rest)"
  by (auto simp: commandToken_def Let_def)

lemma unwrapEnvLoop_terminator:
  "trim t \<in> set [''--'', ''-''] \<Longrightarrow> unwrapEnvLoop False (t # rest) = Some rest"
  by (auto simp: Let_def)

lemma unwrapEnvInvocation_envPrefix:
  assumes "envPrefix pre c"
  shows "unwrapEnvInvocation (e # pre @ c # rest) = Some (c # rest)"
proof -
  from assms consider (cmd) "envArguments pre" "commandToken c"
    | (stop) "pre \<noteq> []" "envArguments (butlast pre)" "trim (last pre) \<in> set [''--'', ''-'']"
    by (auto simp: envPrefix_def)
  then have "unwrapEnvLoop False (pre @ c # rest) = Some (c # rest)"
  proof cases
    case cmd
    then show ?thesis
      using unwrapEnvLoop_arguments [of pre "c # rest"] unwrapEnvLoop_command by simp
  next
    case stop
    have eq: "pre @ c # rest = butlast pre @ (last pre # c # rest)"
      using stop(1) by (metis append.assoc append_Cons append_Nil append_butlast_last_id)
    have "unwrapEnvLoop False (butlast pre @ (last pre # c # rest)) =
          unwrapEnvLoop False (last pre # c # rest)"
      using unwrapEnvLoop_arguments [of "butlast pre" "last pre # c # rest"] stop(2) by blast
    also have "\<dots> = Some (c # rest)"
      by (rule unwrapEnvLoop_terminator [OF stop(3)])
    finally show ?thesis unfolding eq .
  qed
  then show ?thesis by (simp add: unwrapEnvInvocation_def)
qed

lemma envWrap_head:
  "envNest layers c \<Longrightarrow>
     \<exists>rest. envWrap layers (c # args) = (case layers of [] \<Rightarrow> c | (e', _) # _ \<Rightarrow> e') # rest"
  by (cases layers) auto

lemma unwrapDispatch_nest:
  "envNest layers c \<Longrightarrow> length layers \<le> n \<Longrightarrow>
     unwrapDispatchWrappersForResolution (envWrap layers (c # args)) n = c # args"
proof (induction layers arbitrary: n)
  case Nil
  then show ?case
    using unwrapDispatch_not_env [of c args n] by simp
next
  case (Cons l layers)
  obtain e pre where l: "l = (e, pre)" by (cases l)
  obtain m where n: "n = Suc m" using Cons.prems(2) by (cases n) auto
  have env: "basenameLower (trim e) = ''env''"
    and pre: "envPrefix pre (case layers of [] \<Rightarrow> c | (e', _) # _ \<Rightarrow> e')"
    and nest: "envNest layers c"
    using Cons.prems(1) l by simp_all
  obtain rest where w: "envWrap layers (c # args) = (case layers of [] \<Rightarrow> c | (e', _) # _ \<Rightarrow> e') # rest"
    using envWrap_head [OF nest] by blast
  have t: "trim e \<noteq> []" using env basenameLower_Nil by auto
  have un: "unwrapEnvInvocation (e # pre @ envWrap layers (c # args)) = Some (envWrap layers (c # args))"
    unfolding w using unwrapEnvInvocation_envPrefix [OF pre] by simp
  have "unwrapDispatchWrappersForResolution (envWrap (l # layers) (c # args)) n =
        unwrapDispatchWrappersForResolution (envWrap layers (c # args)) m"
    using t env un w by (simp add: l n Let_def)
  then show ?case
    using Cons.IH [OF nest, of m] Cons.prems(2) n by simp
qed

text \<open>
  C6, as the code has it. For a nest of at most four \<open>env\<close> invocations, each
  followed only by blank tokens, assignments and recognized \<open>env\<close> options (a
  terminator \<open>--\<close> or \<open>-\<close> included) before the token that follows it, around an
  inner command that is not \<open>env\<close> again, \<open>resolveCommandResolutionFromArgv\<close> gives
  the same resolution as for the argv inside the outermost \<open>env\<close>, and this is the
  resolution of the inner command: its trimmed first token as raw executable, the
  path that token resolves to, and the executable name taken from that path.
\<close>

theorem resolveCommandResolutionFromArgv_env:
  assumes nest: "envNest (layer # layers) c"
    and depth: "length (layer # layers) \<le> MAX_DISPATCH_WRAPPER_DEPTH"
  shows "resolveCommandResolutionFromArgv resolvePath (envWrap (layer # layers) (c # args)) =
           resolveCommandResolutionFromArgv resolvePath (envWrap layers (c # args))
         \<and> resolveCommandResolutionFromArgv resolvePath (envWrap layers (c # args)) =
             Some \<lparr>rawExecutable = trim c, resolvedPath = resolvePath (trim c),
                   executableName =
                     (case resolvePath (trim c) of
                        Some p \<Rightarrow> if p \<noteq> [] then posix_basename p else trim c
                      | None \<Rightarrow> trim c)\<rparr>"
proof -
  have inner: "envNest layers c"
    using nest by (cases layer) simp
  have t: "trim c \<noteq> []"
    using inner by (induction layers) auto
  have 1: "unwrapDispatchWrappersForResolution (envWrap (layer # layers) (c # args))
             MAX_DISPATCH_WRAPPER_DEPTH = c # args"
    by (rule unwrapDispatch_nest [OF nest depth])
  have 2: "unwrapDispatchWrappersForResolution (envWrap layers (c # args))
             MAX_DISPATCH_WRAPPER_DEPTH = c # args"
    by (rule unwrapDispatch_nest [OF inner]) (use depth in simp)
  show ?thesis
    unfolding resolveCommandResolutionFromArgv_def 1 2
    using t by (simp add: trimmedAt_def Let_def)
qed

theorem resolveCommandResolutionFromArgv_env_witness:
  "resolveCommandResolutionFromArgv usrBin [''/usr/bin/env'', ''FOO=bar'', ''rg'', ''-n'', ''x''] =
     resolveCommandResolutionFromArgv usrBin [''rg'', ''-n'', ''x'']
   \<and> resolveCommandResolutionFromArgv usrBin [''rg'', ''-n'', ''x''] =
       Some \<lparr>rawExecutable = ''rg'', resolvedPath = Some ''/usr/bin/rg'', executableName = ''rg''\<rparr>
   \<and> resolveCommandResolutionFromArgv usrBin
       [''env'', ''-uFOO'', ''-i'', ''/usr/bin/env'', ''-u'', ''BAR'', ''--'', ''env'', ''env'', ''A=1'', ''rg'']
     = Some \<lparr>rawExecutable = ''rg'', resolvedPath = Some ''/usr/bin/rg'', executableName = ''rg''\<rparr>"
proof -
  have n1: "envNest [(''/usr/bin/env'', [''FOO=bar''])] ''rg''" by code_simp
  have n2: "envNest [(''env'', [''-uFOO'', ''-i'']), (''/usr/bin/env'', [''-u'', ''BAR'', ''--'']),
                     (''env'', []), (''env'', [''A=1''])] ''rg''" by code_simp
  have d1: "length [(''/usr/bin/env'', [''FOO=bar''])] \<le> MAX_DISPATCH_WRAPPER_DEPTH" by code_simp
  have d2: "length [(''env'', [''-uFOO'', ''-i'']), (''/usr/bin/env'', [''-u'', ''BAR'', ''--'']),
                     (''env'', []), (''env'', [''A=1''])] \<le> MAX_DISPATCH_WRAPPER_DEPTH" by code_simp
  have t: "trim ''rg'' = ''rg''" by code_simp
  have b: "posix_basename ''/usr/bin/rg'' = ''rg''" by code_simp
  show ?thesis
    using resolveCommandResolutionFromArgv_env [OF n1 d1, of usrBin "[''-n'', ''x'']"]
      resolveCommandResolutionFromArgv_env [OF n2 d2, of usrBin "[]"]
    by (simp add: t b usrBin_def)
qed

text \<open>
  C6 as stated fails beyond the depth bound: with five nested \<open>env\<close> wrappers the
  outer argv resolves to \<open>env\<close>, while its inner argv, resolved directly, resolves to
  \<open>rg\<close>.
\<close>

theorem resolveCommandResolutionFromArgv_depth_counterexample:
  "basenameLower (trim ''/usr/bin/env'') = ''env''
   \<and> unwrapEnvInvocation [''/usr/bin/env'', ''env'', ''env'', ''env'', ''env'', ''rg''] =
       Some [''env'', ''env'', ''env'', ''env'', ''rg'']
   \<and> map_option resolvedPath
        (resolveCommandResolutionFromArgv usrBin
           [''/usr/bin/env'', ''env'', ''env'', ''env'', ''env'', ''rg'']) = Some (Some ''/usr/bin/env'')
   \<and> map_option resolvedPath
        (resolveCommandResolutionFromArgv usrBin [''env'', ''env'', ''env'', ''env'', ''rg''])
       = Some (Some ''/usr/bin/rg'')"
  by code_simp

subsection \<open>Failed analyses\<close>

lemma splitShellPipeline_reason:
  "\<not> splitOk (splitShellPipeline cmd) \<Longrightarrow> splitReason (splitShellPipeline cmd) \<noteq> None"
  by (auto simp: splitShellPipeline_def rejected_def splitFinish_def Let_def
      split: sum.splits if_splits)

lemma analyzeChainParts_invariant:
  "\<not> ok (analyzeChainParts splitArgs resolvePath ps chainsAcc allSegments) \<Longrightarrow>
     segments (analyzeChainParts splitArgs resolvePath ps chainsAcc allSegments) = []
     \<and> reason (analyzeChainParts splitArgs resolvePath ps chainsAcc allSegments) \<noteq> None"
proof (induction ps arbitrary: chainsAcc allSegments)
  case Nil
  then show ?case by simp
next
  case (Cons p ps)
  show ?case
  proof (cases "splitOk (splitShellPipeline p)")
    case False
    then show ?thesis
      using splitShellPipeline_reason [of p] by (simp add: Let_def)
  next
    case True
    show ?thesis
    proof (cases "parseSegmentsFromParts splitArgs resolvePath (splitSegments (splitShellPipeline p))")
      case None
      with True show ?thesis by (simp add: Let_def)
    next
      case (Some segs)
      with True Cons.prems Cons.IH [of "chainsAcc @ [segs]" "allSegments @ segs"]
      show ?thesis by (simp add: Let_def)
    qed
  qed
qed

lemma analyzeWindowsShellCommand_invariant:
  "\<not> ok (analyzeWindowsShellCommand resolvePath cmd) \<Longrightarrow>
     segments (analyzeWindowsShellCommand resolvePath cmd) = []
     \<and> reason (analyzeWindowsShellCommand resolvePath cmd) \<noteq> None"
  by (auto simp: analyzeWindowsShellCommand_def split: option.splits if_splits)

lemma analyzeShellCommand_invariant:
  "\<not> ok (analyzeShellCommand splitArgs resolvePath cmd platform) \<Longrightarrow>
     segments (analyzeShellCommand splitArgs resolvePath cmd platform) = []
     \<and> reason (analyzeShellCommand splitArgs resolvePath cmd platform) \<noteq> None"
  using analyzeWindowsShellCommand_invariant [of resolvePath cmd]
    analyzeChainParts_invariant [of splitArgs resolvePath _ "[]" "[]"]
    splitShellPipeline_reason [of cmd]
  by (auto simp: analyzeShellCommand_def Let_def split: option.splits if_splits)

lemma analyzeArgvCommand_invariant:
  "\<not> ok (analyzeArgvCommand resolvePath args) \<Longrightarrow>
     segments (analyzeArgvCommand resolvePath args) = []
     \<and> reason (analyzeArgvCommand resolvePath args) \<noteq> None"
  by (auto simp: analyzeArgvCommand_def Let_def split: if_splits)

text \<open>
  C2. Whatever the input, the argument splitter and the resolver, a result of
  \<open>analyzeShellCommand\<close> (POSIX or Windows mode) or of \<open>analyzeArgvCommand\<close> with
  \<open>ok\<close> false has no segments and has its reason set.
\<close>

theorem analysis_failure_invariant:
  "(\<not> ok (analyzeShellCommand splitArgs resolvePath cmd platform) \<longrightarrow>
      segments (analyzeShellCommand splitArgs resolvePath cmd platform) = []
      \<and> reason (analyzeShellCommand splitArgs resolvePath cmd platform) \<noteq> None)
   \<and> (\<not> ok (analyzeArgvCommand resolvePath args) \<longrightarrow>
      segments (analyzeArgvCommand resolvePath args) = []
      \<and> reason (analyzeArgvCommand resolvePath args) \<noteq> None)"
  using analyzeShellCommand_invariant analyzeArgvCommand_invariant by blast

theorem analysis_failure_invariant_witness:
  "\<not> ok (analyzeShellCommand shellWords usrBin ''echo $(whoami)'' None)
   \<and> segments (analyzeShellCommand shellWords usrBin ''echo $(whoami)'' None) = []
   \<and> reason (analyzeShellCommand shellWords usrBin ''echo $(whoami)'' None) \<noteq> None
   \<and> \<not> ok (analyzeArgvCommand usrBin ['' ''])
   \<and> segments (analyzeArgvCommand usrBin ['' '']) = []
   \<and> reason (analyzeArgvCommand usrBin ['' '']) \<noteq> None"
proof -
  have a: "\<not> ok (analyzeShellCommand shellWords usrBin ''echo $(whoami)'' None)" by code_simp
  have b: "\<not> ok (analyzeArgvCommand usrBin ['' ''])" by code_simp
  show ?thesis
    using analysis_failure_invariant [of shellWords usrBin "''echo $(whoami)''" None "['' '']"] a b
    by blast
qed

subsection \<open>Empty pipeline segments\<close>

text \<open>
  C4 does not hold of the code. A pipe whose left or right side is blank is only
  rejected when the pipe is the very last character: \<open>emptySegment\<close> is cleared by
  any later character, blanks included, and \<open>pushPart\<close> drops a blank buffer without
  a trace. The inputs below are accepted, with the empty segment dropped.
\<close>

theorem splitShellPipeline_empty_segment_dropped:
  "splitShellPipeline ''a | | b'' =
     \<lparr>splitOk = True, splitReason = None, splitSegments = [''a'', ''b'']\<rparr>
   \<and> splitShellPipeline ''| cmd'' =
     \<lparr>splitOk = True, splitReason = None, splitSegments = [''cmd'']\<rparr>
   \<and> splitShellPipeline ''a | '' =
     \<lparr>splitOk = True, splitReason = None, splitSegments = [''a'']\<rparr>
   \<and> ok (analyzeShellCommand shellWords usrBin ''a | | b'' None)
   \<and> map argv (segments (analyzeShellCommand shellWords usrBin ''a | | b'' None)) = [[''a''], [''b'']]"
  by code_simp

subsection \<open>Heredocs\<close>

lemma splitLoop_plain:
  assumes "normalState st" "\<forall>c \<in> set xs. plainChar c"
  shows "splitLoop st (xs @ rest) =
         splitLoop (st\<lparr>buf := buf st @ xs, emptySegment := emptySegment st \<and> xs = []\<rparr>) rest"
  using assms
proof (induction xs arbitrary: st)
  case Nil
  then show ?case by simp
next
  case (Cons c xs)
  have step: "splitStep st c (xs @ rest) = Continue (st\<lparr>buf := buf st @ [c], emptySegment := False\<rparr>) 0"
    using Cons.prems
    by (simp add: splitStep_def normalStep_def normalState_def plainChar_def
        DISALLOWED_PIPELINE_TOKENS_def Let_def)
  have n: "normalState (st\<lparr>buf := buf st @ [c], emptySegment := False\<rparr>)"
    using Cons.prems(1) by (simp add: normalState_def)
  show ?case
    using Cons.IH [OF n] Cons.prems(2) by (simp add: step)
qed

lemma quotedDelimiter_closed:
  assumes "\<forall>c \<in> set d. c \<noteq> nl \<and> c \<noteq> cr \<and> c \<noteq> q \<and> c \<noteq> bsl" and "q = sq \<or> q = dq"
  shows "quotedDelimiter q (d @ q # rest) acc n = Some (acc @ d, n + length d + 1)"
  using assms
proof (induction d arbitrary: acc n)
  case Nil
  then show ?case by auto
next
  case (Cons c d)
  then show ?case by simp
qed

lemma delimiterChar_simps:
  assumes "delimiterChar c"
  shows "c \<noteq> nl" "c \<noteq> cr" "c \<noteq> sq" "c \<noteq> dq" "c \<noteq> bsl" "c \<noteq> CHR '' ''" "c \<noteq> tab"
    "\<not> bareDelimiterStop c"
  using assms by (auto simp: delimiterChar_def bareDelimiterStop_def is_space_def)

lemma parse_quoted:
  assumes sp: "\<forall>c \<in> set sp. c = CHR '' '' \<or> c = tab"
    and d: "\<forall>c \<in> set d. delimiterChar c" and q: "q = sq \<or> q = dq"
  shows "parseHeredocDelimiter (sp @ q # d @ q # rest) = Some (d, length sp + length d + 2, True)"
proof -
  have tw: "takeWhile (\<lambda>c. c = CHR '' '' \<or> c = tab) (sp @ q # d @ q # rest) = sp"
    using sp q by auto
  have dr: "drop (length sp) (sp @ q # d @ q # rest) = q # d @ q # rest" by simp
  have "\<forall>c \<in> set d. c \<noteq> nl \<and> c \<noteq> cr \<and> c \<noteq> q \<and> c \<noteq> bsl"
    using d q by (auto dest: delimiterChar_simps)
  then have qd: "quotedDelimiter q (d @ q # rest) [] (Suc (length sp)) = Some (d, Suc (Suc (length sp + length d)))"
    using quotedDelimiter_closed [of d q rest "[]" "length sp + 1"] q by simp
  show ?thesis
    unfolding parseHeredocDelimiter_def Let_def tw dr using q by (simp add: qd)
qed

lemma parse_bare:
  assumes sp: "\<forall>c \<in> set sp. c = CHR '' '' \<or> c = tab"
    and d: "\<forall>c \<in> set d. delimiterChar c" and ne: "d \<noteq> []"
  shows "parseHeredocDelimiter (sp @ d @ nl # rest) = Some (d, length sp + length d, False)"
proof -
  obtain c0 d' where dd: "d = c0 # d'" using ne by (cases d) auto
  have c0: "delimiterChar c0" using d dd by simp
  have tw: "takeWhile (\<lambda>c. c = CHR '' '' \<or> c = tab) (sp @ d @ nl # rest) = sp"
    using sp delimiterChar_simps(6,7) [OF c0] by (simp add: dd)
  have dr: "drop (length sp) (sp @ d @ nl # rest) = c0 # d' @ nl # rest" by (simp add: dd)
  have stop: "bareDelimiterStop nl" by (simp add: bareDelimiterStop_def is_space_def)
  have "\<forall>c \<in> set d. \<not> bareDelimiterStop c"
    using d by (auto dest: delimiterChar_simps)
  then have tw2: "takeWhile (\<lambda>ch. \<not> bareDelimiterStop ch) (d' @ nl # rest) = d'"
    using stop by (simp add: dd)
  show ?thesis
    unfolding parseHeredocDelimiter_def Let_def tw dr
    using delimiterChar_simps(3,4,8) [OF c0] by (simp add: tw2 dd)
qed

lemma splitLoop_heredoc_operator:
  assumes n: "normalState st"
    and p: "parseHeredocDelimiter (pre @ post) = Some (d, length pre, qd)"
    and nostrip: "pre @ post \<noteq> [] \<Longrightarrow> hd (pre @ post) \<noteq> CHR ''-''"
  shows "splitLoop st (CHR ''<'' # CHR ''<'' # pre @ post) =
         splitLoop (st\<lparr>buf := buf st @ ''<<'' @ pre, emptySegment := False,
                       pendingHeredocs := pendingHeredocs st
                          @ [\<lparr>delimiter = d, stripTabs = False, quoted = qd\<rparr>]\<rparr>) post"
proof -
  have strip: "(case pre @ post of [] \<Rightarrow> False | c # _ \<Rightarrow> c = CHR ''-'') = False"
    using nostrip by (cases "pre @ post") auto
  have op: "heredocOperatorStep st (pre @ post) =
      Continue (st\<lparr>buf := buf st @ ''<<'' @ pre, emptySegment := False,
                       pendingHeredocs := pendingHeredocs st
                          @ [\<lparr>delimiter = d, stripTabs = False, quoted = qd\<rparr>]\<rparr>)
        (1 + length pre)"
    unfolding heredocOperatorStep_def Let_def strip by (simp add: p)
  have step: "splitStep st CHR ''<'' (CHR ''<'' # pre @ post) = heredocOperatorStep st (pre @ post)"
    using n by (simp add: splitStep_def normalStep_def normalState_def Let_def)
  show ?thesis
    by (simp add: step op)
qed

lemma splitLoop_newline_pending:
  assumes "normalState st" "pendingHeredocs st \<noteq> []"
  shows "splitLoop st (nl # rest) = splitLoop (st\<lparr>inHeredocBody := True, heredocLine := []\<rparr>) rest"
proof -
  have "splitStep st nl rest = Continue (st\<lparr>inHeredocBody := True, heredocLine := []\<rparr>) 0"
    using assms
    by (simp add: splitStep_def normalStep_def normalState_def Let_def crlfSkip_def)
  then show ?thesis by simp
qed

lemma splitLoop_body_chars:
  assumes "inHeredocBody st" "nl \<notin> set l" "cr \<notin> set l"
  shows "splitLoop st (l @ rest) = splitLoop (st\<lparr>heredocLine := heredocLine st @ l\<rparr>) rest"
  using assms
proof (induction l arbitrary: st)
  case Nil
  then show ?case by simp
next
  case (Cons c l)
  have step: "splitStep st c (l @ rest) = Continue (st\<lparr>heredocLine := heredocLine st @ [c]\<rparr>) 0"
    using Cons.prems by (auto simp: splitStep_def heredocBodyStep_def Let_def)
  have b: "inHeredocBody (st\<lparr>heredocLine := heredocLine st @ [c]\<rparr>)"
    using Cons.prems(1) by simp
  show ?case
    using Cons.IH [OF b] Cons.prems(2,3) by (simp add: step)
qed

lemma splitLoop_body_line_end:
  assumes "inHeredocBody st" "pendingHeredocs st = cur # others"
    and "tabStripped cur (heredocLine st) \<noteq> delimiter cur"
  shows "splitLoop st (nl # rest) =
     (if \<not> quoted cur \<and> hasUnquotedHeredocExpansionToken (heredocLine st)
      then Inl ''command substitution in unquoted heredoc''
      else splitLoop (st\<lparr>heredocLine := []\<rparr>) rest)"
proof -
  have "splitStep st nl rest =
     (if \<not> quoted cur \<and> hasUnquotedHeredocExpansionToken (heredocLine st)
      then Reject ''command substitution in unquoted heredoc''
      else Continue (st\<lparr>heredocLine := []\<rparr>) 0)"
    using assms
    by (simp add: splitStep_def heredocBodyStep_def Let_def crlfSkip_def tabStripped_def)
  then show ?thesis by simp
qed

lemma clear_line: "heredocLine st = [] \<Longrightarrow> st\<lparr>heredocLine := []\<rparr> = st"
  by (cases st) simp

lemma splitLoop_body_line:
  assumes b: "inHeredocBody st" "pendingHeredocs st = cur # others" "heredocLine st = []"
    and l: "nl \<notin> set l" "cr \<notin> set l" "tabStripped cur l \<noteq> delimiter cur"
  shows "splitLoop st (l @ nl # rest) =
     (if \<not> quoted cur \<and> hasUnquotedHeredocExpansionToken l
      then Inl ''command substitution in unquoted heredoc''
      else splitLoop st rest)"
proof -
  let ?st = "st\<lparr>heredocLine := heredocLine st @ l\<rparr>"
  have "splitLoop st (l @ nl # rest) = splitLoop ?st (nl # rest)"
    using splitLoop_body_chars [OF b(1) l(1,2)] .
  also have "\<dots> = (if \<not> quoted cur \<and> hasUnquotedHeredocExpansionToken l
      then Inl ''command substitution in unquoted heredoc''
      else splitLoop (?st\<lparr>heredocLine := []\<rparr>) rest)"
    using splitLoop_body_line_end [of ?st cur others rest] b l(3) by simp
  also have "?st\<lparr>heredocLine := []\<rparr> = st"
    using clear_line [OF b(3)] by simp
  finally show ?thesis .
qed

lemma splitLoop_body_literal:
  assumes b: "inHeredocBody st" "pendingHeredocs st = cur # others" "heredocLine st = []"
    and ls: "\<forall>l \<in> set ls. nl \<notin> set l \<and> cr \<notin> set l \<and> tabStripped cur l \<noteq> delimiter cur"
    and lit: "quoted cur \<or> \<not> (\<exists>l \<in> set ls. hasUnquotedHeredocExpansionToken l)"
  shows "splitLoop st (heredocBody ls @ rest) = splitLoop st rest"
  using ls lit
proof (induction ls)
  case Nil
  then show ?case by (simp add: heredocBody_def)
next
  case (Cons l ls)
  have "splitLoop st (heredocBody (l # ls) @ rest) = splitLoop st (l @ nl # heredocBody ls @ rest)"
    by (simp add: heredocBody_def)
  also have "\<dots> = splitLoop st (heredocBody ls @ rest)"
    using splitLoop_body_line [OF b, of l "heredocBody ls @ rest"] Cons.prems by auto
  also have "\<dots> = splitLoop st rest"
    using Cons.IH Cons.prems by auto
  finally show ?case .
qed

lemma splitLoop_body_scanned:
  assumes b: "inHeredocBody st" "pendingHeredocs st = cur # others" "heredocLine st = []"
    and ls: "\<forall>l \<in> set ls. nl \<notin> set l \<and> cr \<notin> set l \<and> tabStripped cur l \<noteq> delimiter cur"
    and unq: "\<not> quoted cur" and tok: "\<exists>l \<in> set ls. hasUnquotedHeredocExpansionToken l"
  shows "splitLoop st (heredocBody ls @ rest) = Inl ''command substitution in unquoted heredoc''"
  using ls tok
proof (induction ls)
  case Nil
  then show ?case by simp
next
  case (Cons l ls)
  have eq: "splitLoop st (heredocBody (l # ls) @ rest) = splitLoop st (l @ nl # heredocBody ls @ rest)"
    by (simp add: heredocBody_def)
  show ?case
  proof (cases "hasUnquotedHeredocExpansionToken l")
    case True
    then show ?thesis
      unfolding eq using splitLoop_body_line [OF b, of l "heredocBody ls @ rest"] Cons.prems(1) unq
      by simp
  next
    case False
    then have "splitLoop st (l @ nl # heredocBody ls @ rest) = splitLoop st (heredocBody ls @ rest)"
      using splitLoop_body_line [OF b, of l "heredocBody ls @ rest"] Cons.prems(1) by simp
    moreover have "\<exists>l \<in> set ls. hasUnquotedHeredocExpansionToken l"
      using Cons.prems(2) False by simp
    ultimately show ?thesis
      unfolding eq using Cons.IH Cons.prems(1) by simp
  qed
qed

lemma heredoc_header:
  assumes h: "\<forall>c \<in> set h. plainChar c"
    and p: "parseHeredocDelimiter (pre @ nl # body) = Some (d, length pre, qd)"
    and nostrip: "hd (pre @ nl # body) \<noteq> CHR ''-''"
  shows "splitLoop initialSplitState (h @ ''<<'' @ pre @ nl # body) =
         splitLoop (initialSplitState
                     \<lparr>buf := h @ ''<<'' @ pre,
                      pendingHeredocs := [\<lparr>delimiter = d, stripTabs = False, quoted = qd\<rparr>],
                      inHeredocBody := True\<rparr>) body"
proof -
  let ?s1 = "initialSplitState\<lparr>buf := h\<rparr>"
  have n0: "normalState initialSplitState"
    by (simp add: normalState_def initialSplitState_def)
  have "splitLoop initialSplitState (h @ ''<<'' @ pre @ nl # body) =
        splitLoop ?s1 (CHR ''<'' # CHR ''<'' # pre @ nl # body)"
    using splitLoop_plain [OF n0 h, of "''<<'' @ pre @ nl # body"]
    by (simp add: initialSplitState_def)
  also have "\<dots> = splitLoop (?s1\<lparr>buf := buf ?s1 @ ''<<'' @ pre, emptySegment := False,
                       pendingHeredocs := pendingHeredocs ?s1
                          @ [\<lparr>delimiter = d, stripTabs = False, quoted = qd\<rparr>]\<rparr>) (nl # body)"
    by (rule splitLoop_heredoc_operator)
      (use p nostrip in \<open>simp_all add: normalState_def initialSplitState_def\<close>)
  also have "\<dots> = splitLoop (initialSplitState
                     \<lparr>buf := h @ ''<<'' @ pre,
                      pendingHeredocs := [\<lparr>delimiter = d, stripTabs = False, quoted = qd\<rparr>],
                      inHeredocBody := True\<rparr>) body"
    by (subst splitLoop_newline_pending)
      (simp_all add: normalState_def initialSplitState_def)
  finally show ?thesis .
qed

lemma heredoc_finish:
  assumes "\<exists>c \<in> set b. \<not> is_space c"
  shows "splitFinish (initialSplitState
                     \<lparr>buf := b,
                      pendingHeredocs := [\<lparr>delimiter = d, stripTabs = False, quoted = qd\<rparr>],
                      inHeredocBody := True, heredocLine := d\<rparr>) =
         \<lparr>splitOk = True, splitReason = None, splitSegments = [trim b]\<rparr>"
proof -
  have "trim b \<noteq> []" using assms trim_eq_Nil by blast
  then show ?thesis
    by (simp add: splitFinish_def pushPart_def initialSplitState_def Let_def)
qed

lemma heredoc_accepted:
  assumes h: "\<forall>c \<in> set h. plainChar c"
    and p: "parseHeredocDelimiter (pre @ nl # heredocBody ls @ d) = Some (d, length pre, qd)"
    and nostrip: "hd (pre @ nl # heredocBody ls @ d) \<noteq> CHR ''-''"
    and d: "\<forall>c \<in> set d. delimiterChar c"
    and ls: "\<forall>l \<in> set ls. nl \<notin> set l \<and> cr \<notin> set l \<and> l \<noteq> d"
    and lit: "qd \<or> \<not> (\<exists>l \<in> set ls. hasUnquotedHeredocExpansionToken l)"
  shows "splitShellPipeline (h @ ''<<'' @ pre @ nl # heredocBody ls @ d) =
         \<lparr>splitOk = True, splitReason = None, splitSegments = [trim (h @ ''<<'' @ pre)]\<rparr>"
proof -
  let ?cur = "\<lparr>delimiter = d, stripTabs = False, quoted = qd\<rparr>"
  let ?st = "initialSplitState\<lparr>buf := h @ ''<<'' @ pre, pendingHeredocs := [?cur],
                inHeredocBody := True\<rparr>"
  have dn: "nl \<notin> set d" "cr \<notin> set d"
    using d by (auto dest: delimiterChar_simps)
  have "splitLoop initialSplitState (h @ ''<<'' @ pre @ nl # heredocBody ls @ d) =
        splitLoop ?st (heredocBody ls @ d)"
    using heredoc_header [OF h p nostrip] .
  also have "\<dots> = splitLoop ?st d"
    by (rule splitLoop_body_literal [where cur = ?cur and others = "[]"])
      (use ls lit in \<open>simp_all add: initialSplitState_def tabStripped_def\<close>)
  also have "\<dots> = Inr (?st\<lparr>heredocLine := d\<rparr>)"
    using splitLoop_body_chars [of ?st d "[]"] dn by (simp add: initialSplitState_def)
  finally have loop: "splitLoop initialSplitState (h @ ''<<'' @ pre @ nl # heredocBody ls @ d) =
        Inr (?st\<lparr>heredocLine := d\<rparr>)" .
  have ns: "\<exists>c \<in> set (h @ ''<<'' @ pre). \<not> is_space c"
    by (auto simp: is_space_def)
  show ?thesis
    unfolding splitShellPipeline_def loop using heredoc_finish [OF ns, of d qd] by simp
qed

lemma heredoc_rejected:
  assumes h: "\<forall>c \<in> set h. plainChar c"
    and p: "parseHeredocDelimiter (pre @ nl # heredocBody ls @ d) = Some (d, length pre, False)"
    and nostrip: "hd (pre @ nl # heredocBody ls @ d) \<noteq> CHR ''-''"
    and ls: "\<forall>l \<in> set ls. nl \<notin> set l \<and> cr \<notin> set l \<and> l \<noteq> d"
    and tok: "\<exists>l \<in> set ls. hasUnquotedHeredocExpansionToken l"
  shows "splitShellPipeline (h @ ''<<'' @ pre @ nl # heredocBody ls @ d) =
         rejected ''command substitution in unquoted heredoc''"
proof -
  let ?cur = "\<lparr>delimiter = d, stripTabs = False, quoted = False\<rparr>"
  let ?st = "initialSplitState\<lparr>buf := h @ ''<<'' @ pre, pendingHeredocs := [?cur],
                inHeredocBody := True\<rparr>"
  have "splitLoop initialSplitState (h @ ''<<'' @ pre @ nl # heredocBody ls @ d) =
        splitLoop ?st (heredocBody ls @ d)"
    using heredoc_header [OF h p nostrip] .
  also have "\<dots> = Inl ''command substitution in unquoted heredoc''"
    by (rule splitLoop_body_scanned [where cur = ?cur and others = "[]"])
      (use ls tok in \<open>simp_all add: initialSplitState_def tabStripped_def\<close>)
  finally show ?thesis
    by (simp add: splitShellPipeline_def)
qed

lemma analyzeShellCommand_single_pipeline:
  assumes "\<not> isWindowsPlatform platform" "splitCommandChain cmd = None"
  shows "analyzeShellCommand splitArgs resolvePath cmd platform =
     (if \<not> splitOk (splitShellPipeline cmd)
      then \<lparr>ok = False, reason = splitReason (splitShellPipeline cmd), segments = [], chains = None\<rparr>
      else case parseSegmentsFromParts splitArgs resolvePath (splitSegments (splitShellPipeline cmd)) of
             None \<Rightarrow> \<lparr>ok = False, reason = Some ''unable to parse shell segment'',
                       segments = [], chains = None\<rparr>
           | Some segs \<Rightarrow> \<lparr>ok = True, reason = None, segments = segs, chains = None\<rparr>)"
  using assms by (simp add: analyzeShellCommand_def Let_def)

lemma hasUnquotedHeredocExpansionToken_iff:
  "hasUnquotedHeredocExpansionToken line \<longleftrightarrow> containsUnescapedExpansion line"
proof -
  have "hasUnquotedHeredocExpansionToken line \<longleftrightarrow>
     (\<exists>i < length line.
        (line ! i = btick \<and> unescapedAt line i)
        \<or> (line ! i = CHR ''$'' \<and> unescapedAt line i \<and> i + 1 < length line
            \<and> (line ! (i + 1) = CHR ''('' \<or> line ! (i + 1) = CHR ''{'')))"
    unfolding hasUnquotedHeredocExpansionToken_def list_ex_iff unescapedAt_def
      isEscapedInHeredocLine_def
    by (simp add: Bex_def)
  also have "\<dots> \<longleftrightarrow> containsUnescapedExpansion line"
    unfolding containsUnescapedExpansion_def by (intro ex_cong1) auto
  finally show ?thesis .
qed

lemma heredoc_family:
  assumes h: "\<forall>c \<in> set h. plainChar c"
    and sp: "\<forall>c \<in> set sp. c = CHR '' '' \<or> c = tab"
    and d: "\<forall>c \<in> set d. delimiterChar c" "d \<noteq> []" "hd d \<noteq> CHR ''-''"
    and q: "q = sq \<or> q = dq"
    and ls: "\<forall>l \<in> set ls. nl \<notin> set l \<and> cr \<notin> set l \<and> l \<noteq> d"
  shows "splitShellPipeline (h @ ''<<'' @ sp @ [q] @ d @ [q] @ [nl] @ heredocBody ls @ d) =
           \<lparr>splitOk = True, splitReason = None,
            splitSegments = [trim (h @ ''<<'' @ sp @ [q] @ d @ [q])]\<rparr>
         \<and> ((\<exists>l \<in> set ls. containsUnescapedExpansion l) \<longrightarrow>
              splitShellPipeline (h @ ''<<'' @ sp @ d @ [nl] @ heredocBody ls @ d) =
                \<lparr>splitOk = False,
                 splitReason = Some ''command substitution in unquoted heredoc'',
                 splitSegments = []\<rparr>)
         \<and> (\<not> (\<exists>l \<in> set ls. containsUnescapedExpansion l) \<longrightarrow>
              splitShellPipeline (h @ ''<<'' @ sp @ d @ [nl] @ heredocBody ls @ d) =
                \<lparr>splitOk = True, splitReason = None,
                 splitSegments = [trim (h @ ''<<'' @ sp @ d)]\<rparr>)"
proof -
  have pq: "parseHeredocDelimiter ((sp @ q # d @ [q]) @ nl # heredocBody ls @ d) =
        Some (d, length (sp @ q # d @ [q]), True)"
    using parse_quoted [OF sp d(1) q, of "nl # heredocBody ls @ d"] by simp
  have pb: "parseHeredocDelimiter ((sp @ d) @ nl # heredocBody ls @ d) =
        Some (d, length (sp @ d), False)"
    using parse_bare [OF sp d(1,2), of "heredocBody ls @ d"] by simp
  have nsq: "hd ((sp @ q # d @ [q]) @ nl # heredocBody ls @ d) \<noteq> CHR ''-''"
    using sp q by (cases sp) auto
  have nsb: "hd ((sp @ d) @ nl # heredocBody ls @ d) \<noteq> CHR ''-''"
    using sp d(2,3) by (cases sp) auto
  have one: "splitShellPipeline (h @ ''<<'' @ (sp @ q # d @ [q]) @ nl # heredocBody ls @ d) =
           \<lparr>splitOk = True, splitReason = None,
            splitSegments = [trim (h @ ''<<'' @ (sp @ q # d @ [q]))]\<rparr>"
    by (rule heredoc_accepted [OF h pq nsq d(1) ls]) simp
  have two: "splitShellPipeline (h @ ''<<'' @ (sp @ d) @ nl # heredocBody ls @ d) =
                rejected ''command substitution in unquoted heredoc''"
    if "\<exists>l \<in> set ls. hasUnquotedHeredocExpansionToken l"
    by (rule heredoc_rejected [OF h pb nsb ls that])
  have three: "splitShellPipeline (h @ ''<<'' @ (sp @ d) @ nl # heredocBody ls @ d) =
           \<lparr>splitOk = True, splitReason = None,
            splitSegments = [trim (h @ ''<<'' @ (sp @ d))]\<rparr>"
    if "\<not> (\<exists>l \<in> set ls. hasUnquotedHeredocExpansionToken l)"
    by (rule heredoc_accepted [OF h pb nsb d(1) ls]) (use that in simp)
  show ?thesis
    using one two three by (simp add: rejected_def hasUnquotedHeredocExpansionToken_iff)
qed

subsection \<open>The chain splitter and the quoting automaton\<close>

lemma splitMode_flags:
  "splitMode st Unquoted \<Longrightarrow>
     \<not> inHeredocBody st \<and> \<not> escaped st \<and> pendingHeredocs st = [] \<and> \<not> inSingle st \<and> \<not> inDouble st"
  "splitMode st SingleQuoted \<Longrightarrow>
     \<not> inHeredocBody st \<and> \<not> escaped st \<and> pendingHeredocs st = [] \<and> inSingle st \<and> \<not> inDouble st"
  "splitMode st DoubleQuoted \<Longrightarrow>
     \<not> inHeredocBody st \<and> \<not> escaped st \<and> pendingHeredocs st = [] \<and> \<not> inSingle st \<and> inDouble st"
  by (auto simp: splitMode_def)

lemma split_single:
  assumes "splitMode st SingleQuoted"
  shows "splitStep st c cs =
     Continue (st\<lparr>inSingle := (c \<noteq> sq), buf := buf st @ [c], emptySegment := False\<rparr>) 0"
  using splitMode_flags(2) [OF assms] by (simp add: splitStep_def Let_def)

lemma split_escape:
  assumes "splitMode st Unquoted"
  shows "splitLoop st (bsl # c2 # cs) =
         splitLoop (st\<lparr>buf := buf st @ [bsl, c2], emptySegment := False\<rparr>) cs"
proof -
  note f = splitMode_flags(1) [OF assms]
  have 1: "splitStep st bsl (c2 # cs) =
      Continue (st\<lparr>escaped := True, buf := buf st @ [bsl], emptySegment := False\<rparr>) 0"
    using f by (simp add: splitStep_def Let_def)
  have 2: "splitStep (st\<lparr>escaped := True, buf := buf st @ [bsl], emptySegment := False\<rparr>) c2 cs =
      Continue (st\<lparr>buf := buf st @ [bsl, c2], emptySegment := False, escaped := False\<rparr>) 0"
    using f by (simp add: splitStep_def Let_def)
  have e: "st\<lparr>buf := buf st @ [bsl, c2], emptySegment := False, escaped := False\<rparr> =
     st\<lparr>buf := buf st @ [bsl, c2], emptySegment := False\<rparr>"
    using f by (cases st) simp
  show ?thesis by (simp add: 1 2 e)
qed

lemma chainMode_flags:
  "chainMode st Unquoted \<Longrightarrow> \<not> chainEscaped st \<and> \<not> chainInSingle st \<and> \<not> chainInDouble st"
  "chainMode st SingleQuoted \<Longrightarrow> \<not> chainEscaped st \<and> chainInSingle st \<and> \<not> chainInDouble st"
  "chainMode st DoubleQuoted \<Longrightarrow> \<not> chainEscaped st \<and> \<not> chainInSingle st \<and> chainInDouble st"
  by (auto simp: chainMode_def)

lemma chain_single:
  assumes "chainMode st SingleQuoted"
  shows "chainLoop st (c # r) =
         chainLoop (st\<lparr>chainInSingle := (c \<noteq> sq), chainBuf := chainBuf st @ [c]\<rparr>) r"
  using chainMode_flags(2) [OF assms] by (simp add: chainStep_def Let_def)

lemma chain_escape_pair:
  assumes "chainMode st Unquoted"
  shows "chainLoop st (bsl # c2 # r) = chainLoop (st\<lparr>chainBuf := chainBuf st @ [bsl, c2]\<rparr>) r"
proof -
  note f = chainMode_flags(1) [OF assms]
  have e: "st\<lparr>chainBuf := chainBuf st @ [bsl, c2], chainEscaped := False\<rparr> =
     st\<lparr>chainBuf := chainBuf st @ [bsl, c2]\<rparr>"
    using f by (cases st) simp
  show ?thesis
    using f by (simp add: chainStep_def Let_def e)
qed

lemma chain_escape_end:
  assumes "chainMode st Unquoted"
  shows "chainLoop st [bsl] = st\<lparr>chainEscaped := True, chainBuf := chainBuf st @ [bsl]\<rparr>"
  using chainMode_flags(1) [OF assms] by (simp add: chainStep_def Let_def)

lemma chain_double_escape_pair:
  assumes "chainMode st DoubleQuoted"
  shows "chainLoop st (bsl # c2 # r) = chainLoop (st\<lparr>chainBuf := chainBuf st @ [bsl, c2]\<rparr>) r"
proof -
  note f = chainMode_flags(3) [OF assms]
  show ?thesis
  proof (cases "c2 \<in> set DOUBLE_QUOTE_ESCAPES")
    case True
    then show ?thesis
      using f by (simp add: chainStep_def Let_def isDoubleQuoteEscape_def)
  next
    case False
    then have c2: "c2 \<noteq> bsl" "c2 \<noteq> dq"
      by (auto simp: DOUBLE_QUOTE_ESCAPES_def)
    have e: "st\<lparr>chainInDouble := True, chainBuf := chainBuf st @ [bsl, c2]\<rparr> =
       st\<lparr>chainBuf := chainBuf st @ [bsl, c2]\<rparr>"
      using f by (cases st) simp
    show ?thesis
      using f False c2 by (simp add: chainStep_def Let_def isDoubleQuoteEscape_def e)
  qed
qed

lemma chain_double_escape_end:
  assumes "chainMode st DoubleQuoted"
  shows "chainLoop st [bsl] = st\<lparr>chainBuf := chainBuf st @ [bsl]\<rparr>"
proof -
  note f = chainMode_flags(3) [OF assms]
  have e: "st\<lparr>chainInDouble := True, chainBuf := chainBuf st @ [bsl]\<rparr> =
     st\<lparr>chainBuf := chainBuf st @ [bsl]\<rparr>"
    using f by (cases st) simp
  show ?thesis
    using f by (simp add: chainStep_def Let_def isDoubleQuoteEscape_def e)
qed

lemma chain_double_char:
  assumes "chainMode st DoubleQuoted" "c \<noteq> bsl"
  shows "chainLoop st (c # r) =
         chainLoop (st\<lparr>chainInDouble := (c \<noteq> dq), chainBuf := chainBuf st @ [c]\<rparr>) r"
  using chainMode_flags(3) [OF assms(1)] assms(2) by (simp add: chainStep_def Let_def)

lemma chain_plain_char:
  assumes "chainMode st Unquoted" "c \<noteq> bsl" "c \<noteq> CHR '';''"
    and "\<not> (c = CHR ''&'' \<and> take 1 r = ''&'')" "\<not> (c = CHR ''|'' \<and> take 1 r = ''|'')"
  shows "chainLoop st (c # r) =
         chainLoop (if c = sq then st\<lparr>chainInSingle := True, chainBuf := chainBuf st @ [c]\<rparr>
                    else if c = dq then st\<lparr>chainInDouble := True, chainBuf := chainBuf st @ [c]\<rparr>
                    else st\<lparr>chainBuf := chainBuf st @ [c]\<rparr>) r"
proof -
  note f = chainMode_flags(1) [OF assms(1)]
  have next_eq: "(case r of [] \<Rightarrow> None | n # _ \<Rightarrow> Some n) = Some x \<longleftrightarrow> take 1 r = [x]" for x
    by (cases r) auto
  have step: "chainStep st c r =
     (if c = sq then st\<lparr>chainInSingle := True, chainBuf := chainBuf st @ [c]\<rparr>
      else if c = dq then st\<lparr>chainInDouble := True, chainBuf := chainBuf st @ [c]\<rparr>
      else st\<lparr>chainBuf := chainBuf st @ [c]\<rparr>, 0)"
    using f assms(2-) by (simp add: chainStep_def Let_def next_eq)
  show ?thesis
    by (simp add: step)
qed

lemma chain_operator_pair:
  assumes "chainMode st Unquoted" "c = CHR ''&'' \<or> c = CHR ''|''"
  shows "chainLoop st (c # c # r) =
         chainLoop (pushChainPart st (if c = CHR ''&'' then AndAnd else OrOr)) r"
  using chainMode_flags(1) [OF assms(1)] assms(2) by (auto simp: chainStep_def Let_def)

lemma chain_semicolon:
  assumes "chainMode st Unquoted"
  shows "chainLoop st (CHR '';'' # r) = chainLoop (pushChainPart st Semi) r"
  using chainMode_flags(1) [OF assms(1)] by (auto simp: chainStep_def Let_def)

lemma space_chars:
  assumes "is_space c"
  shows "c \<noteq> bsl" "c \<noteq> sq" "c \<noteq> dq" "c \<noteq> btick" "c \<noteq> CHR ''$''" "c \<noteq> CHR ''(''"
    "c \<noteq> CHR ''<''"
  using assms by (auto simp: is_space_def)

lemma take1_space: "\<forall>c \<in> set ws. is_space c \<Longrightarrow> take 1 ws \<noteq> ''(''"
  by (cases ws) (auto dest: space_chars)

lemma trim_decomp:
  "\<exists>ws1 ws2. b = ws1 @ trim b @ ws2 \<and> (\<forall>c \<in> set ws1. is_space c) \<and> (\<forall>c \<in> set ws2. is_space c)"
proof -
  obtain ws2 where 2: "dropWhile is_space b = trim b @ ws2" "\<forall>c \<in> set ws2. is_space c"
    using rstrip_prefix [of "dropWhile is_space b" is_space] by (auto simp: trim_def)
  have "b = takeWhile is_space b @ dropWhile is_space b" by simp
  then have "b = takeWhile is_space b @ trim b @ ws2" using 2(1) by simp
  moreover have "\<forall>c \<in> set (takeWhile is_space b). is_space c"
    by (auto dest: set_takeWhileD)
  ultimately show ?thesis using 2(2) by blast
qed

lemma lexRun_simps [simp]:
  "lexRun s [] = s"
  "lexRun s (c # cs) = lexRun (lexStep s c) cs"
  "lexRun s (xs @ ys) = lexRun (lexRun s xs) ys"
  by (simp_all add: lexRun_def)

lemma lexOf_inject [simp]: "lexOf m = lexOf m' \<longleftrightarrow> m = m'"
  by (cases m; cases m') simp_all

lemma lexOf_not_escape [simp]:
  "LexEscape \<noteq> lexOf m" "LexDoubleEscape \<noteq> lexOf m"
  by (cases m; simp)+

lemma analyzeChainParts_rejects:
  "\<exists>p \<in> set ps. \<not> splitOk (splitShellPipeline p) \<Longrightarrow>
     \<not> ok (analyzeChainParts splitArgs resolvePath ps chainsAcc allSegments)"
proof (induction ps arbitrary: chainsAcc allSegments)
  case Nil
  then show ?case by simp
next
  case (Cons p ps)
  show ?case
  proof (cases "splitOk (splitShellPipeline p)")
    case False
    then show ?thesis by (simp add: Let_def)
  next
    case True
    with Cons.prems have "\<exists>p \<in> set ps. \<not> splitOk (splitShellPipeline p)" by simp
    from Cons.IH [OF this] True show ?thesis
      by (simp add: Let_def split: option.splits)
  qed
qed

subsection \<open>The heredoc-aware scan\<close>

lemma quotedDelimiter_word:
  "quotedDelimiter q cs acc n =
     (case quotedWord q cs of None \<Rightarrow> None | Some (d, k) \<Rightarrow> Some (acc @ d, n + k))"
proof (induction q cs acc n rule: quotedDelimiter.induct)
  case (1 quote acc n)
  then show ?case by simp
next
  case (2 quote ch rest acc n)
  show ?case
  proof (cases "ch = nl \<or> ch = cr")
    case True
    then show ?thesis by simp
  next
    case nonl: False
    show ?thesis
    proof (cases "quote = dq \<and> ch = bsl \<and> rest \<noteq> []")
      case True
      then obtain e rest' where r: "rest = e # rest'" by (cases rest) auto
      show ?thesis
        using nonl True r "2.IH"(1) [OF nonl True r]
        by (auto split: option.splits)
    next
      case noesc: False
      show ?thesis
      proof (cases "ch = quote")
        case True
        then show ?thesis using nonl noesc by auto
      next
        case False
        show ?thesis
          using nonl noesc False "2.IH"(2) [OF nonl noesc False]
          by (cases rest) (auto split: option.splits)
      qed
    qed
  qed
qed

lemma parseHeredocDelimiter_word: "parseHeredocDelimiter s = heredocWord s"
  unfolding parseHeredocDelimiter_def heredocWord_def Let_def
  by (auto simp: quotedDelimiter_word wordEnd_def bareDelimiterStop_def
      split: list.splits option.splits)

lemma next_char:
  "(case cs of [] \<Rightarrow> None | n # _ \<Rightarrow> Some n) = Some x \<longleftrightarrow> take 1 cs = [x]"
  by (cases cs) auto

lemma crlf_drop:
  "drop (crlfSkip c (case cs of [] \<Rightarrow> None | n # _ \<Rightarrow> Some n)) cs =
     (if c = cr \<and> take 1 cs = [nl] then drop 1 cs else cs)"
  by (cases cs) (auto simp: crlfSkip_def)

lemma substitutionInLine_token:
  "substitutionInLine line \<Longrightarrow> hasUnquotedHeredocExpansionToken line"
  unfolding hasUnquotedHeredocExpansionToken_iff containsUnescapedExpansion_def
    substitutionInLine_def
  by (auto intro: Suc_lessD)

lemma liveState_flags:
  "liveState st m pend None \<Longrightarrow>
     \<not> escaped st \<and> pendingHeredocs st = pend \<and> \<not> inHeredocBody st
     \<and> (inSingle st \<longleftrightarrow> m = SingleQuoted) \<and> (inDouble st \<longleftrightarrow> m = DoubleQuoted)"
  "liveState st m pend (Some line) \<Longrightarrow>
     \<not> escaped st \<and> pendingHeredocs st = pend \<and> inHeredocBody st \<and> heredocLine st = line
     \<and> \<not> inSingle st \<and> \<not> inDouble st \<and> m = Unquoted"
  by (simp_all add: liveState_def)

lemma live_body_char:
  assumes "liveState st m pend (Some line)" "c \<noteq> nl" "c \<noteq> cr"
  shows "\<exists>st'. splitStep st c cs = Continue st' 0 \<and> liveState st' m pend (Some (line @ [c]))"
  using liveState_flags(2) [OF assms(1)] assms(2,3)
  by (auto simp: splitStep_def heredocBodyStep_def Let_def liveState_def)

lemma live_body_end:
  assumes l: "liveState st m pend (Some line)" and c: "c = nl \<or> c = cr"
  shows "(\<exists>r. splitStep st c cs = Reject r)
       \<or> (\<exists>st' k. splitStep st c cs = Continue st' k
             \<and> drop k cs = (if c = cr \<and> take 1 cs = [nl] then drop 1 cs else cs)
             \<and> (case pend of
                   [] \<Rightarrow> liveState st' m pend None
                 | cur # others \<Rightarrow>
                     if tabStripped cur line = delimiter cur
                     then liveState st' m others (if others = [] then None else Some [])
                     else \<not> (\<not> quoted cur \<and> substitutionInLine line)
                          \<and> liveState st' m pend (Some [])))"
proof -
  note f = liveState_flags(2) [OF l]
  let ?k = "crlfSkip c (case cs of [] \<Rightarrow> None | n # _ \<Rightarrow> Some n)"
  have step: "splitStep st c cs = heredocBodyStep st c (case cs of [] \<Rightarrow> None | n # _ \<Rightarrow> Some n)"
    using f by (simp add: splitStep_def Let_def)
  show ?thesis
  proof (cases pend)
    case Nil
    let ?st = "st\<lparr>heredocLine := [], inHeredocBody := False\<rparr>"
    have "splitStep st c cs = Continue ?st ?k"
      unfolding step using f c Nil by (simp add: heredocBodyStep_def Let_def)
    moreover have "liveState ?st m pend None"
      using f Nil by (simp add: liveState_def)
    ultimately show ?thesis
      using crlf_drop [of c cs] Nil by auto
  next
    case (Cons cur others)
    show ?thesis
    proof (cases "tabStripped cur line = delimiter cur")
      case True
      let ?st = "st\<lparr>pendingHeredocs := others, heredocLine := [],
                     inHeredocBody := (others \<noteq> [])\<rparr>"
      have "splitStep st c cs = Continue ?st ?k"
        unfolding step using f c Cons True
        by (auto simp: heredocBodyStep_def Let_def tabStripped_def)
      moreover have "liveState ?st m others (if others = [] then None else Some [])"
        using f by (simp add: liveState_def)
      ultimately show ?thesis
        using crlf_drop [of c cs] Cons True by auto
    next
      case False
      show ?thesis
      proof (cases "\<not> quoted cur \<and> hasUnquotedHeredocExpansionToken line")
        case True
        then have "splitStep st c cs = Reject ''command substitution in unquoted heredoc''"
          unfolding step using f c Cons False
          by (auto simp: heredocBodyStep_def Let_def tabStripped_def)
        then show ?thesis by blast
      next
        case tok: False
        let ?st = "st\<lparr>heredocLine := [], inHeredocBody := inHeredocBody st\<rparr>"
        have "splitStep st c cs = Continue ?st ?k"
          unfolding step using f c Cons False tok
          by (auto simp: heredocBodyStep_def Let_def tabStripped_def)
        moreover have "liveState ?st m pend (Some [])"
          using f by (simp add: liveState_def)
        moreover have "\<not> (\<not> quoted cur \<and> substitutionInLine line)"
          using tok substitutionInLine_token by blast
        ultimately show ?thesis
          using crlf_drop [of c cs] Cons False by auto
      qed
    qed
  qed
qed

lemma live_single_step:
  assumes "liveState st SingleQuoted pend None"
  shows "\<exists>st'. splitStep st c cs = Continue st' 0
           \<and> liveState st' (if c = sq then Unquoted else SingleQuoted) pend None"
  using liveState_flags(1) [OF assms]
  by (auto simp: splitStep_def Let_def liveState_def)

lemma live_double_step:
  assumes m: "liveState st DoubleQuoted pend None"
  shows "(c = bsl \<and> cs \<noteq> [] \<and> hd cs \<in> set DOUBLE_QUOTE_ESCAPES \<longrightarrow>
            (\<exists>st'. splitStep st c cs = Continue st' 1 \<and> liveState st' DoubleQuoted pend None))
       \<and> (\<not> (c = bsl \<and> cs \<noteq> [] \<and> hd cs \<in> set DOUBLE_QUOTE_ESCAPES) \<longrightarrow>
            (\<exists>r. splitStep st c cs = Reject r)
            \<or> (\<exists>st'. splitStep st c cs = Continue st' 0
                  \<and> c \<noteq> btick \<and> \<not> (c = CHR ''$'' \<and> take 1 cs = ''('')
                  \<and> liveState st' (if c = dq then Unquoted else DoubleQuoted) pend None))"
proof -
  have esc: "isDoubleQuoteEscape (case cs of [] \<Rightarrow> None | n # _ \<Rightarrow> Some n) \<longleftrightarrow>
      cs \<noteq> [] \<and> hd cs \<in> set DOUBLE_QUOTE_ESCAPES"
    by (cases cs) (auto simp: isDoubleQuoteEscape_def)
  have st: "\<not> inHeredocBody st" "\<not> escaped st" "\<not> inSingle st" "inDouble st"
    using liveState_flags(1) [OF m] by simp_all
  show ?thesis
    by (auto simp: splitStep_def doubleQuoteStep_def Let_def st next_char esc liveState_def
        liveState_flags(1) [OF m])
qed

lemma live_escape:
  assumes "liveState st Unquoted pend None"
  shows "\<exists>st'. splitLoop st (bsl # c2 # cs) = splitLoop st' cs \<and> liveState st' Unquoted pend None"
proof -
  note f = liveState_flags(1) [OF assms]
  let ?s1 = "st\<lparr>escaped := True, buf := buf st @ [bsl], emptySegment := False\<rparr>"
  let ?s2 = "?s1\<lparr>buf := buf ?s1 @ [c2], escaped := False, emptySegment := False\<rparr>"
  have 1: "splitStep st bsl (c2 # cs) = Continue ?s1 0"
    using f by (simp add: splitStep_def Let_def)
  have 2: "splitStep ?s1 c2 cs = Continue ?s2 0"
    using f by (simp add: splitStep_def Let_def)
  have "liveState ?s2 Unquoted pend None"
    using f by (simp add: liveState_def)
  then show ?thesis
    using 1 2 by (intro exI [of _ ?s2]) simp
qed

lemma live_token_rejected:
  assumes "liveState st m pend None" "m \<noteq> SingleQuoted"
    and "c = btick \<or> (c = CHR ''$'' \<and> take 1 cs = ''('')"
  shows "\<exists>r. splitStep st c cs = Reject r"
proof (cases m)
  case Unquoted
  then show ?thesis
    using liveState_flags(1) [OF assms(1)] assms(3)
    by (auto simp: splitStep_def normalStep_def Let_def next_char DISALLOWED_PIPELINE_TOKENS_def)
next
  case SingleQuoted
  then show ?thesis using assms(2) by simp
next
  case DoubleQuoted
  then show ?thesis
    using liveState_flags(1) [OF assms(1)] assms(3)
    by (auto simp: splitStep_def doubleQuoteStep_def Let_def next_char isDoubleQuoteEscape_def
        DOUBLE_QUOTE_ESCAPES_def split: list.splits)
qed

lemma live_newline_pending:
  assumes "liveState st Unquoted pend None" "c = nl \<or> c = cr" "pend \<noteq> []"
  shows "\<exists>st' k. splitStep st c cs = Continue st' k
           \<and> drop k cs = (if c = cr \<and> take 1 cs = [nl] then drop 1 cs else cs)
           \<and> liveState st' Unquoted pend (Some [])"
proof -
  note f = liveState_flags(1) [OF assms(1)]
  let ?st = "st\<lparr>inHeredocBody := True, heredocLine := []\<rparr>"
  let ?k = "crlfSkip c (case cs of [] \<Rightarrow> None | n # _ \<Rightarrow> Some n)"
  have "splitStep st c cs = Continue ?st ?k"
    using f assms(2,3) by (auto simp: splitStep_def normalStep_def Let_def)
  moreover have "liveState ?st Unquoted pend (Some [])"
    using f by (simp add: liveState_def)
  ultimately show ?thesis
    using crlf_drop [of c cs] by blast
qed

lemma live_heredoc_operator:
  assumes l: "liveState st Unquoted pend None" and c: "take 1 cs = ''<''"
  shows "\<exists>st' k. splitStep st CHR ''<'' cs = Continue st' k
     \<and> (case heredocWord (drop (if take 1 (drop 1 cs) = ''-'' then 2 else 1) cs) of
          Some (d, n, q) \<Rightarrow>
            drop k cs = drop n (drop (if take 1 (drop 1 cs) = ''-'' then 2 else 1) cs)
            \<and> liveState st' Unquoted
                 (pend @ [\<lparr>delimiter = d, stripTabs = (take 1 (drop 1 cs) = ''-''), quoted = q\<rparr>]) None
        | None \<Rightarrow> drop k cs = drop 1 cs \<and> liveState st' Unquoted pend None)"
proof -
  note f = liveState_flags(1) [OF l]
  define after where "after = drop 1 cs"
  define strip where "strip = (take 1 after = ''-'')"
  define word where "word = (if strip then drop 1 after else after)"
  have strip': "(case after of [] \<Rightarrow> False | x # _ \<Rightarrow> x = CHR ''-'') = strip"
    by (cases after) (auto simp: strip_def)
  have word': "drop (if take 1 (drop 1 cs) = ''-'' then 2 else 1) cs = word"
    by (simp add: word_def strip_def after_def numeral_2_eq_2)
  have step: "splitStep st CHR ''<'' cs = heredocOperatorStep st after"
    using f c by (simp add: splitStep_def normalStep_def Let_def next_char after_def)
  let ?st1 = "st\<lparr>buf := buf st @ ''<<'' @ (if strip then ''-'' else []), emptySegment := False\<rparr>"
  show ?thesis
  proof (cases "heredocWord word")
    case None
    have "heredocOperatorStep st after = Continue ?st1 1"
      unfolding heredocOperatorStep_def Let_def strip' word_def [symmetric]
      by (simp add: parseHeredocDelimiter_word None)
    moreover have "liveState ?st1 Unquoted pend None"
      using f by (simp add: liveState_def)
    ultimately show ?thesis
      unfolding word' step using None by auto
  next
    case (Some r)
    obtain d n q where r: "r = (d, n, q)" by (cases r)
    let ?st2 = "?st1\<lparr>pendingHeredocs :=
                       pendingHeredocs ?st1 @ [\<lparr>delimiter = d, stripTabs = strip, quoted = q\<rparr>],
                     buf := buf ?st1 @ take n word\<rparr>"
    have "heredocOperatorStep st after = Continue ?st2 (1 + (if strip then 1 else 0) + n)"
      unfolding heredocOperatorStep_def Let_def strip' word_def [symmetric]
      by (simp add: parseHeredocDelimiter_word Some r)
    moreover have "liveState ?st2 Unquoted
        (pend @ [\<lparr>delimiter = d, stripTabs = strip, quoted = q\<rparr>]) None"
      using f by (simp add: liveState_def)
    moreover have "drop (1 + (if strip then 1 else 0) + n) cs = drop n word"
      by (simp add: word_def after_def add.commute)
    ultimately show ?thesis
      unfolding word' step using Some r by (auto simp: strip_def after_def)
  qed
qed

lemma live_unquoted_other:
  assumes l: "liveState st Unquoted pend None" and c: "c \<noteq> bsl"
    and nn: "\<not> ((c = nl \<or> c = cr) \<and> pend \<noteq> [])"
    and nh: "\<not> (c = CHR ''<'' \<and> take 1 cs = ''<'')"
  shows "(\<exists>r. splitStep st c cs = Reject r)
       \<or> (\<exists>st'. splitStep st c cs = Continue st' 0
             \<and> liveState st' (if c = sq then SingleQuoted
                               else if c = dq then DoubleQuoted else Unquoted) pend None)"
proof -
  note f = liveState_flags(1) [OF l]
  have st: "\<not> inHeredocBody st" "\<not> escaped st" "\<not> inSingle st" "\<not> inDouble st"
    using f by simp_all
  show ?thesis
    using c nn nh f
    by (auto simp: splitStep_def normalStep_def Let_def st next_char liveState_def pushPart_def
        DISALLOWED_PIPELINE_TOKENS_def)
qed

lemma live_rejected:
  "liveSubstitution m pend body cs \<Longrightarrow> liveState st m pend body \<Longrightarrow>
     \<exists>r. splitLoop st cs = Inl r"
proof (induction m pend body cs arbitrary: st rule: liveSubstitution.induct)
  case (1 m pend body)
  then show ?case by simp
next
  case (2 m pend line c cs)
  let ?rest = "if c = cr \<and> take 1 cs = [nl] then drop 1 cs else cs"
  show ?case
  proof (cases "c = nl \<or> c = cr")
    case False
    from live_body_char [OF "2.prems"(2), of c cs] False obtain st' where
      s: "splitStep st c cs = Continue st' 0" "liveState st' m pend (Some (line @ [c]))"
      by auto
    have "liveSubstitution m pend (Some (line @ [c])) cs"
      using "2.prems"(1) False by simp
    from "2.IH"(4) [OF False this s(2)] show ?thesis
      by (simp add: s(1))
  next
    case True
    from live_body_end [OF "2.prems"(2) True, of cs]
    show ?thesis
    proof
      assume "\<exists>r. splitStep st c cs = Reject r"
      then show ?thesis by auto
    next
      assume "\<exists>st' k. splitStep st c cs = Continue st' k
             \<and> drop k cs = ?rest
             \<and> (case pend of
                   [] \<Rightarrow> liveState st' m pend None
                 | cur # others \<Rightarrow>
                     if tabStripped cur line = delimiter cur
                     then liveState st' m others (if others = [] then None else Some [])
                     else \<not> (\<not> quoted cur \<and> substitutionInLine line)
                          \<and> liveState st' m pend (Some []))"
      then obtain st' k where s: "splitStep st c cs = Continue st' k" "drop k cs = ?rest"
        and n: "case pend of
                   [] \<Rightarrow> liveState st' m pend None
                 | cur # others \<Rightarrow>
                     if tabStripped cur line = delimiter cur
                     then liveState st' m others (if others = [] then None else Some [])
                     else \<not> (\<not> quoted cur \<and> substitutionInLine line)
                          \<and> liveState st' m pend (Some [])"
        by blast
      have "\<exists>r. splitLoop st' ?rest = Inl r"
      proof (cases pend)
        case Nil
        have "liveSubstitution m pend None ?rest"
          using "2.prems"(1) True Nil by simp
        from "2.IH"(1) [OF True Nil this] n Nil show ?thesis by simp
      next
        case (Cons cur others)
        show ?thesis
        proof (cases "tabStripped cur line = delimiter cur")
          case eq: True
          have "liveSubstitution m others (if others = [] then None else Some []) ?rest"
            using "2.prems"(1) True Cons eq by simp
          from "2.IH"(2) [OF True Cons eq this] n Cons eq show ?thesis by simp
        next
          case ne: False
          have tok: "\<not> (\<not> quoted cur \<and> substitutionInLine line)"
            and l': "liveState st' m pend (Some [])"
            using n Cons ne by simp_all
          have "liveSubstitution m pend (Some []) ?rest"
            using "2.prems"(1) True Cons ne tok by simp
          from "2.IH"(3) [OF True Cons ne tok this l'] show ?thesis .
        qed
      qed
      then show ?thesis
        using s by simp
    qed
  qed
next
  case (3 pend c cs)
  from live_single_step [OF "3.prems"(2), of c cs] obtain st' where
    s: "splitStep st c cs = Continue st' 0"
    "liveState st' (if c = sq then Unquoted else SingleQuoted) pend None"
    by auto
  have "liveSubstitution (if c = sq then Unquoted else SingleQuoted) pend None cs"
    using "3.prems"(1) by simp
  from "3.IH" [OF this s(2)] show ?case by (simp add: s(1))
next
  case (4 pend c cs)
  show ?case
  proof (cases "c = bsl \<and> cs \<noteq> [] \<and> hd cs \<in> set DOUBLE_QUOTE_ESCAPES")
    case True
    with live_double_step [OF "4.prems"(2), of c cs]
    obtain st' where s: "splitStep st c cs = Continue st' 1" "liveState st' DoubleQuoted pend None"
      by auto
    have "liveSubstitution DoubleQuoted pend None (drop 1 cs)"
      using "4.prems"(1) True by simp
    from "4.IH"(1) [OF True this s(2)] show ?thesis by (simp add: s(1))
  next
    case False
    show ?thesis
    proof (cases "c = btick \<or> (c = CHR ''$'' \<and> take 1 cs = ''('')")
      case True
      from live_token_rejected [OF "4.prems"(2) _ True] show ?thesis by auto
    next
      case tok: False
      from live_double_step [OF "4.prems"(2), of c cs] False
      have "(\<exists>r. splitStep st c cs = Reject r)
            \<or> (\<exists>st'. splitStep st c cs = Continue st' 0
                  \<and> liveState st' (if c = dq then Unquoted else DoubleQuoted) pend None)"
        by blast
      then show ?thesis
      proof
        assume "\<exists>r. splitStep st c cs = Reject r"
        then show ?thesis by auto
      next
        assume "\<exists>st'. splitStep st c cs = Continue st' 0
                  \<and> liveState st' (if c = dq then Unquoted else DoubleQuoted) pend None"
        then obtain st' where s: "splitStep st c cs = Continue st' 0"
          "liveState st' (if c = dq then Unquoted else DoubleQuoted) pend None"
          by blast
        have "liveSubstitution (if c = dq then Unquoted else DoubleQuoted) pend None cs"
          using "4.prems"(1) False tok by simp
        from "4.IH"(2) [OF False tok this s(2)] show ?thesis by (simp add: s(1))
      qed
    qed
  qed
next
  case (5 pend c cs)
  show ?case
  proof (cases "c = bsl")
    case True
    with "5.prems"(1) obtain c2 cs' where cs: "cs = c2 # cs'"
      by (cases cs) auto
    from live_escape [OF "5.prems"(2), of c2 cs'] obtain st' where
      s: "splitLoop st (bsl # c2 # cs') = splitLoop st' cs'" "liveState st' Unquoted pend None"
      by blast
    have "liveSubstitution Unquoted pend None (drop 1 cs)"
      using "5.prems"(1) True by simp
    from "5.IH"(1) [OF True this, of st'] s(2) show ?thesis
      using s(1) True cs by simp
  next
    case nb: False
    show ?thesis
    proof (cases "c = btick \<or> (c = CHR ''$'' \<and> take 1 cs = ''('')")
      case True
      from live_token_rejected [OF "5.prems"(2) _ True] show ?thesis by auto
    next
      case tok: False
      show ?thesis
      proof (cases "(c = nl \<or> c = cr) \<and> pend \<noteq> []")
        case True
        let ?rest = "if c = cr \<and> take 1 cs = [nl] then drop 1 cs else cs"
        from live_newline_pending [OF "5.prems"(2), of c cs] True obtain st' k where
          s: "splitStep st c cs = Continue st' k" "drop k cs = ?rest"
          "liveState st' Unquoted pend (Some [])"
          by blast
        have "liveSubstitution Unquoted pend (Some []) ?rest"
          using "5.prems"(1) nb tok True by (auto split: if_splits)
        from "5.IH"(2) [OF nb tok True this s(3)] show ?thesis
          using s(1,2) by simp
      next
        case nn: False
        show ?thesis
        proof (cases "c = CHR ''<'' \<and> take 1 cs = ''<''")
          case True
          let ?strip = "take 1 (drop 1 cs) = ''-''"
          let ?word = "drop (if ?strip then 2 else 1) cs"
          have unfold: "liveSubstitution Unquoted pend None (c # cs) =
              (case heredocWord ?word of
                 Some (d, n, q) \<Rightarrow>
                   liveSubstitution Unquoted
                     (pend @ [\<lparr>delimiter = d, stripTabs = ?strip, quoted = q\<rparr>]) None
                     (drop n ?word)
               | None \<Rightarrow> liveSubstitution Unquoted pend None (drop 1 cs))"
            using nb tok nn True by (simp add: Let_def split: option.splits)
          note live = "5.prems"(1) [unfolded unfold]
          from live_heredoc_operator [OF "5.prems"(2), of cs] True obtain st' k where
            s: "splitStep st c cs = Continue st' k"
            and n: "case heredocWord ?word of
                Some (d, n, q) \<Rightarrow>
                  drop k cs = drop n ?word
                  \<and> liveState st' Unquoted
                       (pend @ [\<lparr>delimiter = d, stripTabs = ?strip, quoted = q\<rparr>]) None
              | None \<Rightarrow> drop k cs = drop 1 cs \<and> liveState st' Unquoted pend None"
            by blast
          have "\<exists>r. splitLoop st' (drop k cs) = Inl r"
          proof (cases "heredocWord ?word")
            case None
            have l1: "liveSubstitution Unquoted pend None (drop 1 cs)"
              using live unfolding None by simp
            have l2: "drop k cs = drop 1 cs" "liveState st' Unquoted pend None"
              using n unfolding None by simp_all
            from "5.IH"(3) [OF nb tok nn True refl refl None l1 l2(2)] show ?thesis
              unfolding l2(1) .
          next
            case (Some r)
            obtain d j q where r: "r = (d, j, q)" by (cases r)
            have l1: "liveSubstitution Unquoted
                     (pend @ [\<lparr>delimiter = d, stripTabs = ?strip, quoted = q\<rparr>]) None (drop j ?word)"
              using live unfolding Some r by simp
            have l2: "drop k cs = drop j ?word"
              "liveState st' Unquoted
                       (pend @ [\<lparr>delimiter = d, stripTabs = ?strip, quoted = q\<rparr>]) None"
              using n unfolding Some r by simp_all
            have "\<exists>r. splitLoop st' (drop j ?word) = Inl r"
              by (rule "5.IH"(4) [OF nb tok nn True refl refl Some _ _ l1 l2(2)])
                (simp_all add: r)
            then show ?thesis unfolding l2(1) .
          qed
          then show ?thesis using s by simp
        next
          case nh: False
          from live_unquoted_other [OF "5.prems"(2) nb nn nh]
          show ?thesis
          proof
            assume "\<exists>r. splitStep st c cs = Reject r"
            then show ?thesis by auto
          next
            assume "\<exists>st'. splitStep st c cs = Continue st' 0
               \<and> liveState st' (if c = sq then SingleQuoted
                               else if c = dq then DoubleQuoted else Unquoted) pend None"
            then obtain st' where s: "splitStep st c cs = Continue st' 0"
              "liveState st' (if c = sq then SingleQuoted
                               else if c = dq then DoubleQuoted else Unquoted) pend None"
              by blast
            have "liveSubstitution (if c = sq then SingleQuoted
                               else if c = dq then DoubleQuoted else Unquoted) pend None cs"
              using "5.prems"(1) nb tok nn nh by simp
            from "5.IH"(5) [OF nb tok nn nh this s(2)] show ?thesis by (simp add: s(1))
          qed
        qed
      qed
    qed
  qed
qed

lemma live_pipeline_rejected:
  assumes "liveSubstitution Unquoted [] None cmd"
  shows "\<not> splitOk (splitShellPipeline cmd)"
proof -
  have "liveState initialSplitState Unquoted [] None"
    by (simp add: liveState_def initialSplitState_def)
  from live_rejected [OF assms this] obtain r where "splitLoop initialSplitState cmd = Inl r" ..
  then show ?thesis by (simp add: splitShellPipeline_def rejected_def)
qed

lemma before_heredoc_live:
  "exposedBeforeHeredoc m cs \<Longrightarrow> liveSubstitution m [] None cs"
proof (induction m cs rule: exposedBeforeHeredoc.induct)
  case (1 m)
  then show ?case by simp
next
  case (2 c cs)
  then show ?case by simp
next
  case (3 c cs)
  then show ?case by (auto split: if_splits)
next
  case (4 c cs)
  then show ?case by (auto split: if_splits)
qed

lemma no_chain_operator:
  "\<not> chainOperatorExposed m cs \<Longrightarrow> chainMode st m \<Longrightarrow>
     foundChain (chainLoop st cs) = foundChain st"
proof (induction m cs arbitrary: st rule: chainOperatorExposed.induct)
  case (1 m)
  then show ?case by simp
next
  case (2 c cs)
  let ?st = "st\<lparr>chainInSingle := (c \<noteq> sq), chainBuf := chainBuf st @ [c]\<rparr>"
  have m': "chainMode ?st (if c = sq then Unquoted else SingleQuoted)"
    using chainMode_flags(2) [OF "2.prems"(2)] by (simp add: chainMode_def)
  show ?case
    using "2.IH" [OF _ m'] "2.prems"(1) chain_single [OF "2.prems"(2), of c cs] by simp
next
  case (3 c cs)
  note f = chainMode_flags(3) [OF "3.prems"(2)]
  show ?case
  proof (cases "c = bsl")
    case True
    show ?thesis
    proof (cases cs)
      case Nil
      then show ?thesis
        using chain_double_escape_end [OF "3.prems"(2)] True by simp
    next
      case (Cons c2 cs')
      let ?st = "st\<lparr>chainBuf := chainBuf st @ [bsl, c2]\<rparr>"
      have loop: "chainLoop st (c # cs) = chainLoop ?st cs'"
        using chain_double_escape_pair [OF "3.prems"(2), of c2 cs'] True Cons by simp
      have m': "chainMode ?st DoubleQuoted"
        using "3.prems"(2) by (simp add: chainMode_def)
      show ?thesis
      proof (cases "c2 \<in> set DOUBLE_QUOTE_ESCAPES")
        case esc: True
        have "\<not> chainOperatorExposed DoubleQuoted (drop 1 cs)"
          using "3.prems"(1) True Cons esc by simp
        from "3.IH"(1) [OF _ this, of ?st] m' True Cons esc show ?thesis
          unfolding loop by simp
      next
        case esc: False
        then have c2: "c2 \<noteq> bsl" "c2 \<noteq> dq" by (auto simp: DOUBLE_QUOTE_ESCAPES_def)
        have n1: "\<not> chainOperatorExposed DoubleQuoted cs"
          using "3.prems"(1) True Cons esc by simp
        then have n2: "\<not> chainOperatorExposed DoubleQuoted cs'"
          using Cons c2 by (simp split: if_splits)
        let ?s1 = "st\<lparr>chainInDouble := (c \<noteq> dq), chainBuf := chainBuf st @ [c]\<rparr>"
        have m1: "chainMode ?s1 (if c = dq then Unquoted else DoubleQuoted)"
          using f True by (simp add: chainMode_def)
        have n1': "\<not> chainOperatorExposed (if c = dq then Unquoted else DoubleQuoted) cs"
          using n1 True by simp
        have ne: "\<not> (c = bsl \<and> cs \<noteq> [] \<and> hd cs \<in> set DOUBLE_QUOTE_ESCAPES)"
          using Cons esc by simp
        have "foundChain (chainLoop ?s1 cs) = foundChain ?s1"
          by (rule "3.IH"(2) [OF ne n1' m1])
        moreover have "chainLoop st (c # cs) = chainLoop ?s1 cs"
          using f True Cons esc
          by (simp add: chainStep_def Let_def isDoubleQuoteEscape_def)
        ultimately show ?thesis by simp
      qed
    qed
  next
    case False
    let ?st = "st\<lparr>chainInDouble := (c \<noteq> dq), chainBuf := chainBuf st @ [c]\<rparr>"
    have m': "chainMode ?st (if c = dq then Unquoted else DoubleQuoted)"
      using f by (simp add: chainMode_def)
    have "\<not> chainOperatorExposed (if c = dq then Unquoted else DoubleQuoted) cs"
      using "3.prems"(1) False by simp
    from "3.IH"(2) [OF _ this m'] False show ?thesis
      using chain_double_char [OF "3.prems"(2) False, of cs] by simp
  qed
next
  case (4 c cs)
  show ?case
  proof (cases "c = bsl")
    case True
    show ?thesis
    proof (cases cs)
      case Nil
      then show ?thesis
        using chain_escape_end [OF "4.prems"(2)] True by simp
    next
      case (Cons c2 cs')
      let ?st = "st\<lparr>chainBuf := chainBuf st @ [bsl, c2]\<rparr>"
      have m': "chainMode ?st Unquoted"
        using "4.prems"(2) by (simp add: chainMode_def)
      have "\<not> chainOperatorExposed Unquoted (drop 1 cs)"
        using "4.prems"(1) True by simp
      from "4.IH"(1) [OF True this m'] show ?thesis
        using chain_escape_pair [OF "4.prems"(2), of c2 cs'] True Cons by simp
    qed
  next
    case False
    have op: "\<not> (c = CHR '';'' \<or> (c = CHR ''&'' \<and> take 1 cs = ''&'')
              \<or> (c = CHR ''|'' \<and> take 1 cs = ''|''))"
      using "4.prems"(1) False by auto
    let ?st = "if c = sq then st\<lparr>chainInSingle := True, chainBuf := chainBuf st @ [c]\<rparr>
                    else if c = dq then st\<lparr>chainInDouble := True, chainBuf := chainBuf st @ [c]\<rparr>
                    else st\<lparr>chainBuf := chainBuf st @ [c]\<rparr>"
    let ?m = "if c = sq then SingleQuoted else if c = dq then DoubleQuoted else Unquoted"
    have loop: "chainLoop st (c # cs) = chainLoop ?st cs"
      using chain_plain_char [OF "4.prems"(2) False, of cs] op by simp
    have m': "chainMode ?st ?m"
      using chainMode_flags(1) [OF "4.prems"(2)] by (simp add: chainMode_def)
    have "\<not> chainOperatorExposed ?m cs"
      using "4.prems"(1) False op by (auto split: if_splits)
    from "4.IH"(2) [OF False op this m'] show ?thesis
      unfolding loop by (simp split: if_splits)
  qed
qed

lemma no_chain_operator_split:
  assumes "\<not> chainOperatorExposed Unquoted cmd"
  shows "splitCommandChain cmd = None"
proof -
  have "chainMode initialChainState Unquoted"
    by (simp add: chainMode_def initialChainState_def)
  from no_chain_operator [OF assms this]
  have "\<not> foundChain (chainLoop initialChainState cmd)"
    by (simp add: initialChainState_def)
  then show ?thesis
    by (simp add: splitCommandChain_def splitCommandChainWithOperators_def Let_def)
qed

subsection \<open>Heredocs in a whole command\<close>

lemma heredoc_family_analysis:
  assumes posix: "\<not> isWindowsPlatform platform"
    and h: "\<forall>c \<in> set h. plainChar c"
    and sp: "\<forall>c \<in> set sp. c = CHR '' '' \<or> c = tab"
    and d: "\<forall>c \<in> set d. delimiterChar c" "d \<noteq> []" "hd d \<noteq> CHR ''-''"
    and q: "q = sq \<or> q = dq"
    and ls: "\<forall>l \<in> set ls. nl \<notin> set l \<and> cr \<notin> set l \<and> l \<noteq> d"
  shows "(\<not> chainOperatorExposed Unquoted
              (h @ ''<<'' @ sp @ [q] @ d @ [q] @ [nl] @ heredocBody ls @ d)
          \<and> splitArgs (trim (h @ ''<<'' @ sp @ [q] @ d @ [q])) = Some args \<and> args \<noteq> [] \<longrightarrow>
            analyzeShellCommand splitArgs resolvePath
              (h @ ''<<'' @ sp @ [q] @ d @ [q] @ [nl] @ heredocBody ls @ d) platform =
              \<lparr>ok = True, reason = None,
               segments = [\<lparr>raw = trim (h @ ''<<'' @ sp @ [q] @ d @ [q]), argv = args,
                             resolution = resolveCommandResolutionFromArgv resolvePath args\<rparr>],
               chains = None\<rparr>)
       \<and> (\<not> chainOperatorExposed Unquoted (h @ ''<<'' @ sp @ d @ [nl] @ heredocBody ls @ d)
          \<and> (\<exists>l \<in> set ls. containsUnescapedExpansion l) \<longrightarrow>
            analyzeShellCommand splitArgs resolvePath
              (h @ ''<<'' @ sp @ d @ [nl] @ heredocBody ls @ d) platform =
              \<lparr>ok = False, reason = Some ''command substitution in unquoted heredoc'',
               segments = [], chains = None\<rparr>)"
proof -
  note fam = heredoc_family [OF h sp d q ls]
  let ?quoted = "h @ ''<<'' @ sp @ [q] @ d @ [q] @ [nl] @ heredocBody ls @ d"
  let ?bare = "h @ ''<<'' @ sp @ d @ [nl] @ heredocBody ls @ d"
  have one: "analyzeShellCommand splitArgs resolvePath ?quoted platform =
              \<lparr>ok = True, reason = None,
               segments = [\<lparr>raw = trim (h @ ''<<'' @ sp @ [q] @ d @ [q]), argv = args,
                             resolution = resolveCommandResolutionFromArgv resolvePath args\<rparr>],
               chains = None\<rparr>"
    if "\<not> chainOperatorExposed Unquoted ?quoted"
      "splitArgs (trim (h @ ''<<'' @ sp @ [q] @ d @ [q])) = Some args" "args \<noteq> []"
  proof -
    have c: "splitCommandChain ?quoted = None"
      by (rule no_chain_operator_split [OF that(1)])
    show ?thesis
      unfolding analyzeShellCommand_single_pipeline [OF posix c]
      using fam that(2,3) by simp
  qed
  have two: "analyzeShellCommand splitArgs resolvePath ?bare platform =
              \<lparr>ok = False, reason = Some ''command substitution in unquoted heredoc'',
               segments = [], chains = None\<rparr>"
    if "\<not> chainOperatorExposed Unquoted ?bare" "\<exists>l \<in> set ls. containsUnescapedExpansion l"
  proof -
    have c: "splitCommandChain ?bare = None"
      by (rule no_chain_operator_split [OF that(1)])
    show ?thesis
      unfolding analyzeShellCommand_single_pipeline [OF posix c]
      using fam that(2) by simp
  qed
  show ?thesis using one two by blast
qed

text \<open>
  C3, as the code has it. Inside a heredoc body, whatever the state of the segmenter
  otherwise, a line that is not the terminator of the current heredoc is taken
  literally when the delimiter was quoted, and is rejected with reason
  \<open>command substitution in unquoted heredoc\<close> when the delimiter was not quoted and
  the line contains an unescaped backtick, \<open>$(\<close> or \<open>${\<close>. For a whole command
  (plain command text, \<open><<\<close>, a delimiter, the body lines and the terminator) whose
  text has no \<open>;\<close>, \<open>&&\<close> or \<open>||\<close> outside quotes, \<open>analyzeShellCommand\<close> in
  POSIX mode gives: with a quoted delimiter the command is accepted whatever its
  body lines contain, as one segment whose raw text is the command up to the
  delimiter, provided the argument splitter splits that text; and the same command
  with the delimiter unquoted is rejected with exactly that reason, and no
  segments, as soon as one body line contains such a token.
\<close>

theorem heredoc_quoted_literal_unquoted_scanned:
  "(inHeredocBody st \<and> pendingHeredocs st = cur # others \<and> heredocLine st = []
      \<and> nl \<notin> set l \<and> cr \<notin> set l \<and> tabStripped cur l \<noteq> delimiter cur \<longrightarrow>
        (quoted cur \<longrightarrow> splitLoop st (l @ nl # rest) = splitLoop st rest)
      \<and> (\<not> quoted cur \<and> containsUnescapedExpansion l \<longrightarrow>
           splitLoop st (l @ nl # rest) = Inl ''command substitution in unquoted heredoc''))
   \<and> (\<not> isWindowsPlatform platform
      \<and> (\<forall>c \<in> set h. plainChar c) \<and> (\<forall>c \<in> set sp. c = CHR '' '' \<or> c = tab)
      \<and> (\<forall>c \<in> set d. delimiterChar c) \<and> d \<noteq> [] \<and> hd d \<noteq> CHR ''-'' \<and> (q = sq \<or> q = dq)
      \<and> (\<forall>l \<in> set ls. nl \<notin> set l \<and> cr \<notin> set l \<and> l \<noteq> d) \<longrightarrow>
        (\<not> chainOperatorExposed Unquoted
              (h @ ''<<'' @ sp @ [q] @ d @ [q] @ [nl] @ heredocBody ls @ d)
          \<and> splitArgs (trim (h @ ''<<'' @ sp @ [q] @ d @ [q])) = Some args \<and> args \<noteq> [] \<longrightarrow>
            analyzeShellCommand splitArgs resolvePath
              (h @ ''<<'' @ sp @ [q] @ d @ [q] @ [nl] @ heredocBody ls @ d) platform =
              \<lparr>ok = True, reason = None,
               segments = [\<lparr>raw = trim (h @ ''<<'' @ sp @ [q] @ d @ [q]), argv = args,
                             resolution = resolveCommandResolutionFromArgv resolvePath args\<rparr>],
               chains = None\<rparr>)
       \<and> (\<not> chainOperatorExposed Unquoted (h @ ''<<'' @ sp @ d @ [nl] @ heredocBody ls @ d)
          \<and> (\<exists>l \<in> set ls. containsUnescapedExpansion l) \<longrightarrow>
            analyzeShellCommand splitArgs resolvePath
              (h @ ''<<'' @ sp @ d @ [nl] @ heredocBody ls @ d) platform =
              \<lparr>ok = False, reason = Some ''command substitution in unquoted heredoc'',
               segments = [], chains = None\<rparr>))"
proof -
  have line: "(quoted cur \<longrightarrow> splitLoop st (l @ nl # rest) = splitLoop st rest)
      \<and> (\<not> quoted cur \<and> containsUnescapedExpansion l \<longrightarrow>
           splitLoop st (l @ nl # rest) = Inl ''command substitution in unquoted heredoc'')"
    if "inHeredocBody st" "pendingHeredocs st = cur # others" "heredocLine st = []"
      "nl \<notin> set l" "cr \<notin> set l" "tabStripped cur l \<noteq> delimiter cur"
    using splitLoop_body_line [OF that, of rest]
    by (simp add: hasUnquotedHeredocExpansionToken_iff)
  show ?thesis
    using line heredoc_family_analysis [of platform h sp d q ls splitArgs args resolvePath]
    by blast
qed

theorem heredoc_quoted_literal_unquoted_scanned_witness:
  "analyzeShellCommand shellWords usrBin
      (''/usr/bin/tee /tmp/f << '' @ [sq] @ ''EOF'' @ [sq, nl] @ ''$(id)'' @ [nl] @ ''EOF'') None =
     \<lparr>ok = True, reason = None,
      segments = [\<lparr>raw = ''/usr/bin/tee /tmp/f << '' @ [sq] @ ''EOF'' @ [sq],
                    argv = [''/usr/bin/tee'', ''/tmp/f'', ''<<'', ''EOF''],
                    resolution = resolveCommandResolutionFromArgv usrBin
                                   [''/usr/bin/tee'', ''/tmp/f'', ''<<'', ''EOF'']\<rparr>],
      chains = None\<rparr>
   \<and> analyzeShellCommand shellWords usrBin
      (''/usr/bin/tee /tmp/f << EOF'' @ [nl] @ ''$(id)'' @ [nl] @ ''EOF'') None =
     \<lparr>ok = False, reason = Some ''command substitution in unquoted heredoc'',
      segments = [], chains = None\<rparr>
   \<and> splitLoop (initialSplitState
        \<lparr>pendingHeredocs := [\<lparr>delimiter = ''EOF'', stripTabs = False, quoted = False\<rparr>],
         inHeredocBody := True\<rparr>) (''$(id)'' @ [nl] @ ''EOF'')
      = Inl ''command substitution in unquoted heredoc''"
proof -
  define st where "st = initialSplitState
        \<lparr>pendingHeredocs := [\<lparr>delimiter = ''EOF'', stripTabs = False, quoted = False\<rparr>],
         inHeredocBody := True\<rparr>"
  have posix: "\<not> isWindowsPlatform None" by code_simp
  have h: "\<forall>c \<in> set ''/usr/bin/tee /tmp/f ''. plainChar c" by code_simp
  have sp: "\<forall>c \<in> set '' ''. c = CHR '' '' \<or> c = tab" by simp
  have d: "\<forall>c \<in> set ''EOF''. delimiterChar c" "''EOF'' \<noteq> []" "hd ''EOF'' \<noteq> CHR ''-''"
    by code_simp+
  have q: "sq = sq \<or> sq = dq" by simp
  have ls: "\<forall>l \<in> set [''$(id)'']. nl \<notin> set l \<and> cr \<notin> set l \<and> l \<noteq> ''EOF''" by simp
  have tok: "containsUnescapedExpansion ''$(id)''"
    unfolding hasUnquotedHeredocExpansionToken_iff [symmetric] by code_simp
  have t: "trim (''/usr/bin/tee /tmp/f << '' @ [sq] @ ''EOF'' @ [sq]) =
      ''/usr/bin/tee /tmp/f << '' @ [sq] @ ''EOF'' @ [sq]" by code_simp
  have c: "\<not> chainOperatorExposed Unquoted
      (''/usr/bin/tee /tmp/f << '' @ [sq] @ ''EOF'' @ [sq, nl] @ ''$(id)'' @ [nl] @ ''EOF'')"
    "\<not> chainOperatorExposed Unquoted
      (''/usr/bin/tee /tmp/f << EOF'' @ [nl] @ ''$(id)'' @ [nl] @ ''EOF'')"
    by code_simp+
  have a: "shellWords (''/usr/bin/tee /tmp/f << '' @ [sq] @ ''EOF'' @ [sq]) =
      Some [''/usr/bin/tee'', ''/tmp/f'', ''<<'', ''EOF'']"
    by code_simp
  have s: "inHeredocBody st"
    "pendingHeredocs st = \<lparr>delimiter = ''EOF'', stripTabs = False, quoted = False\<rparr> # []"
    "heredocLine st = []"
    "tabStripped \<lparr>delimiter = ''EOF'', stripTabs = False, quoted = False\<rparr> ''$(id)''
       \<noteq> delimiter \<lparr>delimiter = ''EOF'', stripTabs = False, quoted = False\<rparr>"
    by (simp_all add: st_def initialSplitState_def tabStripped_def)
  show ?thesis
    using heredoc_quoted_literal_unquoted_scanned
      [of st "\<lparr>delimiter = ''EOF'', stripTabs = False, quoted = False\<rparr>" "[]" "''$(id)''"
          "''EOF''" None "''/usr/bin/tee /tmp/f ''" "'' ''" "''EOF''" sq "[''$(id)'']"
          shellWords "[''/usr/bin/tee'', ''/tmp/f'', ''<<'', ''EOF'']" usrBin]
      posix h sp d q ls tok s c t a
    unfolding st_def [symmetric]
    by (simp add: heredocBody_def)
qed

text \<open>
  C3 as stated fails when a body line holds a chain operator outside quotes. The
  chain splitter runs first and follows quotes but not heredocs: it cuts the
  command inside the body, the first part is a heredoc without its terminator, and
  the analysis fails with \<open>unterminated heredoc\<close>. This happens with a quoted
  delimiter, where the body should be accepted literally, and with an unquoted
  delimiter and a substitution in a later body line, where the reason should be
  \<open>command substitution in unquoted heredoc\<close>.
\<close>

theorem heredoc_chain_operator_counterexample:
  "\<not> isWindowsPlatform None
   \<and> analyzeShellCommand shellWords usrBin
       (''cat <<'' @ [sq] @ ''EOF'' @ [sq, nl] @ ''a; b'' @ [nl] @ ''EOF'') None =
     \<lparr>ok = False, reason = Some ''unterminated heredoc'', segments = [], chains = None\<rparr>
   \<and> containsUnescapedExpansion ''$(id)''
   \<and> analyzeShellCommand shellWords usrBin
       (''cat <<EOF'' @ [nl] @ ''a; b'' @ [nl] @ ''$(id)'' @ [nl] @ ''EOF'') None =
     \<lparr>ok = False, reason = Some ''unterminated heredoc'', segments = [], chains = None\<rparr>"
  by code_simp

subsection \<open>Substitutions through the chain splitter\<close>

lemma before_leading_space:
  "\<forall>c \<in> set ws. is_space c \<Longrightarrow>
     exposedBeforeHeredoc Unquoted (ws @ xs) = exposedBeforeHeredoc Unquoted xs"
proof (induction ws)
  case Nil
  then show ?case by simp
next
  case (Cons w ws)
  then have w: "is_space w" by simp
  have "take 1 (ws @ xs) \<noteq> ''('' \<or> w \<noteq> CHR ''$''"
    using space_chars(5) [OF w] by simp
  then show ?case
    using Cons space_chars [OF w] by auto
qed

lemma before_only_space:
  "\<forall>c \<in> set ws. is_space c \<Longrightarrow> \<not> exposedBeforeHeredoc m ws"
proof (induction ws arbitrary: m)
  case Nil
  then show ?case by simp
next
  case (Cons w ws)
  then have w: "is_space w" by simp
  show ?case
    using Cons space_chars [OF w] by (cases m) auto
qed

lemma before_strip_trailing:
  "exposedBeforeHeredoc m (xs @ ws) \<Longrightarrow> \<forall>c \<in> set ws. is_space c \<Longrightarrow> exposedBeforeHeredoc m xs"
proof (induction m xs rule: exposedBeforeHeredoc.induct)
  case (1 m)
  then show ?case using before_only_space by auto
next
  case (2 c cs)
  then show ?case by simp
next
  case (3 c cs)
  show ?case
  proof (cases cs)
    case Nil
    have "\<not> exposedBeforeHeredoc DoubleQuoted (drop 1 ws)"
      using "3.prems"(2) by (intro before_only_space) (auto dest: in_set_dropD)
    moreover have "\<not> exposedBeforeHeredoc m' ws" for m'
      using "3.prems"(2) by (rule before_only_space)
    ultimately show ?thesis
      using "3.prems" take1_space [OF "3.prems"(2)] Nil by (auto split: if_splits)
  next
    case (Cons c2 cs')
    then show ?thesis
      using "3.prems" "3.IH" by (auto split: if_splits)
  qed
next
  case (4 c cs)
  show ?case
  proof (cases cs)
    case Nil
    have "\<not> exposedBeforeHeredoc Unquoted (drop 1 ws)"
      using "4.prems"(2) by (intro before_only_space) (auto dest: in_set_dropD)
    moreover have "\<not> exposedBeforeHeredoc m' ws" for m'
      using "4.prems"(2) by (rule before_only_space)
    ultimately show ?thesis
      using "4.prems" take1_space [OF "4.prems"(2)] Nil by (auto split: if_splits)
  next
    case (Cons c2 cs')
    then show ?thesis
      using "4.prems" "4.IH" by (auto split: if_splits)
  qed
qed

lemma before_trim:
  assumes "exposedBeforeHeredoc Unquoted b"
  shows "exposedBeforeHeredoc Unquoted (trim b)"
proof -
  obtain ws1 ws2 where d: "b = ws1 @ trim b @ ws2" "\<forall>c \<in> set ws1. is_space c"
    "\<forall>c \<in> set ws2. is_space c"
    using trim_decomp by blast
  have "exposedBeforeHeredoc Unquoted (ws1 @ trim b @ ws2)" using assms d(1) by simp
  then have "exposedBeforeHeredoc Unquoted (trim b @ ws2)"
    using before_leading_space [OF d(2)] by simp
  then show ?thesis
    using before_strip_trailing d(3) by blast
qed

lemma before_split:
  "lexRun (lexOf m0) b = lexOf m1 \<Longrightarrow> ys = [] \<or> hd ys \<noteq> CHR ''('' \<Longrightarrow>
     exposedBeforeHeredoc m0 (b @ ys) \<Longrightarrow>
     exposedBeforeHeredoc m0 b \<or> exposedBeforeHeredoc m1 ys"
proof (induction m0 b rule: exposedBeforeHeredoc.induct)
  case (1 m)
  then show ?case by simp
next
  case (2 c cs)
  then show ?case by (simp split: if_splits)
next
  case (3 c cs)
  show ?case
  proof (cases "c = bsl")
    case True
    then obtain c2 cs' where cs: "cs = c2 # cs'"
      using "3.prems"(1) by (cases cs) auto
    show ?thesis
    proof (cases "c2 \<in> set DOUBLE_QUOTE_ESCAPES")
      case esc: True
      have c: "c = bsl \<and> cs \<noteq> [] \<and> hd cs \<in> set DOUBLE_QUOTE_ESCAPES"
        using True cs esc by simp
      have "lexRun (lexOf DoubleQuoted) (drop 1 cs) = lexOf m1"
        using "3.prems"(1) True cs by simp
      from "3.IH"(1) [OF c this "3.prems"(2)] "3.prems"(3) show ?thesis
        using True cs esc by simp
    next
      case esc: False
      then have c2: "c2 \<noteq> bsl" "c2 \<noteq> dq"
        by (auto simp: DOUBLE_QUOTE_ESCAPES_def)
      have c: "\<not> (c = bsl \<and> cs \<noteq> [] \<and> hd cs \<in> set DOUBLE_QUOTE_ESCAPES)"
        using cs esc by simp
      have tok: "\<not> (c = btick \<or> (c = CHR ''$'' \<and> take 1 cs = ''(''))"
        using True by simp
      have "lexRun (lexOf (if c = dq then Unquoted else DoubleQuoted)) cs = lexOf m1"
        using "3.prems"(1) True cs c2 by simp
      from "3.IH"(2) [OF c tok this "3.prems"(2)] "3.prems"(3) show ?thesis
        using True cs esc by simp
    qed
  next
    case False
    show ?thesis
    proof (cases "c = btick \<or> (c = CHR ''$'' \<and> take 1 cs = ''('')")
      case True
      with False show ?thesis by simp
    next
      case tok: False
      have tok': "\<not> (c = btick \<or> (c = CHR ''$'' \<and> take 1 (cs @ ys) = ''(''))"
      proof (cases cs)
        case Nil
        then show ?thesis using tok "3.prems"(2) by (cases ys) auto
      next
        case (Cons a list)
        then show ?thesis using tok by simp
      qed
      have c: "\<not> (c = bsl \<and> cs \<noteq> [] \<and> hd cs \<in> set DOUBLE_QUOTE_ESCAPES)"
        using False by simp
      let ?m = "if c = dq then Unquoted else DoubleQuoted"
      have "lexRun (lexOf ?m) cs = lexOf m1"
        using "3.prems"(1) False by (simp split: if_splits)
      note ih = "3.IH"(2) [OF c tok this "3.prems"(2)]
      have L: "exposedBeforeHeredoc DoubleQuoted ((c # cs) @ ys) = exposedBeforeHeredoc ?m (cs @ ys)"
        using False tok' by (auto simp del: take_append)
      have R: "exposedBeforeHeredoc DoubleQuoted (c # cs) = exposedBeforeHeredoc ?m cs"
        using False tok by auto
      show ?thesis using "3.prems"(3) ih unfolding L R by blast
    qed
  qed
next
  case (4 c cs)
  show ?case
  proof (cases "c = bsl")
    case True
    then obtain c2 cs' where cs: "cs = c2 # cs'"
      using "4.prems"(1) by (cases cs) auto
    have "lexRun (lexOf Unquoted) (drop 1 cs) = lexOf m1"
      using "4.prems"(1) True cs by simp
    from "4.IH"(1) [OF True this "4.prems"(2)] "4.prems"(3) show ?thesis
      using True cs by simp
  next
    case False
    show ?thesis
    proof (cases "c = btick \<or> (c = CHR ''$'' \<and> take 1 cs = ''('')")
      case True
      with False show ?thesis by simp
    next
      case tok: False
      have tok': "\<not> (c = btick \<or> (c = CHR ''$'' \<and> take 1 (cs @ ys) = ''(''))"
      proof (cases cs)
        case Nil
        then show ?thesis using tok "4.prems"(2) by (cases ys) auto
      next
        case (Cons a list)
        then show ?thesis using tok by simp
      qed
      show ?thesis
      proof (cases "c = CHR ''<'' \<and> take 1 (cs @ ys) = ''<''")
        case True
        then show ?thesis using "4.prems"(3) False tok' by (simp del: take_append)
      next
        case nh': False
        then have nh: "\<not> (c = CHR ''<'' \<and> take 1 cs = ''<'')"
          by (cases cs) auto
        let ?m = "if c = sq then SingleQuoted else if c = dq then DoubleQuoted else Unquoted"
        have "lexRun (lexOf ?m) cs = lexOf m1"
          using "4.prems"(1) False by (simp split: if_splits)
        note ih = "4.IH"(2) [OF False tok nh this "4.prems"(2)]
        have L: "exposedBeforeHeredoc Unquoted ((c # cs) @ ys) = exposedBeforeHeredoc ?m (cs @ ys)"
          using False tok' nh' by (auto simp del: take_append)
        have R: "exposedBeforeHeredoc Unquoted (c # cs) = exposedBeforeHeredoc ?m cs"
          using False tok nh by auto
        show ?thesis using "4.prems"(3) ih unfolding L R by blast
      qed
    qed
  qed
qed

lemma before_operator_chars:
  "\<forall>c \<in> set ops. c = CHR '';'' \<or> c = CHR ''&'' \<or> c = CHR ''|'' \<Longrightarrow>
     exposedBeforeHeredoc Unquoted (ops @ r) = exposedBeforeHeredoc Unquoted r"
  by (induction ops) auto

lemma exposure_append:
  assumes inv: "chainExposure st m (xs @ r)"
    and st': "chainMode st' m'" "chainBuf st' = chainBuf st @ xs" "chainParts st' = chainParts st"
    and lex: "lexRun (lexOf m) xs = lexOf m'"
  shows "chainExposure st' m' r"
  using assms by (simp add: chainExposure_def)

lemma exposure_push:
  assumes inv: "chainExposure st Unquoted (ops @ r)"
    and ops: "ops \<noteq> []" "\<forall>c \<in> set ops. c = CHR '';'' \<or> c = CHR ''&'' \<or> c = CHR ''|''"
  shows "chainExposure (pushChainPart st op) Unquoted r"
proof -
  let ?b = "chainBuf st"
  have mode: "chainMode (pushChainPart st op) Unquoted"
    using inv by (simp add: chainExposure_def chainMode_def pushChainPart_def Let_def)
  have parts: "set (chainParts (pushChainPart st op)) =
      (if trim ?b = [] then set (chainParts st)
       else insert \<lparr>part = trim ?b, opToNext = Some op\<rparr> (set (chainParts st)))"
    by (simp add: pushChainPart_def Let_def)
  have buf: "chainBuf (pushChainPart st op) = []"
    by (simp add: pushChainPart_def Let_def)
  have ex: "(\<exists>p \<in> set (chainParts (pushChainPart st op)). exposedBeforeHeredoc Unquoted (part p))
         \<or> exposedBeforeHeredoc Unquoted r"
  proof (cases "\<exists>p \<in> set (chainParts st). exposedBeforeHeredoc Unquoted (part p)")
    case True
    then show ?thesis unfolding parts by auto
  next
    case False
    then have e: "exposedBeforeHeredoc Unquoted (?b @ ops @ r)"
      using inv by (simp add: chainExposure_def)
    have lex: "lexRun (lexOf Unquoted) ?b = lexOf Unquoted"
      using inv by (simp add: chainExposure_def)
    have hd: "ops @ r = [] \<or> hd (ops @ r) \<noteq> CHR ''(''"
      using ops by (cases ops) auto
    from before_split [OF lex hd e]
    show ?thesis
    proof
      assume "exposedBeforeHeredoc Unquoted ?b"
      then have t: "exposedBeforeHeredoc Unquoted (trim ?b)" by (rule before_trim)
      then have "trim ?b \<noteq> []" by auto
      with t show ?thesis unfolding parts by simp
    next
      assume "exposedBeforeHeredoc Unquoted (ops @ r)"
      then show ?thesis using before_operator_chars [OF ops(2)] by simp
    qed
  qed
  show ?thesis
    unfolding chainExposure_def using mode ex by (simp add: buf)
qed

lemma exposure_final:
  assumes inv: "chainExposure st m xs"
    and f: "chainBuf f = chainBuf st @ xs" "chainParts f = chainParts st"
  shows "chainExposed f"
  using assms by (simp add: chainExposure_def chainExposed_def)

lemma chain_exposed:
  "chainExposure st m rest \<Longrightarrow> chainExposed (chainLoop st rest)"
proof (induction "length rest" arbitrary: st m rest rule: less_induct)
  case less
  note inv = less.prems
  have mode: "chainMode st m" using inv by (simp add: chainExposure_def)
  show ?case
  proof (cases rest)
    case Nil
    then show ?thesis
      using exposure_final [OF inv, of st] by simp
  next
    case (Cons c r)
    note rest = Cons
    show ?thesis
    proof (cases m)
      case SingleQuoted
      let ?st = "st\<lparr>chainInSingle := (c \<noteq> sq), chainBuf := chainBuf st @ [c]\<rparr>"
      let ?m = "if c = sq then Unquoted else SingleQuoted"
      have loop: "chainLoop st rest = chainLoop ?st r"
        using chain_single [of st c r] mode SingleQuoted rest by simp
      have m': "chainMode ?st ?m"
        using chainMode_flags(2) [of st] mode SingleQuoted by (simp add: chainMode_def)
      have "chainExposure ?st ?m r"
        by (rule exposure_append [OF _ m', where xs = "[c]" and st = st and m = m])
          (use inv rest SingleQuoted in simp_all)
      then show ?thesis
        unfolding loop using less.hyps [of r ?st ?m] rest by simp
    next
      case DoubleQuoted
      note md = chainMode_flags(3) [of st]
      show ?thesis
      proof (cases "c = bsl")
        case True
        show ?thesis
        proof (cases r)
          case Nil
          have "chainLoop st rest = st\<lparr>chainBuf := chainBuf st @ [bsl]\<rparr>"
            using chain_double_escape_end [of st] mode DoubleQuoted rest True Nil by simp
          then show ?thesis
            using exposure_final [OF inv, of "st\<lparr>chainBuf := chainBuf st @ [bsl]\<rparr>"]
              rest True Nil by simp
        next
          case (Cons c2 r')
          let ?st = "st\<lparr>chainBuf := chainBuf st @ [bsl, c2]\<rparr>"
          have loop: "chainLoop st rest = chainLoop ?st r'"
            using chain_double_escape_pair [of st c2 r'] mode DoubleQuoted rest True Cons by simp
          have m': "chainMode ?st DoubleQuoted"
            using mode DoubleQuoted by (simp add: chainMode_def)
          have "chainExposure ?st DoubleQuoted r'"
            by (rule exposure_append [OF _ m', where xs = "[bsl, c2]" and st = st and m = m])
              (use inv rest True Cons DoubleQuoted in simp_all)
          then show ?thesis
            unfolding loop using less.hyps [of r' ?st DoubleQuoted] rest Cons by simp
        qed
      next
        case False
        let ?st = "st\<lparr>chainInDouble := (c \<noteq> dq), chainBuf := chainBuf st @ [c]\<rparr>"
        let ?m = "if c = dq then Unquoted else DoubleQuoted"
        have loop: "chainLoop st rest = chainLoop ?st r"
          using chain_double_char [of st c r] mode DoubleQuoted rest False by simp
        have m': "chainMode ?st ?m"
          using md mode DoubleQuoted by (simp add: chainMode_def)
        have "chainExposure ?st ?m r"
          by (rule exposure_append [OF _ m', where xs = "[c]" and st = st and m = m])
            (use inv rest DoubleQuoted False in simp_all)
        then show ?thesis
          unfolding loop using less.hyps [of r ?st ?m] rest by simp
      qed
    next
      case Unquoted
      note mu = chainMode_flags(1) [of st]
      have modeU: "chainMode st Unquoted" using mode Unquoted by simp
      have invU: "chainExposure st Unquoted rest" using inv Unquoted by simp
      consider (esc) "c = bsl"
        | (semi) "c = CHR '';''"
        | (pair) "c = CHR ''&'' \<or> c = CHR ''|''" "take 1 r = [c]"
        | (plain) "c \<noteq> bsl" "c \<noteq> CHR '';''"
            "\<not> (c = CHR ''&'' \<and> take 1 r = ''&'')" "\<not> (c = CHR ''|'' \<and> take 1 r = ''|'')"
        by auto
      then show ?thesis
      proof cases
        case esc
        show ?thesis
        proof (cases r)
          case Nil
          let ?f = "st\<lparr>chainEscaped := True, chainBuf := chainBuf st @ [bsl]\<rparr>"
          have "chainLoop st rest = ?f"
            using chain_escape_end [OF modeU] rest esc Nil by simp
          then show ?thesis
            using exposure_final [OF inv, of ?f] rest esc Nil by simp
        next
          case (Cons c2 r')
          let ?st = "st\<lparr>chainBuf := chainBuf st @ [bsl, c2]\<rparr>"
          have loop: "chainLoop st rest = chainLoop ?st r'"
            using chain_escape_pair [OF modeU, of c2 r'] rest esc Cons by simp
          have m': "chainMode ?st Unquoted"
            using modeU by (simp add: chainMode_def)
          have "chainExposure ?st Unquoted r'"
            by (rule exposure_append [OF _ m', where xs = "[bsl, c2]" and st = st and m = m])
              (use inv rest esc Cons Unquoted in simp_all)
          then show ?thesis
            unfolding loop using less.hyps [of r' ?st Unquoted] rest Cons by simp
        qed
      next
        case semi
        have loop: "chainLoop st rest = chainLoop (pushChainPart st Semi) r"
          using chain_semicolon [OF modeU, of r] rest semi by simp
        have "chainExposure (pushChainPart st Semi) Unquoted r"
          by (rule exposure_push [where ops = "'';''"]) (use invU rest semi in simp_all)
        then show ?thesis
          unfolding loop using less.hyps [of r "pushChainPart st Semi" Unquoted] rest by simp
      next
        case pair
        then obtain r' where r: "r = c # r'" by (cases r) auto
        let ?op = "if c = CHR ''&'' then AndAnd else OrOr"
        have loop: "chainLoop st rest = chainLoop (pushChainPart st ?op) r'"
          using chain_operator_pair [OF modeU pair(1), of r'] rest r by simp
        have "chainExposure (pushChainPart st ?op) Unquoted r'"
          by (rule exposure_push [where ops = "[c, c]"]) (use invU rest r pair(1) in auto)
        then show ?thesis
          unfolding loop using less.hyps [of r' "pushChainPart st ?op" Unquoted] rest r by simp
      next
        case plain
        let ?st = "if c = sq then st\<lparr>chainInSingle := True, chainBuf := chainBuf st @ [c]\<rparr>
                    else if c = dq then st\<lparr>chainInDouble := True, chainBuf := chainBuf st @ [c]\<rparr>
                    else st\<lparr>chainBuf := chainBuf st @ [c]\<rparr>"
        let ?m = "if c = sq then SingleQuoted else if c = dq then DoubleQuoted else Unquoted"
        have loop: "chainLoop st rest = chainLoop ?st r"
          using chain_plain_char [OF modeU plain, of ] rest by simp
        have m': "chainMode ?st ?m"
          using mu modeU by (simp add: chainMode_def)
        have "chainExposure ?st ?m r"
          by (rule exposure_append [OF _ m', where xs = "[c]" and st = st and m = m])
            (use inv rest Unquoted plain(1) in auto)
        then show ?thesis
          unfolding loop using less.hyps [of r ?st ?m] rest by simp
      qed
    qed
  qed
qed

lemma chain_parts_before:
  assumes e: "exposedBeforeHeredoc Unquoted cmd"
    and c: "splitCommandChain cmd = Some ps"
  shows "\<exists>p \<in> set ps. exposedBeforeHeredoc Unquoted p"
proof -
  define f where "f = chainLoop initialChainState cmd"
  have "chainExposure initialChainState Unquoted cmd"
    using e by (simp add: chainExposure_def chainMode_def initialChainState_def)
  then have carries: "chainExposed f"
    unfolding f_def by (rule chain_exposed)
  from c have ps: "ps = map part (chainParts f) @ [trim (chainBuf f)]"
    by (auto simp: splitCommandChain_def splitCommandChainWithOperators_def Let_def
        f_def [symmetric] split: if_splits)
  from carries
  consider (part) p where "p \<in> set (chainParts f)" "exposedBeforeHeredoc Unquoted (part p)"
    | (buf) "exposedBeforeHeredoc Unquoted (chainBuf f)"
    by (auto simp: chainExposed_def)
  then show ?thesis
  proof cases
    case part
    then have "part p \<in> set ps" by (auto simp: ps)
    with part(2) show ?thesis by blast
  next
    case buf
    then have "exposedBeforeHeredoc Unquoted (trim (chainBuf f))" by (rule before_trim)
    then show ?thesis by (auto simp: ps)
  qed
qed

lemma live_analysis_rejected:
  assumes "\<not> isWindowsPlatform platform"
    and e: "exposedBeforeHeredoc Unquoted cmd
            \<or> (liveSubstitution Unquoted [] None cmd \<and> \<not> chainOperatorExposed Unquoted cmd)"
  shows "\<not> ok (analyzeShellCommand splitArgs resolvePath cmd platform)"
proof (cases "splitCommandChain cmd")
  case None
  have "liveSubstitution Unquoted [] None cmd"
    using e before_heredoc_live by blast
  from live_pipeline_rejected [OF this] show ?thesis
    using assms(1) None by (simp add: analyzeShellCommand_def Let_def)
next
  case (Some ps)
  then have "exposedBeforeHeredoc Unquoted cmd"
    using e no_chain_operator_split by fastforce
  from chain_parts_before [OF this Some]
  have "\<exists>p \<in> set ps. \<not> splitOk (splitShellPipeline p)"
    using live_pipeline_rejected before_heredoc_live by blast
  then show ?thesis
    using assms(1) Some analyzeChainParts_rejects by (simp add: analyzeShellCommand_def)
qed

subsection \<open>Inert quoting\<close>

lemma piece_first_char:
  assumes "wellFormedPiece p"
  shows "\<exists>c. take 1 (renderPiece p @ x) = [c]
           \<and> c \<noteq> CHR ''('' \<and> c \<noteq> CHR ''|'' \<and> c \<noteq> CHR ''&'' \<and> c \<noteq> CHR '';'' \<and> c \<noteq> CHR ''<''"
  using assms by (cases p) (auto simp: plainChar_def)

lemma stage_first_char:
  assumes "list_all wellFormedPiece ps" "ps \<noteq> []"
  shows "\<exists>c. take 1 (renderStage ps @ x) = [c]
           \<and> c \<noteq> CHR ''('' \<and> c \<noteq> CHR ''|'' \<and> c \<noteq> CHR ''&'' \<and> c \<noteq> CHR '';'' \<and> c \<noteq> CHR ''<''"
proof -
  obtain p ps' where ps: "ps = p # ps'" using assms(2) by (cases ps) auto
  have "renderStage ps @ x = renderPiece p @ (renderStage ps' @ x)"
    by (simp add: ps renderStage_def)
  then show ?thesis
    using piece_first_char [of p "renderStage ps' @ x"] assms(1) ps by simp
qed

lemma split_single_text:
  assumes "splitMode st SingleQuoted" "sq \<notin> set t"
  shows "\<exists>st'. splitLoop st (t @ sq # rest) = splitLoop st' rest
           \<and> splitMode st' Unquoted \<and> buf st' = buf st @ t @ [sq]
           \<and> segmentsSoFar st' = segmentsSoFar st \<and> \<not> emptySegment st'"
  using assms
proof (induction t arbitrary: st)
  case Nil
  let ?st = "st\<lparr>inSingle := (sq \<noteq> sq), buf := buf st @ [sq], emptySegment := False\<rparr>"
  have "splitLoop st (sq # rest) = splitLoop ?st rest"
    using split_single [OF Nil(1), of sq rest] by simp
  moreover have "splitMode ?st Unquoted"
    using splitMode_flags(2) [OF Nil(1)] by (simp add: splitMode_def)
  ultimately show ?case by (intro exI [of _ ?st]) simp
next
  case (Cons c t)
  let ?st = "st\<lparr>inSingle := (c \<noteq> sq), buf := buf st @ [c], emptySegment := False\<rparr>"
  have loop: "splitLoop st ((c # t) @ sq # rest) = splitLoop ?st (t @ sq # rest)"
    using split_single [OF Cons.prems(1), of c "t @ sq # rest"] by simp
  have m: "splitMode ?st SingleQuoted"
    using splitMode_flags(2) [OF Cons.prems(1)] Cons.prems(2) by (auto simp: splitMode_def)
  from Cons.IH [OF m] Cons.prems(2) obtain st' where
    "splitLoop ?st (t @ sq # rest) = splitLoop st' rest" "splitMode st' Unquoted"
    "buf st' = buf ?st @ t @ [sq]" "segmentsSoFar st' = segmentsSoFar ?st" "\<not> emptySegment st'"
    by auto
  then show ?case
    unfolding loop by (intro exI [of _ st']) simp
qed

lemma split_double_items:
  assumes "splitMode st DoubleQuoted" "list_all wellFormedDq items"
  shows "\<exists>st'. splitLoop st (concat (map renderDq items) @ dq # rest) = splitLoop st' rest
           \<and> splitMode st' Unquoted
           \<and> buf st' = buf st @ concat (map renderDq items) @ [dq]
           \<and> segmentsSoFar st' = segmentsSoFar st \<and> \<not> emptySegment st'"
  using assms
proof (induction items arbitrary: st)
  case Nil
  note f = splitMode_flags(3) [OF Nil(1)]
  let ?st = "st\<lparr>inDouble := False, buf := buf st @ [dq], emptySegment := False\<rparr>"
  have "splitStep st dq rest = Continue ?st 0"
    using f by (simp add: splitStep_def doubleQuoteStep_def Let_def isDoubleQuoteEscape_def)
  then have "splitLoop st (dq # rest) = splitLoop ?st rest" by simp
  moreover have "splitMode ?st Unquoted"
    using f by (simp add: splitMode_def)
  ultimately show ?case by (intro exI [of _ ?st]) simp
next
  case (Cons i items)
  note f = splitMode_flags(3) [OF Cons.prems(1)]
  let ?tail = "concat (map renderDq items) @ dq # rest"
  have "\<exists>st1. splitLoop st (renderDq i @ ?tail) = splitLoop st1 ?tail
          \<and> splitMode st1 DoubleQuoted \<and> buf st1 = buf st @ renderDq i
          \<and> segmentsSoFar st1 = segmentsSoFar st"
  proof (cases i)
    case (DqChar c)
    then have c: "c \<noteq> bsl" "c \<noteq> dq" "c \<noteq> btick" "c \<noteq> nl" "c \<noteq> cr" "c \<noteq> CHR ''$''"
      using Cons.prems(2) by auto
    let ?st = "st\<lparr>inDouble := True, buf := buf st @ [c], emptySegment := False\<rparr>"
    have "splitStep st c ?tail = Continue ?st 0"
      using f c by (simp add: splitStep_def doubleQuoteStep_def Let_def)
    then have "splitLoop st (renderDq i @ ?tail) = splitLoop ?st ?tail"
      using DqChar by simp
    moreover have "splitMode ?st DoubleQuoted"
      using f by (simp add: splitMode_def)
    ultimately show ?thesis using DqChar by (intro exI [of _ ?st]) simp
  next
    case (DqEscape c)
    then have c: "c \<in> set DOUBLE_QUOTE_ESCAPES"
      using Cons.prems(2) by simp
    let ?st = "st\<lparr>buf := buf st @ [bsl, c], emptySegment := False\<rparr>"
    have "splitStep st bsl (c # ?tail) = Continue ?st 1"
      using f c by (simp add: splitStep_def doubleQuoteStep_def Let_def isDoubleQuoteEscape_def)
    then have "splitLoop st (renderDq i @ ?tail) = splitLoop ?st ?tail"
      using DqEscape by simp
    moreover have "splitMode ?st DoubleQuoted"
      using f by (simp add: splitMode_def)
    ultimately show ?thesis using DqEscape by (intro exI [of _ ?st]) simp
  qed
  then obtain st1 where 1: "splitLoop st (renderDq i @ ?tail) = splitLoop st1 ?tail"
    "splitMode st1 DoubleQuoted" "buf st1 = buf st @ renderDq i"
    "segmentsSoFar st1 = segmentsSoFar st"
    by blast
  from Cons.IH [OF 1(2)] Cons.prems(2) obtain st' where
    "splitLoop st1 ?tail = splitLoop st' rest" "splitMode st' Unquoted"
    "buf st' = buf st1 @ concat (map renderDq items) @ [dq]"
    "segmentsSoFar st' = segmentsSoFar st1" "\<not> emptySegment st'"
    by auto
  then show ?case
    using 1 by (intro exI [of _ st']) simp
qed

lemma split_piece:
  assumes m: "splitMode st Unquoted" and wf: "wellFormedPiece p" and nx: "take 1 rest \<noteq> ''(''"
  shows "\<exists>st'. splitLoop st (renderPiece p @ rest) = splitLoop st' rest
           \<and> splitMode st' Unquoted \<and> buf st' = buf st @ renderPiece p
           \<and> segmentsSoFar st' = segmentsSoFar st \<and> \<not> emptySegment st'"
proof (cases p)
  case (Plain c)
  note f = splitMode_flags(1) [OF m]
  have next_eq: "(case rest of [] \<Rightarrow> None | n # _ \<Rightarrow> Some n) = Some x \<longleftrightarrow> take 1 rest = [x]" for x
    by (cases rest) auto
  let ?st = "st\<lparr>buf := buf st @ [c], emptySegment := False\<rparr>"
  have "splitStep st c rest = Continue ?st 0"
  proof (cases "c = CHR ''$''")
    case True
    then show ?thesis
      using f nx
      by (simp add: splitStep_def normalStep_def Let_def next_eq DISALLOWED_PIPELINE_TOKENS_def)
  next
    case False
    then have "plainChar c" using wf Plain by simp
    then show ?thesis
      using f
      by (simp add: splitStep_def normalStep_def Let_def plainChar_def
          DISALLOWED_PIPELINE_TOKENS_def)
  qed
  then have "splitLoop st (renderPiece p @ rest) = splitLoop ?st rest"
    using Plain by simp
  moreover have "splitMode ?st Unquoted"
    using f by (simp add: splitMode_def)
  ultimately show ?thesis using Plain by (intro exI [of _ ?st]) simp
next
  case (SingleQuotedText t)
  note f = splitMode_flags(1) [OF m]
  let ?st = "st\<lparr>inSingle := True, buf := buf st @ [sq], emptySegment := False\<rparr>"
  have "splitStep st sq (t @ sq # rest) = Continue ?st 0"
    using f by (simp add: splitStep_def normalStep_def Let_def)
  then have loop: "splitLoop st (renderPiece p @ rest) = splitLoop ?st (t @ sq # rest)"
    using SingleQuotedText by simp
  have ms: "splitMode ?st SingleQuoted"
    using f by (simp add: splitMode_def)
  from split_single_text [OF ms, of t rest] wf SingleQuotedText obtain st' where
    "splitLoop ?st (t @ sq # rest) = splitLoop st' rest" "splitMode st' Unquoted"
    "buf st' = buf ?st @ t @ [sq]" "segmentsSoFar st' = segmentsSoFar ?st" "\<not> emptySegment st'"
    by auto
  then show ?thesis
    unfolding loop using SingleQuotedText by (intro exI [of _ st']) simp
next
  case (EscapedChar c)
  let ?st = "st\<lparr>buf := buf st @ [bsl, c], emptySegment := False\<rparr>"
  have "splitLoop st (renderPiece p @ rest) = splitLoop ?st rest"
    using split_escape [OF m, of c rest] EscapedChar by simp
  moreover have "splitMode ?st Unquoted"
    using splitMode_flags(1) [OF m] by (simp add: splitMode_def)
  ultimately show ?thesis using EscapedChar by (intro exI [of _ ?st]) simp
next
  case (DoubleQuotedText items)
  note f = splitMode_flags(1) [OF m]
  let ?body = "concat (map renderDq items) @ dq # rest"
  let ?st = "st\<lparr>inDouble := True, buf := buf st @ [dq], emptySegment := False\<rparr>"
  have "splitStep st dq ?body = Continue ?st 0"
    using f by (simp add: splitStep_def normalStep_def Let_def)
  then have loop: "splitLoop st (renderPiece p @ rest) = splitLoop ?st ?body"
    using DoubleQuotedText by simp
  have md: "splitMode ?st DoubleQuoted"
    using f by (simp add: splitMode_def)
  from split_double_items [OF md, of items rest] wf DoubleQuotedText obtain st' where
    "splitLoop ?st ?body = splitLoop st' rest" "splitMode st' Unquoted"
    "buf st' = buf ?st @ concat (map renderDq items) @ [dq]"
    "segmentsSoFar st' = segmentsSoFar ?st" "\<not> emptySegment st'"
    by auto
  then show ?thesis
    unfolding loop using DoubleQuotedText by (intro exI [of _ st']) simp
qed

lemma split_stage:
  assumes m: "splitMode st Unquoted" and wf: "list_all wellFormedPiece ps"
    and nx: "take 1 rest \<noteq> ''(''"
  shows "\<exists>st'. splitLoop st (renderStage ps @ rest) = splitLoop st' rest
           \<and> splitMode st' Unquoted \<and> buf st' = buf st @ renderStage ps
           \<and> segmentsSoFar st' = segmentsSoFar st
           \<and> (emptySegment st' \<longleftrightarrow> emptySegment st \<and> ps = [])"
  using m wf
proof (induction ps arbitrary: st)
  case Nil
  then show ?case by (intro exI [of _ st]) (simp add: renderStage_def)
next
  case (Cons p ps)
  let ?tail = "renderStage ps @ rest"
  have nx': "take 1 ?tail \<noteq> ''(''"
  proof (cases ps)
    case Nil
    then show ?thesis using nx by (simp add: renderStage_def)
  next
    case (Cons a list)
    then show ?thesis
      using stage_first_char [of ps rest] Cons.prems(2) by auto
  qed
  from split_piece [OF Cons.prems(1) _ nx', of p] Cons.prems(2) obtain st1 where
    1: "splitLoop st (renderPiece p @ ?tail) = splitLoop st1 ?tail" "splitMode st1 Unquoted"
    "buf st1 = buf st @ renderPiece p" "segmentsSoFar st1 = segmentsSoFar st"
    "\<not> emptySegment st1"
    by auto
  from Cons.IH [OF 1(2)] Cons.prems(2) obtain st' where
    2: "splitLoop st1 ?tail = splitLoop st' rest" "splitMode st' Unquoted"
    "buf st' = buf st1 @ renderStage ps" "segmentsSoFar st' = segmentsSoFar st1"
    "emptySegment st' \<longleftrightarrow> emptySegment st1 \<and> ps = []"
    by auto
  have "splitLoop st (renderStage (p # ps) @ rest) = splitLoop st' rest"
    using 1(1) 2(1) by (simp add: renderStage_def)
  then show ?case
    using 1 2 by (intro exI [of _ st']) (simp add: renderStage_def)
qed

lemma split_pipe:
  assumes m: "splitMode st Unquoted"
    and nx: "take 1 rest \<noteq> ''|''" "take 1 rest \<noteq> ''&''"
  shows "\<exists>st'. splitLoop st (CHR ''|'' # rest) = splitLoop st' rest
           \<and> splitMode st' Unquoted \<and> buf st' = []
           \<and> segmentsSoFar st' =
               segmentsSoFar st @ (if trim (buf st) \<noteq> [] then [trim (buf st)] else [])"
proof -
  note f = splitMode_flags(1) [OF m]
  have next_eq: "(case rest of [] \<Rightarrow> None | n # _ \<Rightarrow> Some n) = Some x \<longleftrightarrow> take 1 rest = [x]" for x
    by (cases rest) auto
  let ?st = "pushPart (st\<lparr>emptySegment := True\<rparr>)"
  have "splitStep st CHR ''|'' rest = Continue ?st 0"
    using f nx by (simp add: splitStep_def normalStep_def Let_def next_eq)
  then have "splitLoop st (CHR ''|'' # rest) = splitLoop ?st rest" by simp
  moreover have "splitMode ?st Unquoted"
    using f by (simp add: splitMode_def pushPart_def Let_def)
  moreover have "buf ?st = []" by (simp add: pushPart_def Let_def)
  moreover have "segmentsSoFar ?st =
      segmentsSoFar st @ (if trim (buf st) \<noteq> [] then [trim (buf st)] else [])"
    by (simp add: pushPart_def Let_def)
  ultimately show ?thesis by blast
qed

lemma inertStage_parts:
  assumes "inertStage s"
  shows "list_all wellFormedPiece s" "s \<noteq> []" "trim (renderStage s) \<noteq> []"
proof -
  show "list_all wellFormedPiece s" "trim (renderStage s) \<noteq> []"
    using assms by (simp_all add: inertStage_def)
  have "trim (renderStage []) = []" by (simp add: renderStage_def trim_def)
  then show "s \<noteq> []" using \<open>trim (renderStage s) \<noteq> []\<close> by auto
qed

lemma split_pipeline:
  assumes m: "splitMode st Unquoted" and b: "buf st = []"
    and stages: "stages \<noteq> []" "\<forall>s \<in> set stages. inertStage s"
  shows "\<exists>st'. splitLoop st (renderPipeline stages) = Inr st'
           \<and> splitMode st' Unquoted \<and> buf st' = renderStage (last stages)
           \<and> segmentsSoFar st' =
               segmentsSoFar st @ map (\<lambda>s. trim (renderStage s)) (butlast stages)
           \<and> \<not> emptySegment st'"
  using stages m b
proof (induction stages arbitrary: st rule: list_nonempty_induct)
  case (single s)
  have wf: "list_all wellFormedPiece s" and ne: "s \<noteq> []"
    using inertStage_parts [of s] single.prems(1) by simp_all
  from split_stage [OF single.prems(2) wf, of "[]"] obtain st' where
    "splitLoop st (renderStage s) = splitLoop st' []" "splitMode st' Unquoted"
    "buf st' = buf st @ renderStage s" "segmentsSoFar st' = segmentsSoFar st"
    "emptySegment st' \<longleftrightarrow> emptySegment st \<and> s = []"
    by auto
  then show ?case
    using single.prems(3) ne by (intro exI [of _ st']) (simp add: renderPipeline_def)
next
  case (cons s stages)
  have wf: "list_all wellFormedPiece s" and ne: "trim (renderStage s) \<noteq> []"
    using inertStage_parts [of s] cons.prems(1) by simp_all
  obtain s2 stages' where st2: "stages = s2 # stages'"
    using cons.hyps(1) by (cases stages) auto
  have wf2: "list_all wellFormedPiece s2" "s2 \<noteq> []"
    using inertStage_parts [of s2] cons.prems(1) st2 by simp_all
  let ?tail = "renderPipeline stages"
  have tail: "?tail = renderStage s2 @ (if stages' = [] then [] else ''|'' @ renderPipeline stages')"
    by (cases stages') (simp_all add: st2 renderPipeline_def)
  have cmd: "renderPipeline (s # stages) = renderStage s @ CHR ''|'' # ?tail"
    by (simp add: st2 renderPipeline_def)
  from stage_first_char [OF wf2, of "if stages' = [] then [] else ''|'' @ renderPipeline stages'"]
  have nx: "take 1 ?tail \<noteq> ''|''" "take 1 ?tail \<noteq> ''&''"
    unfolding tail by auto
  from split_stage [OF cons.prems(2) wf, of "CHR ''|'' # ?tail"] obtain st1 where
    1: "splitLoop st (renderStage s @ CHR ''|'' # ?tail) = splitLoop st1 (CHR ''|'' # ?tail)"
    "splitMode st1 Unquoted" "buf st1 = buf st @ renderStage s"
    "segmentsSoFar st1 = segmentsSoFar st"
    by auto
  from split_pipe [OF 1(2) nx] obtain st2 where
    2: "splitLoop st1 (CHR ''|'' # ?tail) = splitLoop st2 ?tail" "splitMode st2 Unquoted"
    "buf st2 = []"
    "segmentsSoFar st2 =
       segmentsSoFar st1 @ (if trim (buf st1) \<noteq> [] then [trim (buf st1)] else [])"
    by blast
  from cons.IH [OF _ 2(2,3)] cons.prems(1) obtain st' where
    3: "splitLoop st2 ?tail = Inr st'" "splitMode st' Unquoted"
    "buf st' = renderStage (last stages)"
    "segmentsSoFar st' = segmentsSoFar st2 @ map (\<lambda>s. trim (renderStage s)) (butlast stages)"
    "\<not> emptySegment st'"
    by auto
  have seg: "segmentsSoFar st' =
      segmentsSoFar st @ map (\<lambda>s. trim (renderStage s)) (butlast (s # stages))"
    using 1(3,4) 2(4) 3(4) ne cons.prems(3) cons.hyps(1) by simp
  show ?case
    unfolding cmd using 1(1) 2(1) 3 seg cons.hyps(1)
    by (intro exI [of _ st']) simp
qed

lemma inert_pipeline_split:
  assumes stages: "stages \<noteq> []" "\<forall>s \<in> set stages. inertStage s"
  shows "splitShellPipeline (renderPipeline stages) =
         \<lparr>splitOk = True, splitReason = None,
          splitSegments = map (\<lambda>s. trim (renderStage s)) stages\<rparr>"
proof -
  have m: "splitMode initialSplitState Unquoted" and b: "buf initialSplitState = []"
    by (simp_all add: splitMode_def initialSplitState_def)
  from split_pipeline [OF m b stages] obtain st' where
    1: "splitLoop initialSplitState (renderPipeline stages) = Inr st'"
    "splitMode st' Unquoted" "buf st' = renderStage (last stages)"
    "segmentsSoFar st' = map (\<lambda>s. trim (renderStage s)) (butlast stages)"
    "\<not> emptySegment st'"
    by (auto simp: initialSplitState_def)
  have "last stages \<in> set stages" using stages(1) by simp
  then have ne: "trim (renderStage (last stages)) \<noteq> []"
    using stages(2) inertStage_parts(3) by blast
  have all: "map (\<lambda>s. trim (renderStage s)) (butlast stages) @ [trim (renderStage (last stages))]
      = map (\<lambda>s. trim (renderStage s)) stages"
  proof -
    have "map (\<lambda>s. trim (renderStage s)) (butlast stages @ [last stages]) =
        map (\<lambda>s. trim (renderStage s)) stages"
      using stages(1) by simp
    then show ?thesis by simp
  qed
  have "splitFinish st' =
      \<lparr>splitOk = True, splitReason = None,
          splitSegments = map (\<lambda>s. trim (renderStage s)) stages\<rparr>"
    using splitMode_flags(1) [OF 1(2)] 1(3,4,5) ne all stages(1)
    by (simp add: splitFinish_def pushPart_def Let_def)
  then show ?thesis
    by (simp add: splitShellPipeline_def 1(1))
qed

lemma chain_single_text:
  assumes "chainMode st SingleQuoted" "sq \<notin> set t"
  shows "\<exists>st'. chainLoop st (t @ sq # rest) = chainLoop st' rest
           \<and> chainMode st' Unquoted \<and> foundChain st' = foundChain st"
  using assms
proof (induction t arbitrary: st)
  case Nil
  let ?st = "st\<lparr>chainInSingle := (sq \<noteq> sq), chainBuf := chainBuf st @ [sq]\<rparr>"
  have "chainLoop st (sq # rest) = chainLoop ?st rest"
    using chain_single [OF Nil(1), of sq rest] by simp
  moreover have "chainMode ?st Unquoted"
    using chainMode_flags(2) [OF Nil(1)] by (simp add: chainMode_def)
  ultimately show ?case by (intro exI [of _ ?st]) simp
next
  case (Cons c t)
  let ?st = "st\<lparr>chainInSingle := (c \<noteq> sq), chainBuf := chainBuf st @ [c]\<rparr>"
  have loop: "chainLoop st ((c # t) @ sq # rest) = chainLoop ?st (t @ sq # rest)"
    using chain_single [OF Cons.prems(1), of c "t @ sq # rest"] by simp
  have m: "chainMode ?st SingleQuoted"
    using chainMode_flags(2) [OF Cons.prems(1)] Cons.prems(2) by (auto simp: chainMode_def)
  from Cons.IH [OF m] Cons.prems(2) obtain st' where
    "chainLoop ?st (t @ sq # rest) = chainLoop st' rest" "chainMode st' Unquoted"
    "foundChain st' = foundChain ?st"
    by auto
  then show ?case
    unfolding loop by (intro exI [of _ st']) simp
qed

lemma chain_double_items:
  assumes "chainMode st DoubleQuoted" "list_all wellFormedDq items"
  shows "\<exists>st'. chainLoop st (concat (map renderDq items) @ dq # rest) = chainLoop st' rest
           \<and> chainMode st' Unquoted \<and> foundChain st' = foundChain st"
  using assms
proof (induction items arbitrary: st)
  case Nil
  let ?st = "st\<lparr>chainInDouble := (dq \<noteq> dq), chainBuf := chainBuf st @ [dq]\<rparr>"
  have "chainLoop st (dq # rest) = chainLoop ?st rest"
    using chain_double_char [OF Nil(1), of dq rest] by simp
  moreover have "chainMode ?st Unquoted"
    using chainMode_flags(3) [OF Nil(1)] by (simp add: chainMode_def)
  ultimately show ?case by (intro exI [of _ ?st]) simp
next
  case (Cons i items)
  note f = chainMode_flags(3) [OF Cons.prems(1)]
  let ?tail = "concat (map renderDq items) @ dq # rest"
  have "\<exists>st1. chainLoop st (renderDq i @ ?tail) = chainLoop st1 ?tail
          \<and> chainMode st1 DoubleQuoted \<and> foundChain st1 = foundChain st"
  proof (cases i)
    case (DqChar c)
    then have c: "c \<noteq> bsl" "c \<noteq> dq"
      using Cons.prems(2) by auto
    let ?st = "st\<lparr>chainInDouble := (c \<noteq> dq), chainBuf := chainBuf st @ [c]\<rparr>"
    have "chainLoop st (renderDq i @ ?tail) = chainLoop ?st ?tail"
      using chain_double_char [OF Cons.prems(1) c(1), of ?tail] DqChar by simp
    moreover have "chainMode ?st DoubleQuoted"
      using f c by (simp add: chainMode_def)
    ultimately show ?thesis by (intro exI [of _ ?st]) simp
  next
    case (DqEscape c)
    let ?st = "st\<lparr>chainBuf := chainBuf st @ [bsl, c]\<rparr>"
    have "chainLoop st (renderDq i @ ?tail) = chainLoop ?st ?tail"
      using chain_double_escape_pair [OF Cons.prems(1), of c ?tail] DqEscape by simp
    moreover have "chainMode ?st DoubleQuoted"
      using f by (simp add: chainMode_def)
    ultimately show ?thesis by (intro exI [of _ ?st]) simp
  qed
  then obtain st1 where 1: "chainLoop st (renderDq i @ ?tail) = chainLoop st1 ?tail"
    "chainMode st1 DoubleQuoted" "foundChain st1 = foundChain st"
    by blast
  from Cons.IH [OF 1(2)] Cons.prems(2) obtain st' where
    "chainLoop st1 ?tail = chainLoop st' rest" "chainMode st' Unquoted"
    "foundChain st' = foundChain st1"
    by auto
  then show ?case
    using 1 by (intro exI [of _ st']) simp
qed

lemma chain_piece:
  assumes m: "chainMode st Unquoted" and wf: "wellFormedPiece p"
  shows "\<exists>st'. chainLoop st (renderPiece p @ rest) = chainLoop st' rest
           \<and> chainMode st' Unquoted \<and> foundChain st' = foundChain st"
proof (cases p)
  case (Plain c)
  then have c: "c \<noteq> bsl" "c \<noteq> CHR '';''" "c \<noteq> CHR ''&''" "c \<noteq> CHR ''|''" "c \<noteq> sq" "c \<noteq> dq"
    using wf by (auto simp: plainChar_def)
  let ?st = "st\<lparr>chainBuf := chainBuf st @ [c]\<rparr>"
  have "chainLoop st (renderPiece p @ rest) = chainLoop ?st rest"
    using chain_plain_char [OF m c(1,2), of rest] c Plain by simp
  moreover have "chainMode ?st Unquoted"
    using m by (simp add: chainMode_def)
  ultimately show ?thesis by (intro exI [of _ ?st]) simp
next
  case (SingleQuotedText t)
  let ?st = "st\<lparr>chainInSingle := True, chainBuf := chainBuf st @ [sq]\<rparr>"
  have loop: "chainLoop st (renderPiece p @ rest) = chainLoop ?st (t @ sq # rest)"
    using chain_plain_char [OF m, of sq "t @ sq # rest"] SingleQuotedText by simp
  have ms: "chainMode ?st SingleQuoted"
    using chainMode_flags(1) [OF m] by (simp add: chainMode_def)
  from chain_single_text [OF ms, of t rest] wf SingleQuotedText obtain st' where
    "chainLoop ?st (t @ sq # rest) = chainLoop st' rest" "chainMode st' Unquoted"
    "foundChain st' = foundChain ?st"
    by auto
  then show ?thesis
    unfolding loop by (intro exI [of _ st']) simp
next
  case (EscapedChar c)
  let ?st = "st\<lparr>chainBuf := chainBuf st @ [bsl, c]\<rparr>"
  have "chainLoop st (renderPiece p @ rest) = chainLoop ?st rest"
    using chain_escape_pair [OF m, of c rest] EscapedChar by simp
  moreover have "chainMode ?st Unquoted"
    using m by (simp add: chainMode_def)
  ultimately show ?thesis by (intro exI [of _ ?st]) simp
next
  case (DoubleQuotedText items)
  let ?body = "concat (map renderDq items) @ dq # rest"
  let ?st = "st\<lparr>chainInDouble := True, chainBuf := chainBuf st @ [dq]\<rparr>"
  have loop: "chainLoop st (renderPiece p @ rest) = chainLoop ?st ?body"
    using chain_plain_char [OF m, of dq ?body] DoubleQuotedText by simp
  have md: "chainMode ?st DoubleQuoted"
    using chainMode_flags(1) [OF m] by (simp add: chainMode_def)
  from chain_double_items [OF md, of items rest] wf DoubleQuotedText obtain st' where
    "chainLoop ?st ?body = chainLoop st' rest" "chainMode st' Unquoted"
    "foundChain st' = foundChain ?st"
    by auto
  then show ?thesis
    unfolding loop by (intro exI [of _ st']) simp
qed

lemma chain_stage:
  assumes m: "chainMode st Unquoted" and wf: "list_all wellFormedPiece ps"
  shows "\<exists>st'. chainLoop st (renderStage ps @ rest) = chainLoop st' rest
           \<and> chainMode st' Unquoted \<and> foundChain st' = foundChain st"
  using m wf
proof (induction ps arbitrary: st)
  case Nil
  then show ?case by (intro exI [of _ st]) (simp add: renderStage_def)
next
  case (Cons p ps)
  let ?tail = "renderStage ps @ rest"
  from chain_piece [OF Cons.prems(1), of p ?tail] Cons.prems(2) obtain st1 where
    1: "chainLoop st (renderPiece p @ ?tail) = chainLoop st1 ?tail" "chainMode st1 Unquoted"
    "foundChain st1 = foundChain st"
    by auto
  from Cons.IH [OF 1(2)] Cons.prems(2) obtain st' where
    2: "chainLoop st1 ?tail = chainLoop st' rest" "chainMode st' Unquoted"
    "foundChain st' = foundChain st1"
    by auto
  have "chainLoop st (renderStage (p # ps) @ rest) = chainLoop st' rest"
    using 1(1) 2(1) by (simp add: renderStage_def)
  then show ?case
    using 1 2 by (intro exI [of _ st']) simp
qed

lemma chain_pipeline:
  assumes stages: "stages \<noteq> []" "\<forall>s \<in> set stages. inertStage s"
    and m: "chainMode st Unquoted"
  shows "foundChain (chainLoop st (renderPipeline stages)) = foundChain st"
  using stages m
proof (induction stages arbitrary: st rule: list_nonempty_induct)
  case (single s)
  from chain_stage [OF single.prems(2), of s "[]"] inertStage_parts(1) [of s] single.prems(1)
  obtain st' where "chainLoop st (renderStage s) = chainLoop st' []" "foundChain st' = foundChain st"
    by auto
  then show ?case by (simp add: renderPipeline_def)
next
  case (cons s stages)
  obtain s2 stages' where st2: "stages = s2 # stages'"
    using cons.hyps(1) by (cases stages) auto
  have wf: "list_all wellFormedPiece s"
    using inertStage_parts(1) [of s] cons.prems(1) by simp
  have wf2: "list_all wellFormedPiece s2" "s2 \<noteq> []"
    using inertStage_parts [of s2] cons.prems(1) st2 by simp_all
  let ?tail = "renderPipeline stages"
  have tail: "?tail = renderStage s2 @ (if stages' = [] then [] else ''|'' @ renderPipeline stages')"
    by (cases stages') (simp_all add: st2 renderPipeline_def)
  have cmd: "renderPipeline (s # stages) = renderStage s @ CHR ''|'' # ?tail"
    by (simp add: st2 renderPipeline_def)
  from stage_first_char [OF wf2, of "if stages' = [] then [] else ''|'' @ renderPipeline stages'"]
  have nx: "take 1 ?tail \<noteq> ''|''"
    unfolding tail by auto
  from chain_stage [OF cons.prems(2) wf, of "CHR ''|'' # ?tail"] obtain st1 where
    1: "chainLoop st (renderStage s @ CHR ''|'' # ?tail) = chainLoop st1 (CHR ''|'' # ?tail)"
    "chainMode st1 Unquoted" "foundChain st1 = foundChain st"
    by auto
  let ?st2 = "st1\<lparr>chainBuf := chainBuf st1 @ ''|''\<rparr>"
  have 2: "chainLoop st1 (CHR ''|'' # ?tail) = chainLoop ?st2 ?tail"
    using chain_plain_char [OF 1(2), of "CHR ''|''" ?tail] nx by simp
  have m2: "chainMode ?st2 Unquoted"
    using 1(2) by (simp add: chainMode_def)
  have "foundChain (chainLoop ?st2 ?tail) = foundChain ?st2"
    using cons.IH [OF _ m2] cons.prems(1) by simp
  then show ?case
    unfolding cmd using 1 2 by simp
qed

lemma inert_pipeline_no_chain:
  assumes "stages \<noteq> []" "\<forall>s \<in> set stages. inertStage s"
  shows "splitCommandChain (renderPipeline stages) = None"
proof -
  have "chainMode initialChainState Unquoted"
    by (simp add: chainMode_def initialChainState_def)
  from chain_pipeline [OF assms this]
  have "\<not> foundChain (chainLoop initialChainState (renderPipeline stages))"
    by (simp add: initialChainState_def)
  then show ?thesis
    by (simp add: splitCommandChain_def splitCommandChainWithOperators_def Let_def)
qed

lemma parseSegmentsFromParts_total:
  assumes "\<forall>r \<in> set rs. \<exists>args. splitArgs r = Some args \<and> args \<noteq> []"
  shows "\<exists>segs. parseSegmentsFromParts splitArgs resolvePath rs = Some segs
           \<and> map raw segs = rs
           \<and> map argv segs = map (\<lambda>r. case splitArgs r of Some args \<Rightarrow> args | None \<Rightarrow> []) rs"
  using assms
proof (induction rs)
  case Nil
  then show ?case by simp
next
  case (Cons r rs)
  then obtain args where a: "splitArgs r = Some args" "args \<noteq> []" by auto
  from Cons obtain segs where "parseSegmentsFromParts splitArgs resolvePath rs = Some segs"
    "map raw segs = rs"
    "map argv segs = map (\<lambda>r. case splitArgs r of Some args \<Rightarrow> args | None \<Rightarrow> []) rs"
    by auto
  then show ?case using a by simp
qed

subsection \<open>Chains of inert pipelines\<close>

lemma chainKeeps_trans:
  "chainKeeps st st1 a \<Longrightarrow> chainKeeps st1 st2 b \<Longrightarrow> chainKeeps st st2 (a @ b)"
  by (simp add: chainKeeps_def)

lemma keeps_single_text:
  assumes "chainMode st SingleQuoted" "sq \<notin> set t"
  shows "\<exists>st'. chainLoop st (t @ sq # rest) = chainLoop st' rest
           \<and> chainMode st' Unquoted \<and> chainKeeps st st' (t @ [sq])"
  using assms
proof (induction t arbitrary: st)
  case Nil
  let ?st = "st\<lparr>chainInSingle := (sq \<noteq> sq), chainBuf := chainBuf st @ [sq]\<rparr>"
  have "chainLoop st (sq # rest) = chainLoop ?st rest"
    using chain_single [OF Nil(1), of sq rest] by simp
  moreover have "chainMode ?st Unquoted"
    using chainMode_flags(2) [OF Nil(1)] by (simp add: chainMode_def)
  ultimately show ?case by (intro exI [of _ ?st]) (simp add: chainKeeps_def)
next
  case (Cons c t)
  let ?st = "st\<lparr>chainInSingle := (c \<noteq> sq), chainBuf := chainBuf st @ [c]\<rparr>"
  have loop: "chainLoop st ((c # t) @ sq # rest) = chainLoop ?st (t @ sq # rest)"
    using chain_single [OF Cons.prems(1), of c "t @ sq # rest"] by simp
  have m: "chainMode ?st SingleQuoted"
    using chainMode_flags(2) [OF Cons.prems(1)] Cons.prems(2) by (auto simp: chainMode_def)
  from Cons.IH [OF m] Cons.prems(2) obtain st' where
    "chainLoop ?st (t @ sq # rest) = chainLoop st' rest" "chainMode st' Unquoted"
    "chainKeeps ?st st' (t @ [sq])"
    by auto
  then show ?case
    unfolding loop by (intro exI [of _ st']) (simp add: chainKeeps_def)
qed

lemma keeps_double_items:
  assumes "chainMode st DoubleQuoted" "list_all wellFormedDq items"
  shows "\<exists>st'. chainLoop st (concat (map renderDq items) @ dq # rest) = chainLoop st' rest
           \<and> chainMode st' Unquoted \<and> chainKeeps st st' (concat (map renderDq items) @ [dq])"
  using assms
proof (induction items arbitrary: st)
  case Nil
  let ?st = "st\<lparr>chainInDouble := (dq \<noteq> dq), chainBuf := chainBuf st @ [dq]\<rparr>"
  have "chainLoop st (dq # rest) = chainLoop ?st rest"
    using chain_double_char [OF Nil(1), of dq rest] by simp
  moreover have "chainMode ?st Unquoted"
    using chainMode_flags(3) [OF Nil(1)] by (simp add: chainMode_def)
  ultimately show ?case by (intro exI [of _ ?st]) (simp add: chainKeeps_def)
next
  case (Cons i items)
  note f = chainMode_flags(3) [OF Cons.prems(1)]
  let ?tail = "concat (map renderDq items) @ dq # rest"
  have "\<exists>st1. chainLoop st (renderDq i @ ?tail) = chainLoop st1 ?tail
          \<and> chainMode st1 DoubleQuoted \<and> chainKeeps st st1 (renderDq i)"
  proof (cases i)
    case (DqChar c)
    then have c: "c \<noteq> bsl" "c \<noteq> dq"
      using Cons.prems(2) by auto
    let ?st = "st\<lparr>chainInDouble := (c \<noteq> dq), chainBuf := chainBuf st @ [c]\<rparr>"
    have "chainLoop st (renderDq i @ ?tail) = chainLoop ?st ?tail"
      using chain_double_char [OF Cons.prems(1) c(1), of ?tail] DqChar by simp
    moreover have "chainMode ?st DoubleQuoted"
      using f c by (simp add: chainMode_def)
    ultimately show ?thesis using DqChar by (intro exI [of _ ?st]) (simp add: chainKeeps_def)
  next
    case (DqEscape c)
    let ?st = "st\<lparr>chainBuf := chainBuf st @ [bsl, c]\<rparr>"
    have "chainLoop st (renderDq i @ ?tail) = chainLoop ?st ?tail"
      using chain_double_escape_pair [OF Cons.prems(1), of c ?tail] DqEscape by simp
    moreover have "chainMode ?st DoubleQuoted"
      using f by (simp add: chainMode_def)
    ultimately show ?thesis using DqEscape by (intro exI [of _ ?st]) (simp add: chainKeeps_def)
  qed
  then obtain st1 where 1: "chainLoop st (renderDq i @ ?tail) = chainLoop st1 ?tail"
    "chainMode st1 DoubleQuoted" "chainKeeps st st1 (renderDq i)"
    by blast
  from Cons.IH [OF 1(2)] Cons.prems(2) obtain st' where
    2: "chainLoop st1 ?tail = chainLoop st' rest" "chainMode st' Unquoted"
    "chainKeeps st1 st' (concat (map renderDq items) @ [dq])"
    by auto
  show ?case
    using 1(1) 2(1,2) chainKeeps_trans [OF 1(3) 2(3)] by (intro exI [of _ st']) simp
qed

lemma keeps_piece:
  assumes m: "chainMode st Unquoted" and wf: "wellFormedPiece p"
  shows "\<exists>st'. chainLoop st (renderPiece p @ rest) = chainLoop st' rest
           \<and> chainMode st' Unquoted \<and> chainKeeps st st' (renderPiece p)"
proof (cases p)
  case (Plain c)
  then have c: "c \<noteq> bsl" "c \<noteq> CHR '';''" "c \<noteq> CHR ''&''" "c \<noteq> CHR ''|''" "c \<noteq> sq" "c \<noteq> dq"
    using wf by (auto simp: plainChar_def)
  let ?st = "st\<lparr>chainBuf := chainBuf st @ [c]\<rparr>"
  have "chainLoop st (renderPiece p @ rest) = chainLoop ?st rest"
    using chain_plain_char [OF m c(1,2), of rest] c Plain by simp
  moreover have "chainMode ?st Unquoted"
    using m by (simp add: chainMode_def)
  ultimately show ?thesis using Plain by (intro exI [of _ ?st]) (simp add: chainKeeps_def)
next
  case (SingleQuotedText t)
  let ?st = "st\<lparr>chainInSingle := True, chainBuf := chainBuf st @ [sq]\<rparr>"
  have loop: "chainLoop st (renderPiece p @ rest) = chainLoop ?st (t @ sq # rest)"
    using chain_plain_char [OF m, of sq "t @ sq # rest"] SingleQuotedText by simp
  have ms: "chainMode ?st SingleQuoted"
    using chainMode_flags(1) [OF m] by (simp add: chainMode_def)
  from keeps_single_text [OF ms, of t rest] wf SingleQuotedText obtain st' where
    "chainLoop ?st (t @ sq # rest) = chainLoop st' rest" "chainMode st' Unquoted"
    "chainKeeps ?st st' (t @ [sq])"
    by auto
  then show ?thesis
    unfolding loop using SingleQuotedText by (intro exI [of _ st']) (simp add: chainKeeps_def)
next
  case (EscapedChar c)
  let ?st = "st\<lparr>chainBuf := chainBuf st @ [bsl, c]\<rparr>"
  have "chainLoop st (renderPiece p @ rest) = chainLoop ?st rest"
    using chain_escape_pair [OF m, of c rest] EscapedChar by simp
  moreover have "chainMode ?st Unquoted"
    using m by (simp add: chainMode_def)
  ultimately show ?thesis using EscapedChar by (intro exI [of _ ?st]) (simp add: chainKeeps_def)
next
  case (DoubleQuotedText items)
  let ?body = "concat (map renderDq items) @ dq # rest"
  let ?st = "st\<lparr>chainInDouble := True, chainBuf := chainBuf st @ [dq]\<rparr>"
  have loop: "chainLoop st (renderPiece p @ rest) = chainLoop ?st ?body"
    using chain_plain_char [OF m, of dq ?body] DoubleQuotedText by simp
  have md: "chainMode ?st DoubleQuoted"
    using chainMode_flags(1) [OF m] by (simp add: chainMode_def)
  from keeps_double_items [OF md, of items rest] wf DoubleQuotedText obtain st' where
    "chainLoop ?st ?body = chainLoop st' rest" "chainMode st' Unquoted"
    "chainKeeps ?st st' (concat (map renderDq items) @ [dq])"
    by auto
  then show ?thesis
    unfolding loop using DoubleQuotedText by (intro exI [of _ st']) (simp add: chainKeeps_def)
qed

lemma keeps_stage:
  assumes m: "chainMode st Unquoted" and wf: "list_all wellFormedPiece ps"
  shows "\<exists>st'. chainLoop st (renderStage ps @ rest) = chainLoop st' rest
           \<and> chainMode st' Unquoted \<and> chainKeeps st st' (renderStage ps)"
  using m wf
proof (induction ps arbitrary: st)
  case Nil
  then show ?case by (intro exI [of _ st]) (simp add: renderStage_def chainKeeps_def)
next
  case (Cons p ps)
  let ?tail = "renderStage ps @ rest"
  from keeps_piece [OF Cons.prems(1), of p ?tail] Cons.prems(2) obtain st1 where
    1: "chainLoop st (renderPiece p @ ?tail) = chainLoop st1 ?tail" "chainMode st1 Unquoted"
    "chainKeeps st st1 (renderPiece p)"
    by auto
  from Cons.IH [OF 1(2)] Cons.prems(2) obtain st' where
    2: "chainLoop st1 ?tail = chainLoop st' rest" "chainMode st' Unquoted"
    "chainKeeps st1 st' (renderStage ps)"
    by auto
  have "chainLoop st (renderStage (p # ps) @ rest) = chainLoop st' rest"
    using 1(1) 2(1) by (simp add: renderStage_def)
  moreover have "chainKeeps st st' (renderStage (p # ps))"
    using chainKeeps_trans [OF 1(3) 2(3)] by (simp add: renderStage_def)
  ultimately show ?case
    using 2(2) by (intro exI [of _ st']) simp
qed

lemma renderPipeline_Cons:
  "stages \<noteq> [] \<Longrightarrow> renderPipeline (s # stages) = renderStage s @ CHR ''|'' # renderPipeline stages"
  by (cases stages) (simp_all add: renderPipeline_def)

lemma keeps_pipeline:
  assumes stages: "stages \<noteq> []" "\<forall>s \<in> set stages. inertStage s"
    and m: "chainMode st Unquoted"
  shows "\<exists>st'. chainLoop st (renderPipeline stages @ rest) = chainLoop st' rest
           \<and> chainMode st' Unquoted \<and> chainKeeps st st' (renderPipeline stages)"
  using stages m
proof (induction stages arbitrary: st rule: list_nonempty_induct)
  case (single s)
  from keeps_stage [OF single.prems(2), of s rest] inertStage_parts(1) [of s] single.prems(1)
  show ?case by (simp add: renderPipeline_def)
next
  case (cons s stages)
  obtain s2 stages' where st2: "stages = s2 # stages'"
    using cons.hyps(1) by (cases stages) auto
  have wf: "list_all wellFormedPiece s"
    using inertStage_parts(1) [of s] cons.prems(1) by simp
  have wf2: "list_all wellFormedPiece s2" "s2 \<noteq> []"
    using inertStage_parts [of s2] cons.prems(1) st2 by simp_all
  let ?tail = "renderPipeline stages @ rest"
  have tail: "?tail = renderStage s2 @ ((if stages' = [] then [] else ''|'' @ renderPipeline stages') @ rest)"
    by (cases stages') (simp_all add: st2 renderPipeline_def)
  have cmd: "renderPipeline (s # stages) @ rest = renderStage s @ CHR ''|'' # ?tail"
    using renderPipeline_Cons [OF cons.hyps(1)] by simp
  from stage_first_char [OF wf2, of "(if stages' = [] then [] else ''|'' @ renderPipeline stages') @ rest"]
  have nx: "take 1 ?tail \<noteq> ''|''"
    unfolding tail by auto
  from keeps_stage [OF cons.prems(2) wf, of "CHR ''|'' # ?tail"] obtain st1 where
    1: "chainLoop st (renderStage s @ CHR ''|'' # ?tail) = chainLoop st1 (CHR ''|'' # ?tail)"
    "chainMode st1 Unquoted" "chainKeeps st st1 (renderStage s)"
    by auto
  let ?st2 = "st1\<lparr>chainBuf := chainBuf st1 @ ''|''\<rparr>"
  have 2: "chainLoop st1 (CHR ''|'' # ?tail) = chainLoop ?st2 ?tail"
    using chain_plain_char [OF 1(2), of "CHR ''|''" ?tail] nx by simp
  have m2: "chainMode ?st2 Unquoted"
    using 1(2) by (simp add: chainMode_def)
  have k2: "chainKeeps st ?st2 (renderStage s @ ''|'')"
    using 1(3) by (simp add: chainKeeps_def)
  from cons.IH [OF _ m2] cons.prems(1) obtain st' where
    3: "chainLoop ?st2 ?tail = chainLoop st' rest" "chainMode st' Unquoted"
    "chainKeeps ?st2 st' (renderPipeline stages)"
    by auto
  have "chainKeeps st st' (renderPipeline (s # stages))"
    using chainKeeps_trans [OF k2 3(3)] renderPipeline_Cons [OF cons.hyps(1), of s] by simp
  then show ?case
    unfolding cmd using 1(1) 2 3(1,2) by (intro exI [of _ st']) simp
qed

lemma keeps_blank:
  assumes m: "chainMode st Unquoted" and ws: "blankText ws"
  shows "\<exists>st'. chainLoop st (ws @ rest) = chainLoop st' rest
           \<and> chainMode st' Unquoted \<and> chainKeeps st st' ws"
  using m ws
proof (induction ws arbitrary: st)
  case Nil
  then show ?case by (intro exI [of _ st]) (simp add: chainKeeps_def)
next
  case (Cons c ws)
  then have sp: "is_space c" by (simp add: blankText_def)
  then have c: "c \<noteq> bsl" "c \<noteq> CHR '';''" "c \<noteq> CHR ''&''" "c \<noteq> CHR ''|''" "c \<noteq> sq" "c \<noteq> dq"
    by (auto simp: is_space_def)
  let ?st = "st\<lparr>chainBuf := chainBuf st @ [c]\<rparr>"
  have 1: "chainLoop st ((c # ws) @ rest) = chainLoop ?st (ws @ rest)"
    using chain_plain_char [OF Cons.prems(1) c(1,2), of "ws @ rest"] c by simp
  have m1: "chainMode ?st Unquoted"
    using Cons.prems(1) by (simp add: chainMode_def)
  from Cons.IH [OF m1] Cons.prems(2) obtain st' where
    2: "chainLoop ?st (ws @ rest) = chainLoop st' rest" "chainMode st' Unquoted"
    "chainKeeps ?st st' ws"
    by (auto simp: blankText_def)
  show ?case
    using 1 2 by (intro exI [of _ st']) (simp add: chainKeeps_def)
qed

lemma chain_operator:
  assumes m: "chainMode st Unquoted"
  shows "chainLoop st (operatorText op @ rest) = chainLoop (pushChainPart st op) rest"
proof (cases op)
  case AndAnd
  then show ?thesis
    using chain_operator_pair [OF m, of "CHR ''&''" rest] by (simp add: operatorText_def)
next
  case OrOr
  then show ?thesis
    using chain_operator_pair [OF m, of "CHR ''|''" rest] by (simp add: operatorText_def)
next
  case Semi
  then show ?thesis
    using chain_semicolon [OF m, of rest] by (simp add: operatorText_def)
qed

lemma trim_padded:
  assumes "blankText a" "blankText b" "t \<noteq> []" "\<not> is_space (hd t)" "\<not> is_space (last t)"
  shows "trim (a @ t @ b) = t"
proof -
  have a: "\<forall>c \<in> set a. is_space c" and b: "\<forall>c \<in> set b. is_space c"
    using assms(1,2) by (simp_all add: blankText_def list_all_iff)
  obtain c cs where t: "t = c # cs" using assms(3) by (cases t) auto
  have 1: "dropWhile is_space (a @ t @ b) = t @ b"
    using a assms(4) t by (simp add: dropWhile_append3)
  have "rev (t @ b) = rev b @ rev t" by simp
  moreover have "\<forall>c \<in> set (rev b). is_space c" using b by simp
  moreover have "rev t \<noteq> []" "\<not> is_space (hd (rev t))"
    using assms(3,5) by (simp_all add: hd_rev)
  ultimately have 2: "dropWhile is_space (rev (t @ b)) = rev t"
    by (cases "rev t") (simp_all add: dropWhile_append3)
  show ?thesis
    by (simp add: trim_def 1 2 del: rev_append)
qed

lemma tightPipeline_parts:
  assumes "tightPipeline p"
  shows "p \<noteq> []" "\<forall>s \<in> set p. inertStage s" "renderPipeline p \<noteq> []"
    "\<not> is_space (hd (renderPipeline p))" "\<not> is_space (last (renderPipeline p))"
proof -
  show 1: "p \<noteq> []" "\<forall>s \<in> set p. inertStage s"
    "\<not> is_space (hd (renderPipeline p))" "\<not> is_space (last (renderPipeline p))"
    using assms by (simp_all add: tightPipeline_def list_all_iff)
  obtain s ss where p: "p = s # ss" using 1(1) by (cases p) auto
  have "renderStage s \<noteq> []"
    using inertStage_parts(3) [of s] 1(2) p by (auto simp: trim_def)
  then show "renderPipeline p \<noteq> []"
    by (cases ss) (simp_all add: p renderPipeline_def)
qed

lemma linkParts_ne: "linkParts p links \<noteq> []"
  by (cases links) auto

lemma chain_links:
  assumes m: "chainMode st Unquoted" and buf: "chainBuf st = a @ renderPipeline p"
    and a: "blankText a" and p: "tightPipeline p" and links: "list_all tightLink links"
    and z: "blankText z"
  shows "\<exists>st' a' p'. chainLoop st (renderLinks links @ z) = st' \<and> chainMode st' Unquoted
           \<and> chainBuf st' = a' @ renderPipeline p' @ z \<and> blankText a' \<and> tightPipeline p'
           \<and> chainParts st' @ [\<lparr>part = renderPipeline p', opToNext = None\<rparr>]
               = chainParts st @ linkParts p links
           \<and> foundChain st' = (foundChain st \<or> links \<noteq> [])
           \<and> invalidChain st' = invalidChain st"
  using m buf a p links
proof (induction links arbitrary: st a p)
  case Nil
  from keeps_blank [OF Nil(1) z, of "[]"] obtain st' where
    "chainLoop st z = st'" "chainMode st' Unquoted" "chainKeeps st st' z"
    by auto
  then show ?case
    using Nil by (intro exI [of _ st'] exI [of _ a] exI [of _ p]) (simp add: chainKeeps_def)
next
  case (Cons l links)
  obtain b op a2 p2 where l: "l = (b, op, a2, p2)" by (cases l)
  have lk: "blankText b" "blankText a2" "tightPipeline p2" and more: "list_all tightLink links"
    using Cons.prems(5) l by simp_all
  let ?r2 = "renderPipeline p2 @ renderLinks links @ z"
  let ?r1 = "operatorText op @ a2 @ ?r2"
  have whole: "renderLinks (l # links) @ z = b @ ?r1" by (simp add: l)
  from keeps_blank [OF Cons.prems(1) lk(1), of ?r1] obtain st1 where
    1: "chainLoop st (b @ ?r1) = chainLoop st1 ?r1" "chainMode st1 Unquoted" "chainKeeps st st1 b"
    by blast
  let ?st2 = "pushChainPart st1 op"
  have 2: "chainLoop st1 ?r1 = chainLoop ?st2 (a2 @ ?r2)"
    using chain_operator [OF 1(2), of op "a2 @ ?r2"] by simp
  note tp = tightPipeline_parts [OF Cons.prems(4)]
  have b1: "chainBuf st1 = a @ renderPipeline p @ b"
    using 1(3) Cons.prems(2) by (simp add: chainKeeps_def)
  have tr: "trim (chainBuf st1) = renderPipeline p"
    unfolding b1 by (rule trim_padded [OF Cons.prems(3) lk(1) tp(3,4,5)])
  have st2: "chainMode ?st2 Unquoted" "chainBuf ?st2 = []"
    "chainParts ?st2 = chainParts st @ [\<lparr>part = renderPipeline p, opToNext = Some op\<rparr>]"
    "foundChain ?st2" "invalidChain ?st2 = invalidChain st"
    unfolding pushChainPart_def Let_def tr
    using 1(2,3) tp(3) by (simp_all add: chainMode_def chainKeeps_def)
  from keeps_blank [OF st2(1) lk(2), of ?r2] obtain st3 where
    3: "chainLoop ?st2 (a2 @ ?r2) = chainLoop st3 ?r2" "chainMode st3 Unquoted"
    "chainKeeps ?st2 st3 a2"
    by blast
  note tp2 = tightPipeline_parts [OF lk(3)]
  from keeps_pipeline [OF tp2(1,2) 3(2), of "renderLinks links @ z"] obtain st4 where
    4: "chainLoop st3 ?r2 = chainLoop st4 (renderLinks links @ z)" "chainMode st4 Unquoted"
    "chainKeeps st3 st4 (renderPipeline p2)"
    by blast
  have b4: "chainBuf st4 = a2 @ renderPipeline p2"
    using 3(3) 4(3) st2(2) by (simp add: chainKeeps_def)
  from Cons.IH [OF 4(2) b4 lk(2,3) more] obtain st' a' p' where
    5: "chainLoop st4 (renderLinks links @ z) = st'" "chainMode st' Unquoted"
    "chainBuf st' = a' @ renderPipeline p' @ z" "blankText a'" "tightPipeline p'"
    "chainParts st' @ [\<lparr>part = renderPipeline p', opToNext = None\<rparr>]
               = chainParts st4 @ linkParts p2 links"
    "foundChain st' = (foundChain st4 \<or> links \<noteq> [])"
    "invalidChain st' = invalidChain st4"
    by blast
  have p4: "chainParts st4 = chainParts st @ [\<lparr>part = renderPipeline p, opToNext = Some op\<rparr>]"
    "foundChain st4" "invalidChain st4 = invalidChain st"
    using 3(3) 4(3) st2 by (simp_all add: chainKeeps_def)
  have loop: "chainLoop st (renderLinks (l # links) @ z) = st'"
    unfolding whole using 1(1) 2 3(1) 4(1) 5(1) by simp
  show ?case
    using loop 5(2-5) 5(6) 5(7,8) p4
    by (intro exI [of _ st'] exI [of _ a'] exI [of _ p']) (simp add: l)
qed

lemma inert_chain_split:
  assumes p: "tightPipeline p" and links: "list_all tightLink links" and ne: "links \<noteq> []"
    and a: "blankText a" and z: "blankText z"
  shows "splitCommandChainWithOperators (a @ renderInertChain p links @ z) = Some (linkParts p links)"
proof -
  note tp = tightPipeline_parts [OF p]
  have m0: "chainMode initialChainState Unquoted"
    by (simp add: chainMode_def initialChainState_def)
  from keeps_blank [OF m0 a, of "renderPipeline p @ renderLinks links @ z"] obtain s0 where
    0: "chainLoop initialChainState (a @ renderPipeline p @ renderLinks links @ z) =
          chainLoop s0 (renderPipeline p @ renderLinks links @ z)"
    "chainMode s0 Unquoted" "chainKeeps initialChainState s0 a"
    by blast
  from keeps_pipeline [OF tp(1,2) 0(2), of "renderLinks links @ z"] obtain s1 where
    1: "chainLoop s0 (renderPipeline p @ renderLinks links @ z) = chainLoop s1 (renderLinks links @ z)"
    "chainMode s1 Unquoted" "chainKeeps s0 s1 (renderPipeline p)"
    by blast
  have b1: "chainBuf s1 = a @ renderPipeline p" "chainParts s1 = []" "\<not> foundChain s1"
    "\<not> invalidChain s1"
    using 0(3) 1(3) by (simp_all add: chainKeeps_def initialChainState_def)
  from chain_links [OF 1(2) b1(1) a p links z] obtain st' a' p' where
    2: "chainLoop s1 (renderLinks links @ z) = st'"
    "chainBuf st' = a' @ renderPipeline p' @ z" "blankText a'" "tightPipeline p'"
    "chainParts st' @ [\<lparr>part = renderPipeline p', opToNext = None\<rparr>]
               = chainParts s1 @ linkParts p links"
    "foundChain st' = (foundChain s1 \<or> links \<noteq> [])"
    "invalidChain st' = invalidChain s1"
    by blast
  note tp' = tightPipeline_parts [OF 2(4)]
  have tr: "trim (chainBuf st') = renderPipeline p'"
    unfolding 2(2) by (rule trim_padded [OF 2(3) z tp'(3,4,5)])
  have loop: "chainLoop initialChainState (a @ renderInertChain p links @ z) = st'"
    using 0(1) 1(1) 2(1) by (simp add: renderInertChain_def)
  show ?thesis
    unfolding splitCommandChainWithOperators_def Let_def loop tr
    using 2(5,6,7) b1 ne tp'(3) linkParts_ne [of p links] by simp
qed

lemma escapeSingleQuotes_concat:
  "concat (map (\<lambda>c. if c = sq then [sq, dq, sq, dq, sq] else [c]) v) = escapeSingleQuotes v"
  by (induction v) auto

lemma renderQuotedArgv_quotedTokens: "renderQuotedArgv args = quotedTokens args"
  unfolding renderQuotedArgv_def
  by (induction args rule: quotedTokens.induct)
    (simp_all add: shellEscapeSingleArg_def singleQuoted_def escapeSingleQuotes_concat)

lemma part_linkParts: "map part (linkParts p links) = map renderPipeline (chainPipelines p links)"
  by (induction links arbitrary: p) (auto simp: chainPipelines_def)

lemma analyze_pipelines:
  assumes "\<forall>p \<in> set ps. p \<noteq> [] \<and> (\<forall>s \<in> set p. inertStage s)"
    and "\<forall>p \<in> set ps. \<forall>s \<in> set p. \<exists>args. splitArgs (trim (renderStage s)) = Some args \<and> args \<noteq> []"
  shows "\<exists>cs. analyzeChainParts splitArgs resolvePath (map renderPipeline ps) chainsAcc allSegments =
            \<lparr>ok = True, reason = None, segments = allSegments @ concat cs,
             chains = Some (chainsAcc @ cs)\<rparr>
          \<and> map (map raw) cs = map stageTexts ps"
  using assms
proof (induction ps arbitrary: chainsAcc allSegments)
  case Nil
  then show ?case by simp
next
  case (Cons p ps)
  have st: "p \<noteq> []" "\<forall>s \<in> set p. inertStage s" using Cons.prems(1) by simp_all
  have split: "splitShellPipeline (renderPipeline p) =
         \<lparr>splitOk = True, splitReason = None, splitSegments = stageTexts p\<rparr>"
    unfolding stageTexts_def by (rule inert_pipeline_split [OF st])
  have "\<forall>r \<in> set (stageTexts p). \<exists>args. splitArgs r = Some args \<and> args \<noteq> []"
    using Cons.prems(2) by (auto simp: stageTexts_def)
  from parseSegmentsFromParts_total [OF this, of resolvePath] obtain segs where
    segs: "parseSegmentsFromParts splitArgs resolvePath (stageTexts p) = Some segs"
    "map raw segs = stageTexts p"
    by blast
  from Cons.IH [of "chainsAcc @ [segs]" "allSegments @ segs"] Cons.prems obtain cs where
    cs: "analyzeChainParts splitArgs resolvePath (map renderPipeline ps) (chainsAcc @ [segs])
           (allSegments @ segs) =
            \<lparr>ok = True, reason = None, segments = (allSegments @ segs) @ concat cs,
             chains = Some ((chainsAcc @ [segs]) @ cs)\<rparr>"
    "map (map raw) cs = map stageTexts ps"
    by auto
  show ?case
    using cs segs by (intro exI [of _ "segs # cs"]) (simp add: split Let_def)
qed

lemma renderLinks_last:
  "links \<noteq> [] \<Longrightarrow> list_all tightLink links \<Longrightarrow>
     renderLinks links \<noteq> [] \<and> \<not> is_space (last (renderLinks links))"
proof (induction links)
  case Nil
  then show ?case by simp
next
  case (Cons l links)
  obtain b op a p where l: "l = (b, op, a, p)" by (cases l)
  have tp: "renderPipeline p \<noteq> []" "\<not> is_space (last (renderPipeline p))"
    using tightPipeline_parts [of p] Cons.prems(2) l by simp_all
  show ?case
  proof (cases "links = []")
    case True
    then show ?thesis using tp by (simp add: l)
  next
    case False
    then show ?thesis using Cons l by simp
  qed
qed

lemma chain_tight:
  assumes "tightPipeline p" "list_all tightLink links"
  shows "renderInertChain p links \<noteq> []" "\<not> is_space (hd (renderInertChain p links))"
    "\<not> is_space (last (renderInertChain p links))"
proof -
  note tp = tightPipeline_parts [OF assms(1)]
  show "renderInertChain p links \<noteq> []" "\<not> is_space (hd (renderInertChain p links))"
    using tp by (simp_all add: renderInertChain_def)
  show "\<not> is_space (last (renderInertChain p links))"
    using tp renderLinks_last [OF _ assms(2)] by (cases "links = []") (simp_all add: renderInertChain_def)
qed

lemma commandChainParts_chain:
  assumes p: "tightPipeline p" and links: "list_all tightLink links"
    and a: "blankText a" and z: "blankText z"
  shows "commandChainParts (a @ renderInertChain p links @ z) = linkParts p links"
proof -
  have tr: "trim (a @ renderInertChain p links @ z) = renderInertChain p links"
    by (rule trim_padded [OF a z chain_tight [OF p links]])
  show ?thesis
  proof (cases "links = []")
    case True
    have "splitCommandChain (renderPipeline p) = None"
      using inert_pipeline_no_chain tightPipeline_parts(1,2) [OF p] by blast
    then have "splitCommandChainWithOperators (renderPipeline p) = None"
      by (simp add: splitCommandChain_def)
    then show ?thesis
      unfolding commandChainParts_def tr by (simp add: True renderInertChain_def)
  next
    case False
    have "splitCommandChainWithOperators ([] @ renderInertChain p links @ []) = Some (linkParts p links)"
      by (rule inert_chain_split [OF p links False]) (simp_all add: blankText_def)
    then show ?thesis
      unfolding commandChainParts_def tr by simp
  qed
qed

lemma renderPipelineSegments_selective:
  "p \<noteq> [] \<Longrightarrow> i + length p \<le> length segs \<Longrightarrow> length bys = length segs \<Longrightarrow>
     \<exists>rendered. renderPipelineSegments segs bys i (stageTexts p) = Some (rendered, i + length p)
        \<and> join '' | '' rendered = selectivePipeline p (drop i segs) (drop i bys)"
proof (induction p arbitrary: i rule: list_nonempty_induct)
  case (single s)
  then have lt: "i < length segs" "i < length bys" by simp_all
  have d: "drop i segs = segs ! i # drop (Suc i) segs" "drop i bys = bys ! i # drop (Suc i) bys"
    using lt by (simp_all add: Cons_nth_drop_Suc)
  show ?case
    using lt unfolding d
    by (simp add: stageTexts_def selectiveStage_def renderQuotedArgv_quotedTokens trim_idem)
next
  case (cons s p)
  then have lt: "i < length segs" "i < length bys" by simp_all
  have d: "drop i segs = segs ! i # drop (Suc i) segs" "drop i bys = bys ! i # drop (Suc i) bys"
    using lt by (simp_all add: Cons_nth_drop_Suc)
  obtain s2 p' where p: "p = s2 # p'" using cons.hyps(1) by (cases p) auto
  from cons.IH [of "Suc i"] cons.prems obtain rendered where
    r: "renderPipelineSegments segs bys (Suc i) (stageTexts p) = Some (rendered, Suc i + length p)"
    "join '' | '' rendered = selectivePipeline p (drop (Suc i) segs) (drop (Suc i) bys)"
    by auto
  have ne: "rendered \<noteq> []"
    using r(1) by (auto simp: p stageTexts_def split: if_splits option.splits)
  then obtain r1 rs where rr: "rendered = r1 # rs" by (cases rendered) auto
  let ?x = "selectiveStage s (segs ! i) (bys ! i)"
  have step: "renderPipelineSegments segs bys i (stageTexts (s # p)) =
      Some (?x # rendered, i + length (s # p))"
    using lt r(1)
    by (simp add: stageTexts_def selectiveStage_def renderQuotedArgv_quotedTokens trim_idem Let_def)
  have "join '' | '' (?x # rendered) = ?x @ '' | '' @ join '' | '' rendered"
    by (simp add: rr)
  also have "\<dots> = selectivePipeline (s # p) (drop i segs) (drop i bys)"
    unfolding d r(2) by (simp add: p)
  finally show ?case
    using step by blast
qed

lemma buildChainParts_selective:
  assumes "list_all tightLink links" "tightPipeline p"
    and "length bys = length segs" "i + stageCount p links = length segs"
  shows "buildChainParts segs bys (linkParts p links) i out =
       \<lparr>builtOk = True,
        builtCommand = Some (out @ selectiveChain p links (drop i segs) (drop i bys)),
        builtReason = None\<rparr>"
  using assms
proof (induction links arbitrary: p i out)
  case Nil
  note tp = tightPipeline_parts [OF Nil(2)]
  have split: "splitShellPipeline (renderPipeline p) =
         \<lparr>splitOk = True, splitReason = None, splitSegments = stageTexts p\<rparr>"
    unfolding stageTexts_def by (rule inert_pipeline_split [OF tp(1,2)])
  have len: "i + length p = length segs"
    using Nil(4) by (simp add: stageCount_def chainPipelines_def)
  from renderPipelineSegments_selective [OF tp(1) _ Nil(3), of i] len obtain rendered where
    r: "renderPipelineSegments segs bys i (stageTexts p) = Some (rendered, i + length p)"
    "join '' | '' rendered = selectivePipeline p (drop i segs) (drop i bys)"
    by auto
  show ?case
    using r len by (simp add: split Let_def operatorSuffix_def selectiveChain_def)
next
  case (Cons l links)
  obtain b op a q where l: "l = (b, op, a, q)" by (cases l)
  note tp = tightPipeline_parts [OF Cons.prems(2)]
  have lk: "tightPipeline q" "list_all tightLink links"
    using Cons.prems(1) l by simp_all
  have split: "splitShellPipeline (renderPipeline p) =
         \<lparr>splitOk = True, splitReason = None, splitSegments = stageTexts p\<rparr>"
    unfolding stageTexts_def by (rule inert_pipeline_split [OF tp(1,2)])
  have cnt: "i + length p + stageCount q links = length segs"
    using Cons.prems(4) by (simp add: stageCount_def chainPipelines_def l)
  from renderPipelineSegments_selective [OF tp(1) _ Cons.prems(3), of i] cnt obtain rendered where
    r: "renderPipelineSegments segs bys i (stageTexts p) = Some (rendered, i + length p)"
    "join '' | '' rendered = selectivePipeline p (drop i segs) (drop i bys)"
    by auto
  have ih: "buildChainParts segs bys (linkParts q links) (i + length p) out' =
       \<lparr>builtOk = True,
        builtCommand = Some (out' @ selectiveChain q links (drop (i + length p) segs)
                                      (drop (i + length p) bys)),
        builtReason = None\<rparr>" for out'
    by (rule Cons.IH [OF lk(2,1) Cons.prems(3) cnt])
  show ?case
    using r
    by (simp add: l split Let_def operatorSuffix_def selectiveChain_def ih add.commute)
qed

subsection \<open>Command substitution and inert quoting\<close>

lemma part_live_rejected:
  assumes "\<not> isWindowsPlatform platform"
    and e: "\<exists>p \<in> set (chainPartTexts cmd). liveSubstitution Unquoted [] None p"
  shows "\<not> ok (analyzeShellCommand splitArgs resolvePath cmd platform)"
proof (cases "splitCommandChain cmd")
  case None
  then have "liveSubstitution Unquoted [] None cmd"
    using e by (simp add: chainPartTexts_def)
  from live_pipeline_rejected [OF this] show ?thesis
    using assms(1) None by (simp add: analyzeShellCommand_def Let_def)
next
  case (Some ps)
  then have "\<exists>p \<in> set ps. \<not> splitOk (splitShellPipeline p)"
    using e live_pipeline_rejected by (auto simp: chainPartTexts_def)
  then show ?thesis
    using assms(1) Some analyzeChainParts_rejects by (simp add: analyzeShellCommand_def)
qed

lemma inert_pipeline_analysis:
  assumes posix: "\<not> isWindowsPlatform platform"
    and st: "stages \<noteq> []" "\<forall>s \<in> set stages. inertStage s"
    and sa: "\<forall>s \<in> set stages. \<exists>args. splitArgs (trim (renderStage s)) = Some args \<and> args \<noteq> []"
  shows "ok (analyzeShellCommand splitArgs resolvePath (renderPipeline stages) platform)
       \<and> map raw (segments (analyzeShellCommand splitArgs resolvePath
                                (renderPipeline stages) platform)) = stageTexts stages"
proof -
  have chain: "splitCommandChain (renderPipeline stages) = None"
    by (rule inert_pipeline_no_chain [OF st])
  have split: "splitShellPipeline (renderPipeline stages) =
       \<lparr>splitOk = True, splitReason = None, splitSegments = stageTexts stages\<rparr>"
    unfolding stageTexts_def by (rule inert_pipeline_split [OF st])
  have "\<forall>r \<in> set (stageTexts stages). \<exists>args. splitArgs r = Some args \<and> args \<noteq> []"
    using sa by (auto simp: stageTexts_def)
  from parseSegmentsFromParts_total [OF this, of resolvePath] obtain segs where
    segs: "parseSegmentsFromParts splitArgs resolvePath (stageTexts stages) = Some segs"
    "map raw segs = stageTexts stages"
    by blast
  show ?thesis
    unfolding analyzeShellCommand_single_pipeline [OF posix chain] split
    using segs by simp
qed

lemma chainPipelines_inert:
  assumes "tightPipeline p" "list_all tightLink links"
  shows "\<forall>q \<in> set (chainPipelines p links). q \<noteq> [] \<and> (\<forall>s \<in> set q. inertStage s)"
  using assms
  by (auto simp: chainPipelines_def tightPipeline_def list_all_iff)

lemma inert_chain_analysis:
  assumes posix: "\<not> isWindowsPlatform platform"
    and p: "tightPipeline p" and links: "list_all tightLink links" "links \<noteq> []"
    and a: "blankText a" and z: "blankText z"
    and sa: "\<forall>q \<in> set (chainPipelines p links). \<forall>s \<in> set q.
               \<exists>args. splitArgs (trim (renderStage s)) = Some args \<and> args \<noteq> []"
  shows "ok (analyzeShellCommand splitArgs resolvePath (a @ renderInertChain p links @ z) platform)
       \<and> map raw (segments (analyzeShellCommand splitArgs resolvePath
                                (a @ renderInertChain p links @ z) platform))
           = concat (map stageTexts (chainPipelines p links))
       \<and> map_option (map (map raw))
           (chains (analyzeShellCommand splitArgs resolvePath
                      (a @ renderInertChain p links @ z) platform))
           = Some (map stageTexts (chainPipelines p links))"
proof -
  have split: "splitCommandChain (a @ renderInertChain p links @ z) =
      Some (map renderPipeline (chainPipelines p links))"
    unfolding splitCommandChain_def inert_chain_split [OF p links a z]
    by (simp add: part_linkParts)
  from analyze_pipelines [OF chainPipelines_inert [OF p links(1)] sa, of resolvePath "[]" "[]"]
  obtain cs where cs: "analyzeChainParts splitArgs resolvePath
        (map renderPipeline (chainPipelines p links)) [] [] =
            \<lparr>ok = True, reason = None, segments = concat cs, chains = Some cs\<rparr>"
    "map (map raw) cs = map stageTexts (chainPipelines p links)"
    by auto
  have "map raw (concat cs) = concat (map stageTexts (chainPipelines p links))"
    using cs(2) by (simp add: map_concat)
  then show ?thesis
    using posix cs by (simp add: analyzeShellCommand_def split)
qed

text \<open>
  C1, as the code has it. In POSIX mode a command is rejected in each of these
  cases: an unescaped \<open>$(\<close> or backtick stands outside single quotes before the
  first heredoc operator outside quotes; the command has no \<open>;\<close>, \<open>&&\<close> or \<open>||\<close>
  outside quotes and such a token is live in the heredoc-aware reading (in the
  command text outside single quotes, or in the body of a heredoc with an unquoted
  delimiter); one of the texts the chain splitter hands to the segmenter has such a
  live token. A pipeline whose stages consist of ordinary characters, single-quoted
  text, backslash-escaped characters and double-quoted text with recognized
  escapes, no stage blank, is accepted as soon as every stage can be split into a
  non-empty argv, and the result has one segment per stage, in order, each with the
  trimmed text of its stage. A chain of such pipelines joined by \<open>&&\<close>, \<open>||\<close> or
  \<open>;\<close>, with blanks around the operators and around the whole, no pipeline
  beginning or ending with white space, is accepted in the same way: the segments
  are those of all its pipelines, in order, and \<open>chains\<close> groups them by pipeline.
\<close>

theorem analyzeShellCommand_substitution:
  "\<not> isWindowsPlatform platform \<longrightarrow>
     (exposedBeforeHeredoc Unquoted cmd
        \<or> (liveSubstitution Unquoted [] None cmd \<and> \<not> chainOperatorExposed Unquoted cmd)
        \<or> (\<exists>t \<in> set (chainPartTexts cmd). liveSubstitution Unquoted [] None t)
      \<longrightarrow> \<not> ok (analyzeShellCommand splitArgs resolvePath cmd platform))
     \<and> (stages \<noteq> [] \<and> (\<forall>s \<in> set stages. inertStage s)
         \<and> (\<forall>s \<in> set stages. \<exists>args. splitArgs (trim (renderStage s)) = Some args \<and> args \<noteq> [])
        \<longrightarrow>
          ok (analyzeShellCommand splitArgs resolvePath (renderPipeline stages) platform)
          \<and> map raw (segments (analyzeShellCommand splitArgs resolvePath
                                   (renderPipeline stages) platform))
              = stageTexts stages)
     \<and> (tightPipeline p \<and> list_all tightLink links \<and> links \<noteq> [] \<and> blankText a \<and> blankText z
         \<and> (\<forall>q \<in> set (chainPipelines p links). \<forall>s \<in> set q.
               \<exists>args. splitArgs (trim (renderStage s)) = Some args \<and> args \<noteq> [])
        \<longrightarrow>
          ok (analyzeShellCommand splitArgs resolvePath (a @ renderInertChain p links @ z) platform)
          \<and> map raw (segments (analyzeShellCommand splitArgs resolvePath
                                   (a @ renderInertChain p links @ z) platform))
              = concat (map stageTexts (chainPipelines p links))
          \<and> map_option (map (map raw))
              (chains (analyzeShellCommand splitArgs resolvePath
                         (a @ renderInertChain p links @ z) platform))
              = Some (map stageTexts (chainPipelines p links)))"
  using live_analysis_rejected [of platform cmd splitArgs resolvePath]
    part_live_rejected [of platform cmd splitArgs resolvePath]
    inert_pipeline_analysis [of platform stages splitArgs resolvePath]
    inert_chain_analysis [of platform p links a z splitArgs resolvePath]
  by blast

theorem analyzeShellCommand_substitution_witness:
  "\<not> ok (analyzeShellCommand shellWords usrBin
            (''echo '' @ [dq] @ ''output: $(whoami)'' @ [dq]) None)
   \<and> \<not> ok (analyzeShellCommand shellWords usrBin
            (''echo '' @ [dq] @ ''<<'' @ [dq] @ '' $(id)'') None)
   \<and> \<not> ok (analyzeShellCommand shellWords usrBin ''echo $(id) << EOF'' None)
   \<and> \<not> ok (analyzeShellCommand shellWords usrBin
            (''cat <<EOF'' @ [nl] @ ''$(id)'' @ [nl] @ ''EOF'') None)
   \<and> \<not> ok (analyzeShellCommand shellWords usrBin
            (''echo a; cat <<EOF'' @ [nl] @ ''$(id)'' @ [nl] @ ''EOF'') None)
   \<and> ok (analyzeShellCommand shellWords usrBin
            (''echo '' @ [sq] @ ''output: $(whoami)'' @ [sq]) None)
   \<and> map raw (segments (analyzeShellCommand shellWords usrBin
            (''echo '' @ [sq] @ ''output: $(whoami)'' @ [sq]) None))
       = [''echo '' @ [sq] @ ''output: $(whoami)'' @ [sq]]
   \<and> ok (analyzeShellCommand shellWords usrBin
            (''echo '' @ [dq] @ ''output: '' @ [bsl] @ ''$(whoami)'' @ [dq]) None)
   \<and> ok (analyzeShellCommand shellWords usrBin
            (''echo '' @ [sq] @ ''$(a)'' @ [sq] @ '' && echo ok'') None)
   \<and> map raw (segments (analyzeShellCommand shellWords usrBin
            (''echo '' @ [sq] @ ''$(a)'' @ [sq] @ '' && echo ok'') None))
       = [''echo '' @ [sq] @ ''$(a)'' @ [sq], ''echo ok'']"
proof -
  define s1 where "s1 = map Plain ''echo '' @ [SingleQuotedText ''output: $(whoami)'']"
  define s2 where "s2 = map Plain ''echo ''
      @ [DoubleQuotedText (map DqChar ''output: '' @ [DqEscape CHR ''$''] @ map DqChar ''(whoami)'')]"
  define p where "p = [map Plain ''echo '' @ [SingleQuotedText ''$(a)'']]"
  define links where "links = [('' '', AndAnd, '' '', [map Plain ''echo ok''])]"
  have posix: "\<not> isWindowsPlatform None" by code_simp
  have e: "exposedBeforeHeredoc Unquoted (''echo '' @ [dq] @ ''output: $(whoami)'' @ [dq])"
    "exposedBeforeHeredoc Unquoted (''echo '' @ [dq] @ ''<<'' @ [dq] @ '' $(id)'')"
    "exposedBeforeHeredoc Unquoted ''echo $(id) << EOF''"
    by code_simp+
  have w: "liveSubstitution Unquoted [] None (''cat <<EOF'' @ [nl] @ ''$(id)'' @ [nl] @ ''EOF'')"
    "\<not> chainOperatorExposed Unquoted (''cat <<EOF'' @ [nl] @ ''$(id)'' @ [nl] @ ''EOF'')"
    by code_simp+
  have t: "\<exists>t \<in> set (chainPartTexts (''echo a; cat <<EOF'' @ [nl] @ ''$(id)'' @ [nl] @ ''EOF'')).
             liveSubstitution Unquoted [] None t"
    by code_simp
  have i1: "[s1] \<noteq> []" "\<forall>s \<in> set [s1]. inertStage s" unfolding s1_def by code_simp+
  have i2: "[s2] \<noteq> []" "\<forall>s \<in> set [s2]. inertStage s" unfolding s2_def by code_simp+
  have r1: "renderPipeline [s1] = ''echo '' @ [sq] @ ''output: $(whoami)'' @ [sq]"
    unfolding s1_def by code_simp
  have r2: "renderPipeline [s2] = ''echo '' @ [dq] @ ''output: '' @ [bsl] @ ''$(whoami)'' @ [dq]"
    unfolding s2_def by code_simp
  have t1: "stageTexts [s1] = [''echo '' @ [sq] @ ''output: $(whoami)'' @ [sq]]"
    unfolding s1_def by code_simp
  have a1: "shellWords (trim (renderStage s1)) = Some [''echo'', ''output: $(whoami)'']"
    unfolding s1_def by code_simp
  have a2: "shellWords (trim (renderStage s2)) = Some [''echo'', ''output: '' @ [bsl] @ ''$(whoami)'']"
    unfolding s2_def by code_simp
  have sa1: "\<forall>s \<in> set [s1]. \<exists>args. shellWords (trim (renderStage s)) = Some args \<and> args \<noteq> []"
    using a1 by simp
  have sa2: "\<forall>s \<in> set [s2]. \<exists>args. shellWords (trim (renderStage s)) = Some args \<and> args \<noteq> []"
    using a2 by simp
  have fam: "tightPipeline p" "list_all tightLink links" "links \<noteq> []" "blankText []"
    unfolding p_def links_def by code_simp+
  have rc: "[] @ renderInertChain p links @ [] = ''echo '' @ [sq] @ ''$(a)'' @ [sq] @ '' && echo ok''"
    unfolding p_def links_def by code_simp
  have tc: "concat (map stageTexts (chainPipelines p links)) =
      [''echo '' @ [sq] @ ''$(a)'' @ [sq], ''echo ok'']"
    unfolding p_def links_def by code_simp
  have b1: "shellWords (trim (renderStage (map Plain ''echo '' @ [SingleQuotedText ''$(a)''])))
      = Some [''echo'', ''$(a)'']"
    "shellWords (trim (renderStage (map Plain ''echo ok''))) = Some [''echo'', ''ok'']"
    by code_simp+
  have sac: "\<forall>q \<in> set (chainPipelines p links). \<forall>s \<in> set q.
               \<exists>args. shellWords (trim (renderStage s)) = Some args \<and> args \<noteq> []"
    unfolding p_def links_def chainPipelines_def using b1 by simp
  note sub = analyzeShellCommand_substitution
      [where platform = None and splitArgs = shellWords and resolvePath = usrBin]
  have rej: "\<not> ok (analyzeShellCommand shellWords usrBin cmd None)"
    if "exposedBeforeHeredoc Unquoted cmd
        \<or> (liveSubstitution Unquoted [] None cmd \<and> \<not> chainOperatorExposed Unquoted cmd)
        \<or> (\<exists>t \<in> set (chainPartTexts cmd). liveSubstitution Unquoted [] None t)" for cmd
    using sub [where cmd = cmd] posix that by blast
  have acc1: "ok (analyzeShellCommand shellWords usrBin (renderPipeline [s1]) None)
      \<and> map raw (segments (analyzeShellCommand shellWords usrBin (renderPipeline [s1]) None))
          = stageTexts [s1]"
    using sub [where stages = "[s1]"] posix i1 sa1 by blast
  have acc2: "ok (analyzeShellCommand shellWords usrBin (renderPipeline [s2]) None)"
    using sub [where stages = "[s2]"] posix i2 sa2 by blast
  have acc3: "ok (analyzeShellCommand shellWords usrBin ([] @ renderInertChain p links @ []) None)
      \<and> map raw (segments (analyzeShellCommand shellWords usrBin
                              ([] @ renderInertChain p links @ []) None))
          = concat (map stageTexts (chainPipelines p links))"
    using sub [where p = p and links = links and a = "[]" and z = "[]"] posix fam sac by blast
  show ?thesis
    using rej [of "''echo '' @ [dq] @ ''output: $(whoami)'' @ [dq]"]
      rej [of "''echo '' @ [dq] @ ''<<'' @ [dq] @ '' $(id)''"]
      rej [of "''echo $(id) << EOF''"]
      rej [of "''cat <<EOF'' @ [nl] @ ''$(id)'' @ [nl] @ ''EOF''"]
      rej [of "''echo a; cat <<EOF'' @ [nl] @ ''$(id)'' @ [nl] @ ''EOF''"]
      e w t acc1 acc2 acc3
    unfolding r1 r2 rc t1 tc by simp
qed

text \<open>
  C1 as stated fails on heredocs: in the body of a heredoc with a quoted delimiter
  an unescaped \<open>$(\<close> stands outside single quotes, and the command is accepted.
  With a chain operator in the command the heredoc-aware reading decides nothing
  either way, because the chain splitter trims the parts it cuts: in the second
  command the body line \<open>$(id)\<close>, followed by blanks, is live in a heredoc with
  an unquoted delimiter, yet after trimming it closes the heredoc and the command
  is accepted; in the third command an escaped blank before \<open>&&\<close> loses its blank,
  and a command with inert text only is rejected.
\<close>

theorem analyzeShellCommand_heredoc_counterexample:
  "\<not> isWindowsPlatform None
   \<and> exposedSubstitution Unquoted
       (''/usr/bin/cat <<'' @ [sq] @ ''EOF'' @ [sq, nl] @ ''$(id)'' @ [nl] @ ''EOF'')
   \<and> ok (analyzeShellCommand shellWords usrBin
       (''/usr/bin/cat <<'' @ [sq] @ ''EOF'' @ [sq, nl] @ ''$(id)'' @ [nl] @ ''EOF'') None)
   \<and> exposedSubstitution Unquoted (''ls ; cat <<$(id)'' @ [nl] @ ''$(id)  '' @ [nl])
   \<and> liveSubstitution Unquoted [] None (''ls ; cat <<$(id)'' @ [nl] @ ''$(id)  '' @ [nl])
   \<and> ok (analyzeShellCommand shellWords usrBin
       (''ls ; cat <<$(id)'' @ [nl] @ ''$(id)  '' @ [nl]) None)
   \<and> analyzeShellCommand shellWords usrBin (''echo a'' @ [bsl] @ ''  && echo b'') None =
       \<lparr>ok = False, reason = Some ''unterminated shell quote/escape'', segments = [],
        chains = None\<rparr>"
  by code_simp

subsection \<open>Selective quoting\<close>

lemma renderPipelineSegments_spec:
  "i + length raws \<le> length segs \<Longrightarrow> length bys = length segs \<Longrightarrow>
     renderPipelineSegments segs bys i raws =
       Some (map (\<lambda>(seg, by, rawText). renderSegment seg by rawText)
               (zip (drop i segs) (zip (drop i bys) raws)), i + length raws)"
proof (induction raws arbitrary: i)
  case Nil
  then show ?case by simp
next
  case (Cons r rs)
  then have lt: "i < length segs" "i < length bys" by simp_all
  have d1: "drop i segs = segs ! i # drop (Suc i) segs"
    using lt(1) by (simp add: Cons_nth_drop_Suc)
  have d2: "drop i bys = bys ! i # drop (Suc i) bys"
    using lt(2) by (simp add: Cons_nth_drop_Suc)
  have ih: "renderPipelineSegments segs bys (Suc i) rs =
       Some (map (\<lambda>(seg, by, rawText). renderSegment seg by rawText)
               (zip (drop (Suc i) segs) (zip (drop (Suc i) bys) rs)), Suc i + length rs)"
    using Cons.IH [of "Suc i"] Cons.prems by simp
  show ?case
    using lt by (simp add: ih d1 d2 renderSegment_def renderQuotedArgv_quotedTokens Let_def)
qed

lemma buildChainParts_spec:
  "\<forall>p \<in> set ps. splitOk (splitShellPipeline (part p)) \<Longrightarrow>
   length bys = length segs \<Longrightarrow>
   i + pipelineSegmentCount ps = length segs \<Longrightarrow>
     buildChainParts segs bys ps i out =
       \<lparr>builtOk = True,
        builtCommand = Some (out @ renderChain (drop i segs) (drop i bys) ps),
        builtReason = None\<rparr>"
proof (induction ps arbitrary: i out)
  case Nil
  then show ?case by (simp add: pipelineSegmentCount_def)
next
  case (Cons p ps)
  define raws where "raws = splitSegments (splitShellPipeline (part p))"
  have cnt: "i + length raws + pipelineSegmentCount ps = length segs"
    using Cons.prems(3) by (simp add: pipelineSegmentCount_def raws_def)
  then have le: "i + length raws \<le> length segs" by simp
  have ok: "splitOk (splitShellPipeline (part p))" using Cons.prems(1) by simp
  have rest: "\<forall>p \<in> set ps. splitOk (splitShellPipeline (part p))" using Cons.prems(1) by simp
  have ih: "buildChainParts segs bys ps (i + length raws) out' =
       \<lparr>builtOk = True,
        builtCommand = Some (out' @ renderChain (drop (i + length raws) segs)
                                      (drop (i + length raws) bys) ps),
        builtReason = None\<rparr>" for out'
    using Cons.IH [OF rest Cons.prems(2) cnt] .
  show ?case
    using ok renderPipelineSegments_spec [OF le Cons.prems(2)]
    by (simp add: Let_def raws_def [symmetric] ih add.commute operatorSuffix_def)
qed

text \<open>
  C8. When the number of segments differs from the number of flags,
  \<open>buildSafeBinsShellCommand\<close> refuses and produces no command. In POSIX mode,
  when every part of the chain is segmented and there is one segment and one flag
  per raw segment, the command produced is the rewriting of the parts: a segment
  flagged \<open>safeBins\<close> is replaced by the argv of its segment, each token between
  single quotes with \<open>'\<close> written \<open>'"'"'\<close>, every other segment is its raw text,
  segments are joined by \<open>|\<close> and parts by their chain operators. For a chain of
  inert pipelines with blanks around its operators this is the selective rewriting
  of the chain, stage by stage. For the command
  \<open>rg foo src/*.ts | head -n 5 && echo ok\<close> with flags
  \<open>[null, safeBins, null]\<close> the result is
  \<open>rg foo src/*.ts | 'head' '-n' '5' && echo ok\<close>.
\<close>

theorem buildSafeBinsShellCommand_selective:
  "(length segs \<noteq> length bys \<longrightarrow>
      \<not> builtOk (buildSafeBinsShellCommand cmd segs bys platform)
      \<and> builtCommand (buildSafeBinsShellCommand cmd segs bys platform) = None)
   \<and> (\<not> isWindowsPlatform platform
       \<and> length segs = length bys
       \<and> (\<forall>p \<in> set (commandChainParts cmd). splitOk (splitShellPipeline (part p)))
       \<and> pipelineSegmentCount (commandChainParts cmd) = length segs
      \<longrightarrow> buildSafeBinsShellCommand cmd segs bys platform =
            \<lparr>builtOk = True,
             builtCommand = Some (renderChain segs bys (commandChainParts cmd)),
             builtReason = None\<rparr>)
   \<and> (\<not> isWindowsPlatform platform
       \<and> tightPipeline p \<and> list_all tightLink links \<and> blankText a \<and> blankText z
       \<and> length bys = length segs \<and> length segs = stageCount p links
      \<longrightarrow> buildSafeBinsShellCommand (a @ renderInertChain p links @ z) segs bys platform =
            \<lparr>builtOk = True,
             builtCommand = Some (selectiveChain p links segs bys),
             builtReason = None\<rparr>)"
proof -
  have "\<not> builtOk (buildSafeBinsShellCommand cmd segs bys platform)
      \<and> builtCommand (buildSafeBinsShellCommand cmd segs bys platform) = None"
    if "length segs \<noteq> length bys"
    using that by (simp add: buildSafeBinsShellCommand_def refused_def)
  moreover have "buildSafeBinsShellCommand cmd segs bys platform =
            \<lparr>builtOk = True,
             builtCommand = Some (renderChain segs bys (commandChainParts cmd)),
             builtReason = None\<rparr>"
    if "\<not> isWindowsPlatform platform" "length segs = length bys"
      "\<forall>p \<in> set (commandChainParts cmd). splitOk (splitShellPipeline (part p))"
      "pipelineSegmentCount (commandChainParts cmd) = length segs"
    using that buildChainParts_spec [of "commandChainParts cmd" bys segs 0 "[]"]
    by (simp add: buildSafeBinsShellCommand_def)
  moreover have "buildSafeBinsShellCommand (a @ renderInertChain p links @ z) segs bys platform =
            \<lparr>builtOk = True,
             builtCommand = Some (selectiveChain p links segs bys),
             builtReason = None\<rparr>"
    if "\<not> isWindowsPlatform platform" "tightPipeline p" "list_all tightLink links"
      "blankText a" "blankText z" "length bys = length segs" "length segs = stageCount p links"
    using that buildChainParts_selective [of links p bys segs 0 "[]"]
    by (simp add: buildSafeBinsShellCommand_def commandChainParts_chain)
  ultimately show ?thesis by blast
qed

theorem buildSafeBinsShellCommand_selective_witness:
  "buildSafeBinsShellCommand ''rg foo src/*.ts | head -n 5 && echo ok''
      (segments (analyzeShellCommand shellWords usrBin
                   ''rg foo src/*.ts | head -n 5 && echo ok'' None))
      [None, Some SafeBins, None] None =
     \<lparr>builtOk = True,
      builtCommand = Some (''rg foo src/*.ts | '' @ [sq] @ ''head'' @ [sq] @ '' '' @ [sq] @ ''-n''
                           @ [sq] @ '' '' @ [sq] @ ''5'' @ [sq] @ '' && echo ok''),
      builtReason = None\<rparr>
   \<and> builtCommand (buildSafeBinsShellCommand ''rg foo src/*.ts | head -n 5 && echo ok''
      [\<lparr>raw = [], argv = [''rg''], resolution = None\<rparr>,
       \<lparr>raw = [], argv = [''head'', ''it'' @ [sq] @ ''s''], resolution = None\<rparr>,
       \<lparr>raw = [], argv = [''echo''], resolution = None\<rparr>]
      [Some Allowlist, Some SafeBins, Some SafeBins] None) =
     Some (''rg foo src/*.ts | '' @ [sq] @ ''head'' @ [sq] @ '' '' @ [sq] @ ''it'' @ [sq, dq, sq, dq, sq]
           @ ''s'' @ [sq] @ '' && '' @ [sq] @ ''echo'' @ [sq])
   \<and> \<not> builtOk (buildSafeBinsShellCommand ''rg foo src/*.ts | head -n 5 && echo ok''
      (segments (analyzeShellCommand shellWords usrBin
                   ''rg foo src/*.ts | head -n 5 && echo ok'' None))
      [None, Some SafeBins] None)
   \<and> builtCommand (buildSafeBinsShellCommand (''echo '' @ [dq] @ ''$HOME'' @ [dq] @ '' | wc -l ; ls'')
      [\<lparr>raw = [], argv = [''echo''], resolution = None\<rparr>,
       \<lparr>raw = [], argv = [''wc'', ''-l''], resolution = None\<rparr>,
       \<lparr>raw = [], argv = [''ls''], resolution = None\<rparr>]
      [None, Some SafeBins, None] None) =
     Some (''echo '' @ [dq] @ ''$HOME'' @ [dq] @ '' | '' @ [sq] @ ''wc'' @ [sq] @ '' '' @ [sq] @ ''-l''
           @ [sq] @ '' ; ls'')"
proof -
  define p where "p = [map Plain ''rg foo src/*.ts '', map Plain '' head -n 5'']"
  define links where "links = [('' '', AndAnd, '' '', [map Plain ''echo ok''])]"
  define segs where "segs = segments (analyzeShellCommand shellWords usrBin
                   ''rg foo src/*.ts | head -n 5 && echo ok'' None)"
  define segs2 where "segs2 = [\<lparr>raw = [], argv = [''rg''], resolution = None\<rparr>,
       \<lparr>raw = [], argv = [''head'', ''it'' @ [sq] @ ''s''], resolution = None\<rparr>,
       \<lparr>raw = [], argv = [''echo''], resolution = None\<rparr>]"
  define segs3 where "segs3 = [\<lparr>raw = [], argv = [''echo''], resolution = None\<rparr>,
       \<lparr>raw = [], argv = [''wc'', ''-l''], resolution = None\<rparr>,
       \<lparr>raw = [], argv = [''ls''], resolution = None\<rparr>]"
  define cmd3 where "cmd3 = ''echo '' @ [dq] @ ''$HOME'' @ [dq] @ '' | wc -l ; ls''"
  have cmd: "[] @ renderInertChain p links @ [] = ''rg foo src/*.ts | head -n 5 && echo ok''"
    unfolding p_def links_def by code_simp
  have posix: "\<not> isWindowsPlatform None" by code_simp
  have fam: "tightPipeline p" "list_all tightLink links" "blankText []"
    unfolding p_def links_def by code_simp+
  have len: "length [None, Some SafeBins, None] = length segs" "length segs = stageCount p links"
    "length segs \<noteq> length [None, Some SafeBins]"
    "length [Some Allowlist, Some SafeBins, Some SafeBins] = length segs2"
    "length segs2 = stageCount p links"
    unfolding segs_def segs2_def p_def links_def by code_simp+
  have out: "selectiveChain p links segs [None, Some SafeBins, None] =
      ''rg foo src/*.ts | '' @ [sq] @ ''head'' @ [sq] @ '' '' @ [sq] @ ''-n''
        @ [sq] @ '' '' @ [sq] @ ''5'' @ [sq] @ '' && echo ok''"
    "selectiveChain p links segs2 [Some Allowlist, Some SafeBins, Some SafeBins] =
      ''rg foo src/*.ts | '' @ [sq] @ ''head'' @ [sq] @ '' '' @ [sq] @ ''it'' @ [sq, dq, sq, dq, sq]
           @ ''s'' @ [sq] @ '' && '' @ [sq] @ ''echo'' @ [sq]"
    unfolding segs_def segs2_def p_def links_def by code_simp+
  have gen: "length segs3 = length [None, Some SafeBins, None]"
    "\<forall>p \<in> set (commandChainParts cmd3). splitOk (splitShellPipeline (part p))"
    "pipelineSegmentCount (commandChainParts cmd3) = length segs3"
    unfolding segs3_def cmd3_def by code_simp+
  have out3: "renderChain segs3 [None, Some SafeBins, None] (commandChainParts cmd3) =
      ''echo '' @ [dq] @ ''$HOME'' @ [dq] @ '' | '' @ [sq] @ ''wc'' @ [sq] @ '' '' @ [sq] @ ''-l''
           @ [sq] @ '' ; ls''"
    unfolding segs3_def cmd3_def by code_simp
  have three: "builtCommand (buildSafeBinsShellCommand cmd3 segs3 [None, Some SafeBins, None] None) =
      Some (renderChain segs3 [None, Some SafeBins, None] (commandChainParts cmd3))"
    using buildSafeBinsShellCommand_selective
        [of segs3 "[None, Some SafeBins, None]" cmd3 None p links "[]" "[]"] posix gen
    by simp
  show ?thesis
    using buildSafeBinsShellCommand_selective
        [of segs "[None, Some SafeBins, None]" _ None p links "[]" "[]"]
      buildSafeBinsShellCommand_selective
        [of segs2 "[Some Allowlist, Some SafeBins, Some SafeBins]" _ None p links "[]" "[]"]
      buildSafeBinsShellCommand_selective
        [of segs "[None, Some SafeBins]" "''rg foo src/*.ts | head -n 5 && echo ok''" None p links "[]" "[]"]
      posix fam len three
    unfolding out out3 cmd unfolding segs_def segs2_def segs3_def cmd3_def by simp
qed

end
